(* ===== verification/Prelude.thy ===== *)
theory Prelude
  imports
    "HOL-Library.Word"
    "HOL-Library.List_Lexorder"
    "HOL-Library.Char_ord"
    "HOL-Library.Sublist"
    "HOL-Library.Multiset"
begin

text \<open>
  Shared vocabulary of the development: the result type of fallible Rust code with its
  propagation operator, the pieces of the Rust standard library that several components use
  (hash-map entries, hash sets with an iteration order, checked and saturating machine
  arithmetic, big-endian byte strings, splitting of strings), and the lemmas about them that the
  component proofs rest on.
\<close>

named_theorems result_simps \<open>inversion rules for fallible computations\<close>
named_theorems coll_simps \<open>rules for the collections of the standard library\<close>

section \<open>Results\<close>

type_synonym ('e, 'a) result = "'e + 'a"

abbreviation Ok :: "'a \<Rightarrow> ('e, 'a) result" where "Ok \<equiv> Inr"
abbreviation Err :: "'e \<Rightarrow> ('e, 'a) result" where "Err \<equiv> Inl"

text \<open>A computation fails with an error value or panics.\<close>

datatype 'e failure = Error 'e | Panic

text \<open>The question-mark operator: stop at the first error, else go on with the value.\<close>

fun and_then :: "('e, 'a) result \<Rightarrow> ('a \<Rightarrow> ('e, 'b) result) \<Rightarrow> ('e, 'b) result" where
  "and_then (Inl e) f = Inl e"
| "and_then (Inr x) f = f x"

definition ensure :: "bool \<Rightarrow> 'e \<Rightarrow> ('e, unit) result" where
  "ensure b e = (if b then Ok () else Err e)"

fun try_fold :: "('s \<Rightarrow> 'a \<Rightarrow> ('e, 's) result) \<Rightarrow> 's \<Rightarrow> 'a list \<Rightarrow> ('e, 's) result" where
  "try_fold f s [] = Ok s"
| "try_fold f s (x # xs) = and_then (f s x) (\<lambda>s'. try_fold f s' xs)"

fun try_each :: "('a \<Rightarrow> ('e, unit) result) \<Rightarrow> 'a list \<Rightarrow> ('e, unit) result" where
  "try_each f [] = Ok ()"
| "try_each f (x # xs) = and_then (f x) (\<lambda>_. try_each f xs)"

definition is_ok :: "('e, 'a) result \<Rightarrow> bool" where
  "is_ok r = (case r of Inl _ \<Rightarrow> False | Inr _ \<Rightarrow> True)"

lemma and_then_Ok [result_simps]:
  "and_then m f = Inr y \<longleftrightarrow> (\<exists>x. m = Inr x \<and> f x = Inr y)"
  by (cases m) auto

lemma and_then_Err [result_simps]:
  "and_then m f = Inl e \<longleftrightarrow> m = Inl e \<or> (\<exists>x. m = Inr x \<and> f x = Inl e)"
  by (cases m) auto

lemma case_unit_result_Ok [result_simps]:
  "(case r of Inl e \<Rightarrow> Inl (f e) | Inr _ \<Rightarrow> m) = Inr y \<longleftrightarrow> r = Inr () \<and> m = Inr y"
  for r :: "'e + unit"
  by (cases r) auto

lemma and_then_Inr [simp]: "and_then m Inr = m"
  by (cases m) auto

lemma and_then_assoc:
  "and_then (and_then m f) g = and_then m (\<lambda>x. and_then (f x) g)"
  by (cases m) auto

lemma ensure_Ok [result_simps]: "ensure b e = Inr u \<longleftrightarrow> b"
  by (simp add: ensure_def)

lemma ensure_Err [result_simps]: "ensure b e = Inl e' \<longleftrightarrow> \<not> b \<and> e' = e"
  by (auto simp: ensure_def)

lemma ensure_True [simp]: "ensure True e = Inr ()"
  by (simp add: ensure_def)

lemma ensure_False [simp]: "ensure False e = Inl e"
  by (simp add: ensure_def)

lemma try_each_Ok [result_simps]:
  "try_each f xs = Inr u \<longleftrightarrow> (\<forall>x \<in> set xs. f x = Inr ())"
  by (induction xs) (auto simp: result_simps)

lemma try_fold_append:
  "try_fold f s (xs @ ys) = and_then (try_fold f s xs) (\<lambda>s'. try_fold f s' ys)"
  by (induction xs arbitrary: s) (auto simp: and_then_assoc)

lemma is_ok_simps [simp]: "is_ok (Inr x)" "\<not> is_ok (Inl e)"
  by (simp_all add: is_ok_def)

lemma is_ok_iff: "is_ok r \<longleftrightarrow> (\<exists>x. r = Inr x)"
  by (cases r) auto

section \<open>Collections of the standard library\<close>

text \<open>
  A hash set is kept as the list of its elements in iteration order.  Elements are compared
  through a key, which is how the task nodes of the program implement equality.
\<close>

definition hs_contains :: "('a \<Rightarrow> 'k) \<Rightarrow> 'a \<Rightarrow> 'a list \<Rightarrow> bool" where
  "hs_contains key x xs \<longleftrightarrow> key x \<in> set (map key xs)"

definition hs_insert :: "('a \<Rightarrow> 'k) \<Rightarrow> 'a \<Rightarrow> 'a list \<Rightarrow> 'a list" where
  "hs_insert key x xs = (if hs_contains key x xs then xs else xs @ [x])"

text \<open>\<open>map.entry(k).or_default()\<close> followed by an update in place.\<close>

fun entry_update :: "'k \<Rightarrow> 'v \<Rightarrow> ('v \<Rightarrow> 'v) \<Rightarrow> ('k \<times> 'v) list \<Rightarrow> ('k \<times> 'v) list" where
  "entry_update k d f [] = [(k, f d)]"
| "entry_update k d f ((k', v) # m) = (if k' = k then (k', f v) # m else (k', v) # entry_update k d f m)"

lemma hs_insert_keys [coll_simps]:
  "key ` set (hs_insert key x xs) = insert (key x) (key ` set xs)"
  by (auto simp: hs_insert_def hs_contains_def)

lemma hs_insert_distinct:
  "distinct (map key xs) \<Longrightarrow> distinct (map key (hs_insert key x xs))"
  by (auto simp: hs_insert_def hs_contains_def)

lemma hs_insert_set: "set (hs_insert key x xs) \<subseteq> insert x (set xs)"
  by (auto simp: hs_insert_def)

lemma entry_update_keys [coll_simps]:
  "fst ` set (entry_update k d f m) = insert k (fst ` set m)"
  by (induction k d f m rule: entry_update.induct) auto

lemma entry_update_distinct:
  "distinct (map fst m) \<Longrightarrow> distinct (map fst (entry_update k d f m))"
proof (induction k d f m rule: entry_update.induct)
  case (2 k d f k' v m)
  have "fst ` set (entry_update k d f m) = insert k (fst ` set m)"
    by (rule entry_update_keys)
  then show ?case using 2 by auto
qed simp

lemma entry_update_map_of [coll_simps]:
  "map_of (entry_update k d f m) =
     (map_of m)(k \<mapsto> f (case map_of m k of None \<Rightarrow> d | Some v \<Rightarrow> v))"
  by (induction k d f m rule: entry_update.induct) (auto simp: fun_eq_iff)

lemma distinct_count_list:
  "distinct xs \<Longrightarrow> count_list xs x = (if x \<in> set xs then 1 else 0)"
  by (induction xs) auto

lemma sorted_wrt_last: "sorted_wrt R xs \<Longrightarrow> a \<in> set xs \<Longrightarrow> a = last xs \<or> R a (last xs)"
  by (induction xs) auto

section \<open>Machine integers\<close>

type_synonym u8 = "8 word"
type_synonym u16 = "16 word"
type_synonym u32 = "32 word"
type_synonym u64 = "64 word"

definition checked_add :: "'a::len word \<Rightarrow> 'a word \<Rightarrow> 'a word option" where
  "checked_add x y = (if unat x + unat y < 2 ^ LENGTH('a) then Some (x + y) else None)"

definition saturating_add :: "'a::len word \<Rightarrow> 'a word \<Rightarrow> 'a word" where
  "saturating_add x y = (if unat x + unat y < 2 ^ LENGTH('a) then x + y else - 1)"

definition saturating_sub :: "'a::len word \<Rightarrow> 'a word \<Rightarrow> 'a word" where
  "saturating_sub x y = (if y \<le> x then x - y else 0)"

definition saturating_mul :: "'a::len word \<Rightarrow> 'a word \<Rightarrow> 'a word" where
  "saturating_mul x y = (if unat x * unat y < 2 ^ LENGTH('a) then x * y else - 1)"

lemma unat_less: "unat (w :: 'a::len word) < 2 ^ LENGTH('a)"
  by (rule unsigned_less)

lemma unat_max: "unat (- 1 :: 'a::len word) = 2 ^ LENGTH('a) - 1"
  by (metis unsigned_minus_1_eq_mask mask_eq_exp_minus_1)

lemma checked_add_Some [result_simps]:
  "checked_add x y = Some z \<longleftrightarrow> unat z = unat x + unat y" for x y z :: "'a::len word"
proof -
  have "unat (x + y) = unat x + unat y" if "unat x + unat y < 2 ^ LENGTH('a)" for x y :: "'a word"
    using that by (simp add: unat_word_ariths)
  then show ?thesis by (auto simp: checked_add_def word_unat_eq_iff) (metis unat_less)
qed

lemma checked_add_None [result_simps]:
  "checked_add x y = None \<longleftrightarrow> 2 ^ LENGTH('a) \<le> unat x + unat y" for x y :: "'a::len word"
  by (auto simp: checked_add_def)

lemma unat_saturating_add:
  "unat (saturating_add x y) = min (unat x + unat y) (2 ^ LENGTH('a) - 1)" for x y :: "'a::len word"
  by (auto simp: saturating_add_def unat_word_ariths unat_max)

lemma unat_saturating_sub: "unat (saturating_sub x y) = unat x - unat y"
  by (auto simp: saturating_sub_def unat_sub word_le_nat_alt)

lemma unat_saturating_mul:
  "unat (saturating_mul x y) = min (unat x * unat y) (2 ^ LENGTH('a) - 1)" for x y :: "'a::len word"
  by (auto simp: saturating_mul_def unat_word_ariths unat_max)

section \<open>Bytes\<close>

text \<open>\<open>to_be n v\<close> is the big-endian encoding of \<open>v\<close> in \<open>n\<close> bytes, as \<open>to_be_bytes\<close> gives it.\<close>

fun to_be :: "nat \<Rightarrow> nat \<Rightarrow> u8 list" where
  "to_be 0 v = []"
| "to_be (Suc n) v = to_be n (v div 256) @ [word_of_nat (v mod 256)]"

definition from_be :: "u8 list \<Rightarrow> nat" where
  "from_be bs = foldl (\<lambda>a b. a * 256 + unat b) 0 bs"

definition u16_be :: "u16 \<Rightarrow> u8 list" where "u16_be v = to_be 2 (unat v)"
definition u32_be :: "u32 \<Rightarrow> u8 list" where "u32_be v = to_be 4 (unat v)"
definition u64_be :: "u64 \<Rightarrow> u8 list" where "u64_be v = to_be 8 (unat v)"

lemma length_to_be [simp]: "length (to_be n v) = n"
  by (induction n arbitrary: v) auto

lemma unat_byte: "unat (word_of_nat n :: u8) = n mod 256"
  by (simp add: unat_of_nat)

lemma from_be_to_be: "v < 256 ^ n \<Longrightarrow> from_be (to_be n v) = v"
proof (induction n arbitrary: v)
  case (Suc n)
  then have "v div 256 < 256 ^ n" by (simp add: less_mult_imp_div_less mult.commute)
  from Suc.IH[OF this] show ?case by (simp add: from_be_def unat_byte)
qed (simp add: from_be_def)

lemma from_be_snoc: "from_be (bs @ [b]) = from_be bs * 256 + unat b"
  by (simp add: from_be_def)

lemma from_be_less: "from_be bs < 256 ^ length bs"
proof (induction bs rule: rev_induct)
  case (snoc b bs)
  have "unat b < 256" using unat_less[of b] by simp
  then show ?case using snoc by (simp add: from_be_snoc)
qed (simp add: from_be_def)

lemma to_be_from_be: "to_be (length bs) (from_be bs) = bs"
proof (induction bs rule: rev_induct)
  case (snoc b bs)
  have "unat b < 256" using unat_less[of b] by simp
  then show ?case using snoc by (simp add: from_be_snoc)
qed simp

lemma to_be_inject:
  "v < 256 ^ n \<Longrightarrow> w < 256 ^ n \<Longrightarrow> to_be n v = to_be n w \<longleftrightarrow> v = w"
  by (metis from_be_to_be)

lemma u16_be_simps [simp]: "length (u16_be v) = 2" "u16_be v = u16_be w \<longleftrightarrow> v = w"
  using to_be_inject[of "unat v" 2 "unat w"] unat_less[of v] unat_less[of w]
  by (auto simp: u16_be_def word_unat_eq_iff)

lemma u32_be_simps [simp]: "length (u32_be v) = 4" "u32_be v = u32_be w \<longleftrightarrow> v = w"
  using to_be_inject[of "unat v" 4 "unat w"] unat_less[of v] unat_less[of w]
  by (auto simp: u32_be_def word_unat_eq_iff)

lemma u64_be_simps [simp]: "length (u64_be v) = 8" "u64_be v = u64_be w \<longleftrightarrow> v = w"
  using to_be_inject[of "unat v" 8 "unat w"] unat_less[of v] unat_less[of w]
  by (auto simp: u64_be_def word_unat_eq_iff)

section \<open>Strings\<close>

text \<open>
  A string is the list of its UTF-8 bytes, one \<open>char\<close> per byte, so \<open>length\<close> is \<open>str::len\<close> and the
  list order is the order of \<open>str::cmp\<close>.
\<close>

definition byte_of_char :: "char \<Rightarrow> u8" where
  "byte_of_char c = word_of_nat (of_char c)"

definition as_bytes :: "string \<Rightarrow> u8 list" where
  "as_bytes s = map byte_of_char s"

definition char_of_byte :: "u8 \<Rightarrow> char" where
  "char_of_byte b = char_of (unat b)"

text \<open>
  \<open>chars().any(char::is_control)\<close>: the control characters are U+0000 to U+001F, U+007F, and
  U+0080 to U+009F, whose encodings are the byte 0xC2 followed by 0x80 to 0x9F.
\<close>

fun has_control :: "string \<Rightarrow> bool" where
  "has_control [] \<longleftrightarrow> False"
| "has_control (c # cs) \<longleftrightarrow>
     of_char c < (32::nat) \<or> of_char c = (127::nat) \<or>
     (of_char c = (194::nat) \<and> (case cs of [] \<Rightarrow> False | d # _ \<Rightarrow> 128 \<le> (of_char d :: nat) \<and> of_char d < (160::nat))) \<or>
     has_control cs"

text \<open>\<open>str::split\<close> on one character: always at least one part.\<close>

fun split_on :: "'a \<Rightarrow> 'a list \<Rightarrow> 'a list list" where
  "split_on sep [] = [[]]"
| "split_on sep (c # cs) =
     (if c = sep then [] # split_on sep cs
      else case split_on sep cs of [] \<Rightarrow> [[c]] | p # ps \<Rightarrow> (c # p) # ps)"

fun join :: "'a list \<Rightarrow> 'a list list \<Rightarrow> 'a list" where
  "join sep [] = []"
| "join sep [p] = p"
| "join sep (p # ps) = p @ sep @ join sep ps"

definition starts_with :: "'a list \<Rightarrow> 'a list \<Rightarrow> bool" where
  "starts_with s p \<longleftrightarrow> take (length p) s = p"

definition strip_prefix :: "'a list \<Rightarrow> 'a list \<Rightarrow> 'a list option" where
  "strip_prefix s p = (if starts_with s p then Some (drop (length p) s) else None)"

text \<open>Decimal rendering of a number and quoting, as the formatting macros do.\<close>

fun decimal :: "nat \<Rightarrow> string" where
  "decimal n = (if n < 10 then [char_of (48 + n)] else decimal (n div 10) @ [char_of (48 + n mod 10)])"

declare decimal.simps [simp del]

definition quoted :: "string \<Rightarrow> string" where
  "quoted s = [CHR 0x27] @ s @ [CHR 0x27]"

lemma char_of_byte_of_char [simp]: "char_of_byte (byte_of_char c) = c"
proof -
  have "of_char c < (256::nat)" by (metis of_char_mod_256 mod_less_divisor zero_less_numeral)
  then show ?thesis by (simp add: char_of_byte_def byte_of_char_def unat_byte)
qed

lemma byte_of_char_of_byte [simp]: "byte_of_char (char_of_byte b) = b"
  using unat_less[of b] by (simp add: char_of_byte_def byte_of_char_def)

lemma length_as_bytes [simp]: "length (as_bytes s) = length s"
  by (simp add: as_bytes_def)

lemma as_bytes_inject [simp]: "as_bytes s = as_bytes t \<longleftrightarrow> s = t"
  unfolding as_bytes_def by (metis char_of_byte_of_char injI inj_map_eq_map)

lemma split_on_nonempty [simp]: "split_on sep s \<noteq> []"
  by (induction s) (auto split: list.splits)

lemma split_on_free: "sep \<notin> set s \<Longrightarrow> split_on sep s = [s]"
  by (induction s) auto

lemma split_on_append:
  "sep \<notin> set p \<Longrightarrow> split_on sep (p @ sep # s) = p # split_on sep s"
  by (induction p) auto

lemma split_on_parts: "p \<in> set (split_on sep s) \<Longrightarrow> sep \<notin> set p"
  by (induction s arbitrary: p) (auto split: list.splits if_splits)

lemma join_split_on [simp]: "join [sep] (split_on sep s) = s"
proof (induction s)
  case (Cons c s)
  obtain p ps where "split_on sep s = p # ps" by (cases "split_on sep s") auto
  then show ?case using Cons by (cases ps) auto
qed simp

lemma split_on_join:
  "ps \<noteq> [] \<Longrightarrow> \<forall>p \<in> set ps. sep \<notin> set p \<Longrightarrow> split_on sep (join [sep] ps) = ps"
  by (induction "[sep]" ps rule: join.induct) (auto simp: split_on_free split_on_append)

lemma split_on_inject: "split_on sep s = split_on sep t \<longleftrightarrow> s = t"
  by (metis join_split_on)

lemma strip_prefix_append [simp]: "strip_prefix (p @ r) p = Some r"
  by (simp add: strip_prefix_def starts_with_def)

lemma strip_prefix_Some: "strip_prefix s p = Some r \<longleftrightarrow> s = p @ r"
  by (auto simp: strip_prefix_def starts_with_def) (metis append_take_drop_id)

text \<open>
  Well-formed UTF-8, as \<open>str::from_utf8\<close> and \<open>OsStr::to_str\<close> check it: no overlong forms, no
  surrogates, nothing above U+10FFFF.
\<close>

definition utf8_cont :: "char \<Rightarrow> bool" where
  "utf8_cont c \<longleftrightarrow> 128 \<le> (of_char c :: nat) \<and> of_char c < (192::nat)"

definition utf8_two :: "char \<Rightarrow> char \<Rightarrow> bool" where
  "utf8_two a b \<longleftrightarrow> 194 \<le> (of_char a :: nat) \<and> of_char a \<le> (223::nat) \<and> utf8_cont b"

definition utf8_three :: "char \<Rightarrow> char \<Rightarrow> char \<Rightarrow> bool" where
  "utf8_three a b c \<longleftrightarrow>
     224 \<le> (of_char a :: nat) \<and> of_char a \<le> (239::nat) \<and> utf8_cont b \<and> utf8_cont c \<and>
     (of_char a = (224::nat) \<longrightarrow> 160 \<le> (of_char b :: nat)) \<and>
     (of_char a = (237::nat) \<longrightarrow> of_char b < (160::nat))"

definition utf8_four :: "char \<Rightarrow> char \<Rightarrow> char \<Rightarrow> char \<Rightarrow> bool" where
  "utf8_four a b c d \<longleftrightarrow>
     240 \<le> (of_char a :: nat) \<and> of_char a \<le> (244::nat) \<and> utf8_cont b \<and> utf8_cont c \<and> utf8_cont d \<and>
     (of_char a = (240::nat) \<longrightarrow> 144 \<le> (of_char b :: nat)) \<and>
     (of_char a = (244::nat) \<longrightarrow> of_char b < (144::nat))"

fun utf8_valid :: "string \<Rightarrow> bool" where
  "utf8_valid [] \<longleftrightarrow> True"
| "utf8_valid (a # r) \<longleftrightarrow>
     (if of_char a < (128::nat) then utf8_valid r
      else case r of
        b # r1 \<Rightarrow>
          if utf8_two a b then utf8_valid r1
          else (case r1 of
            c # r2 \<Rightarrow>
              if utf8_three a b c then utf8_valid r2
              else (case r2 of d # r3 \<Rightarrow> utf8_four a b c d \<and> utf8_valid r3 | [] \<Rightarrow> False)
          | [] \<Rightarrow> False)
      | [] \<Rightarrow> False)"

lemma utf8_ascii: "\<forall>c \<in> set s. of_char c < (128::nat) \<Longrightarrow> utf8_valid s"
  by (induction s) auto

section \<open>Sorting with a comparison function\<close>

datatype Ordering = Less | Equal | Greater

text \<open>\<open>slice::sort_by\<close>, a stable sort, as an insertion sort.\<close>

fun insert_by :: "('a \<Rightarrow> 'a \<Rightarrow> Ordering) \<Rightarrow> 'a \<Rightarrow> 'a list \<Rightarrow> 'a list" where
  "insert_by cmp x [] = [x]"
| "insert_by cmp x (y # ys) = (if cmp x y = Greater then y # insert_by cmp x ys else x # y # ys)"

definition sort_by :: "('a \<Rightarrow> 'a \<Rightarrow> Ordering) \<Rightarrow> 'a list \<Rightarrow> 'a list" where
  "sort_by cmp xs = foldr (insert_by cmp) xs []"

definition ord_cmp :: "'a::linorder \<Rightarrow> 'a \<Rightarrow> Ordering" where
  "ord_cmp x y = (if x < y then Less else if x = y then Equal else Greater)"

lemma ord_cmp_simps [simp]:
  "ord_cmp x y = Less \<longleftrightarrow> x < y" "ord_cmp x y = Equal \<longleftrightarrow> x = y" "ord_cmp x y = Greater \<longleftrightarrow> y < x"
  by (auto simp: ord_cmp_def)

lemma sort_by_key:
  assumes "\<And>x y. cmp x y = ord_cmp (key x) (key y)"
  shows "sort_by cmp xs = sort_key key xs"
proof -
  have "insert_by cmp x ys = insort_key key x ys" for x ys
    by (induction ys) (auto simp: assms)
  then show ?thesis by (simp add: sort_by_def sort_key_def fun_eq_iff cong: foldr_cong)
qed

section \<open>Fallible state transformers\<close>

text \<open>A call that changes the state and returns an error or a value; with textual errors it is an \<open>io\<close>.\<close>

type_synonym ('s, 'e, 'a) eff = "'s \<Rightarrow> 's \<times> ('e, 'a) result"
type_synonym ('s, 'a) io = "('s, string, 'a) eff"

definition io_bind :: "('s, 'e, 'a) eff \<Rightarrow> ('a \<Rightarrow> ('s, 'e, 'b) eff) \<Rightarrow> ('s, 'e, 'b) eff" where
  "io_bind m f s = (case m s of (s', Inl e) \<Rightarrow> (s', Inl e) | (s', Inr x) \<Rightarrow> f x s')"

fun io_each :: "('x \<Rightarrow> ('s, 'e, unit) eff) \<Rightarrow> 'x list \<Rightarrow> ('s, 'e, unit) eff" where
  "io_each f [] s = (s, Ok ())"
| "io_each f (x # xs) s = io_bind (f x) (\<lambda>_. io_each f xs) s"

text \<open>Attempts everything and keeps the first error.\<close>

fun io_all :: "('x \<Rightarrow> ('s, unit) io) \<Rightarrow> string option \<Rightarrow> 'x list \<Rightarrow> ('s, unit) io" where
  "io_all f first [] s = (s, case first of None \<Rightarrow> Ok () | Some e \<Rightarrow> Err e)"
| "io_all f first (x # xs) s =
     (case f x s of
        (s', Inl e) \<Rightarrow> io_all f (case first of None \<Rightarrow> Some e | Some e' \<Rightarrow> Some e') xs s'
      | (s', Inr _) \<Rightarrow> io_all f first xs s')"

lemma io_each_append:
  "io_each f (xs @ ys) s = io_bind (io_each f xs) (\<lambda>_. io_each f ys) s"
proof (induction xs arbitrary: s)
  case (Cons x xs)
  show ?case by (auto simp: io_bind_def Cons.IH split: prod.splits sum.splits)
qed (simp add: io_bind_def)

lemma map_filter_snoc: "List.map_filter f (xs @ [x]) = List.map_filter f xs @ (case f x of None \<Rightarrow> [] | Some y \<Rightarrow> [y])"
  by (induction xs) (auto simp: map_filter_simps split: option.splits)

text \<open>A transformer that never fails is determined by its effect.\<close>

lemma io_each_ok:
  assumes "\<And>x s. snd (f x s) = Ok ()"
  shows "io_each f xs s = (foldl (\<lambda>s x. fst (f x s)) s xs, Ok ())"
proof (induction xs arbitrary: s)
  case (Cons x xs)
  show ?case using assms[of x s] by (cases "f x s") (simp add: io_bind_def Cons.IH)
qed simp

lemma io_all_ok:
  assumes "\<And>x s. snd (f x s) = Ok ()"
  shows "io_all f None xs s = (foldl (\<lambda>s x. fst (f x s)) s xs, Ok ())"
proof (induction xs arbitrary: s)
  case (Cons x xs)
  show ?case using assms[of x s] by (cases "f x s") (simp add: Cons.IH)
qed simp

end
