(* ===== verification/Dag.thy ===== *)
theory Dag
  imports Prelude
begin

text \<open>
  The dependency graph of \<^verbatim>\<open>crates/octa-dag\<close>: the graph structure, its two mutators, and the two
  queries that run Kahn's algorithm.  Nodes are compared by their identifier, as the task nodes of
  the executor are.  Hash sets and hash maps are lists in iteration order, so every theorem holds
  for whatever order the runtime iterates in.
\<close>

section \<open>The graph\<close>

datatype DAGError = NodeNotFound string

record 'a DAG =
  nodes :: "'a list"
  edges :: "(string \<times> 'a list) list"

type_synonym in_degree = "(string \<times> nat) list"

definition dag_new :: "'a DAG" where
  "dag_new = \<lparr>nodes = [], edges = []\<rparr>"

definition add_node :: "('a \<Rightarrow> string) \<Rightarrow> 'a \<Rightarrow> 'a DAG \<Rightarrow> 'a DAG" where
  "add_node ident n g =
     g\<lparr>nodes := hs_insert ident n (nodes g), edges := entry_update (ident n) [] id (edges g)\<rparr>"

definition add_dependency ::
    "('a \<Rightarrow> string) \<Rightarrow> 'a \<Rightarrow> 'a \<Rightarrow> 'a DAG \<Rightarrow> (DAGError, 'a DAG) result" where
  "add_dependency ident src dst g =
     (if \<not> hs_contains ident src (nodes g) then Err (NodeNotFound (ident src))
      else if \<not> hs_contains ident dst (nodes g) then Err (NodeNotFound (ident dst))
      else Ok (g\<lparr>edges := entry_update (ident src) [] (hs_insert ident dst) (edges g)\<rparr>))"

definition node_count :: "'a DAG \<Rightarrow> nat" where
  "node_count g = length (nodes g)"

section \<open>In-degrees\<close>

text \<open>\<open>*in_degree.get_mut(id).unwrap() += 1\<close>: the unwrap panics on a missing key.\<close>

fun bump :: "string \<Rightarrow> in_degree \<Rightarrow> (DAGError failure, in_degree) result" where
  "bump k [] = Err Panic"
| "bump k ((k', c) # m) =
     (if k' = k then Ok ((k', Suc c) # m) else and_then (bump k m) (\<lambda>m'. Ok ((k', c) # m')))"

definition calculate_in_degrees ::
    "('a \<Rightarrow> string) \<Rightarrow> 'a DAG \<Rightarrow> (DAGError failure, in_degree) result" where
  "calculate_in_degrees ident g =
     try_fold (\<lambda>m node. bump (ident node) m)
       (foldl (\<lambda>m n. entry_update (ident n) 0 (\<lambda>_. 0) m) [] (nodes g))
       (concat (map snd (edges g)))"

section \<open>Kahn's algorithm\<close>

text \<open>
  \<open>*count -= 1\<close> on an entry that may be missing (an error) or already zero (an arithmetic panic);
  the result also tells whether the count reached zero.
\<close>

fun drop_one :: "string \<Rightarrow> in_degree \<Rightarrow> (DAGError failure, in_degree \<times> bool) result" where
  "drop_one k [] = Err (Error (NodeNotFound k))"
| "drop_one k ((k', c) # m) =
     (if k' = k then (if c = 0 then Err Panic else Ok ((k', c - 1) # m, c = 1))
      else and_then (drop_one k m) (\<lambda>(m', z). Ok ((k', c) # m', z)))"

fun relax :: "string list \<Rightarrow> in_degree \<Rightarrow> string list
    \<Rightarrow> (DAGError failure, in_degree \<times> string list) result" where
  "relax [] m queue = Ok (m, queue)"
| "relax (dep # deps) m queue =
     and_then (drop_one dep m) (\<lambda>(m', z). relax deps m' (if z then queue @ [dep] else queue))"

definition deps_of :: "('a \<Rightarrow> string) \<Rightarrow> 'a DAG \<Rightarrow> string \<Rightarrow> string list" where
  "deps_of ident g k = (case map_of (edges g) k of None \<Rightarrow> [] | Some ds \<Rightarrow> map ident ds)"

lemma drop_one_sum:
  "drop_one k m = Inr (m', z) \<Longrightarrow> sum_list (map snd m) = Suc (sum_list (map snd m'))"
  by (induction k m arbitrary: m' z rule: drop_one.induct)
     (auto simp: result_simps split: if_splits)

lemma relax_measure:
  "relax ds m q = Inr (m', q') \<Longrightarrow>
     length q' + sum_list (map snd m') \<le> length q + sum_list (map snd m)"
proof (induction ds m q arbitrary: m' q' rule: relax.induct)
  case (2 dep deps m queue)
  then obtain m1 z where d: "drop_one dep m = Inr (m1, z)"
    and r: "relax deps m1 (if z then queue @ [dep] else queue) = Inr (m', q')"
    by (auto simp: result_simps)
  show ?case using "2.IH"[OF r] drop_one_sum[OF d] by (auto split: if_splits)
qed simp

text \<open>The loop of \<open>perform_topological_sort\<close>; the queue is a vector popped at its end.\<close>

function sort_loop :: "(string \<Rightarrow> string list) \<Rightarrow> in_degree \<Rightarrow> string list \<Rightarrow> nat
    \<Rightarrow> (DAGError failure, nat) result" where
  "sort_loop out m queue visited =
     (if queue = [] then Ok visited
      else case relax (out (last queue)) m (butlast queue) of
        Inl e \<Rightarrow> Err e
      | Inr (m', queue') \<Rightarrow> sort_loop out m' queue' (visited + 1))"
  by pat_completeness auto
termination
  by (relation "measure (\<lambda>(out, m, queue, visited). length queue + sum_list (map snd m))")
     (auto dest!: relax_measure simp flip: length_greater_0_conv)

declare sort_loop.simps [simp del]

text \<open>The initial queue; indexing \<open>in_degree[id]\<close> panics on a missing key.\<close>

definition zero_in_degree ::
    "('a \<Rightarrow> string) \<Rightarrow> 'a DAG \<Rightarrow> in_degree \<Rightarrow> (DAGError failure, string list) result" where
  "zero_in_degree ident g m =
     (if list_ex (\<lambda>n. map_of m (ident n) = None) (nodes g) then Err Panic
      else Ok (filter (\<lambda>k. map_of m k = Some 0) (map ident (nodes g))))"

definition perform_topological_sort ::
    "('a \<Rightarrow> string) \<Rightarrow> 'a DAG \<Rightarrow> in_degree \<Rightarrow> (DAGError failure, bool) result" where
  "perform_topological_sort ident g m =
     and_then (zero_in_degree ident g m) (\<lambda>queue.
     and_then (sort_loop (deps_of ident g) m queue 0) (\<lambda>visited.
       Ok (visited \<noteq> length (nodes g))))"

definition has_cycle :: "('a \<Rightarrow> string) \<Rightarrow> 'a DAG \<Rightarrow> (DAGError failure, bool) result" where
  "has_cycle ident g =
     and_then (calculate_in_degrees ident g) (perform_topological_sort ident g)"

text \<open>The loop of \<open>is_linear\<close> gives up as soon as two nodes are ready.\<close>

function linear_loop :: "(string \<Rightarrow> string list) \<Rightarrow> in_degree \<Rightarrow> string list \<Rightarrow> nat
    \<Rightarrow> (DAGError failure, nat option) result" where
  "linear_loop out m ready visited =
     (if ready = [] then Ok (Some visited)
      else if length ready > 1 then Ok None
      else case relax (out (last ready)) m (butlast ready) of
        Inl e \<Rightarrow> Err e
      | Inr (m', ready') \<Rightarrow> linear_loop out m' ready' (visited + 1))"
  by pat_completeness auto
termination
  by (relation "measure (\<lambda>(out, m, ready, visited). length ready + sum_list (map snd m))")
     (auto dest!: relax_measure simp flip: length_greater_0_conv)

declare linear_loop.simps [simp del]

definition is_linear :: "('a \<Rightarrow> string) \<Rightarrow> 'a DAG \<Rightarrow> (DAGError failure, bool) result" where
  "is_linear ident g =
     and_then (calculate_in_degrees ident g) (\<lambda>m.
     and_then (zero_in_degree ident g m) (\<lambda>ready.
     and_then (linear_loop (deps_of ident g) m ready 0) (\<lambda>r.
       Ok (case r of None \<Rightarrow> False | Some visited \<Rightarrow> visited = length (nodes g)))))"

section \<open>Specification\<close>

definition edge_list :: "('a \<Rightarrow> string) \<Rightarrow> 'a DAG \<Rightarrow> (string \<times> string) list" where
  "edge_list ident g = concat (map (\<lambda>(k, ds). map (\<lambda>d. (k, ident d)) ds) (edges g))"

text \<open>The dependency relation of a graph, on identifiers.\<close>

definition edge_rel :: "('a \<Rightarrow> string) \<Rightarrow> 'a DAG \<Rightarrow> (string \<times> string) set" where
  "edge_rel ident g = set (edge_list ident g)"

definition node_ids :: "('a \<Rightarrow> string) \<Rightarrow> 'a DAG \<Rightarrow> string list" where
  "node_ids ident g = map ident (nodes g)"

text \<open>
  Well-formedness: identifiers are unique, every node has its adjacency entry, and every
  adjacency set holds distinct known nodes.
\<close>

definition wf_dag :: "('a \<Rightarrow> string) \<Rightarrow> 'a DAG \<Rightarrow> bool" where
  "wf_dag ident g \<longleftrightarrow>
     distinct (node_ids ident g) \<and> distinct (map fst (edges g)) \<and>
     fst ` set (edges g) = set (node_ids ident g) \<and>
     (\<forall>(k, ds) \<in> set (edges g).
        distinct (map ident ds) \<and> set (map ident ds) \<subseteq> set (node_ids ident g))"

section \<open>Counting\<close>

lemma bump_ok:
  "map_of m k = Some c \<Longrightarrow> \<exists>m'. bump k m = Inr m' \<and> map_of m' = (map_of m)(k \<mapsto> Suc c)"
  by (induction k m rule: bump.induct) (auto simp: fun_eq_iff split: if_splits)

lemma drop_one_ok:
  "map_of m k = Some (Suc c) \<Longrightarrow> \<exists>m'. drop_one k m = Inr (m', c = 0) \<and>
     map_of m' = (map_of m)(k \<mapsto> c)"
  by (induction k m rule: drop_one.induct) (auto simp: fun_eq_iff split: if_splits)

lemma relax_ok:
  assumes "distinct ds" "\<forall>d \<in> set ds. \<exists>c. map_of m d = Some (Suc c)"
  shows "\<exists>m'. relax ds m q = Inr (m', q @ filter (\<lambda>d. map_of m d = Some 1) ds) \<and>
     map_of m' = (\<lambda>x. if x \<in> set ds then map_option (\<lambda>c. c - 1) (map_of m x) else map_of m x)"
  using assms
proof (induction ds arbitrary: m q)
  case (Cons d ds)
  then obtain c where c: "map_of m d = Some (Suc c)" by auto
  then obtain m1 where d1: "drop_one d m = Inr (m1, c = 0)" and m1: "map_of m1 = (map_of m)(d \<mapsto> c)"
    using drop_one_ok by blast
  have "\<forall>d' \<in> set ds. \<exists>c'. map_of m1 d' = Some (Suc c')"
    using Cons.prems m1 by auto
  from Cons.IH[OF _ this, of "if c = 0 then q @ [d] else q"] Cons.prems obtain m2 where
    m2: "relax ds m1 (if c = 0 then q @ [d] else q) =
          Inr (m2, (if c = 0 then q @ [d] else q) @ filter (\<lambda>d. map_of m1 d = Some 1) ds)"
    "map_of m2 = (\<lambda>x. if x \<in> set ds then map_option (\<lambda>c. c - 1) (map_of m1 x) else map_of m1 x)"
    by auto
  have "filter (\<lambda>d. map_of m1 d = Some 1) ds = filter (\<lambda>d. map_of m d = Some 1) ds"
    using Cons.prems m1 by (auto intro: filter_cong)
  then show ?case using d1 m2 c m1 Cons.prems by (auto simp: fun_eq_iff)
qed auto

lemma init_zero:
  "map_of (foldl (\<lambda>m n. entry_update (ident n) 0 (\<lambda>_. 0) m) m0 ns) k =
     (if k \<in> ident ` set ns then Some (0::nat) else map_of m0 k)"
  by (induction ns arbitrary: m0) (auto simp: coll_simps)

lemma bump_all:
  assumes "\<forall>x \<in> set xs. map_of m (f x) \<noteq> None"
  shows "\<exists>m'. try_fold (\<lambda>m x. bump (f x) m) m xs = Inr m' \<and>
    (\<forall>k. map_of m' k = map_option (\<lambda>c. c + count_list (map f xs) k) (map_of m k))"
  using assms
proof (induction xs arbitrary: m)
  case (Cons x xs)
  then obtain c where c: "map_of m (f x) = Some c" by auto
  from bump_ok[OF this] obtain m1 where
    m1: "bump (f x) m = Inr m1" "map_of m1 = (map_of m)(f x \<mapsto> Suc c)"
    by auto
  have "\<forall>y \<in> set xs. map_of m1 (f y) \<noteq> None" using Cons.prems m1 by auto
  from Cons.IH[OF this] obtain m' where "try_fold (\<lambda>m x. bump (f x) m) m1 xs = Inr m'"
    "\<forall>k. map_of m' k = map_option (\<lambda>c. c + count_list (map f xs) k) (map_of m1 k)"
    by blast
  then show ?case using m1 c by (auto simp: option.map_comp comp_def)
qed (simp add: option.map_ident)

section \<open>The loop invariant\<close>

definition preds :: "string set \<Rightarrow> (string \<Rightarrow> string list) \<Rightarrow> string \<Rightarrow> string set" where
  "preds N out x = {u \<in> N. x \<in> set (out u)}"

definition arcs :: "string set \<Rightarrow> (string \<Rightarrow> string list) \<Rightarrow> (string \<times> string) set" where
  "arcs N out = {(u, x). u \<in> N \<and> x \<in> set (out u)}"

text \<open>A topological enumeration, latest node first.\<close>

fun topo :: "(string \<times> string) set \<Rightarrow> string list \<Rightarrow> bool" where
  "topo E [] = True"
| "topo E (v # vs) \<longleftrightarrow> v \<notin> set vs \<and> (\<forall>u. (u, v) \<in> E \<longrightarrow> u \<in> set vs) \<and> topo E vs"

definition ready_set :: "string set \<Rightarrow> (string \<Rightarrow> string list) \<Rightarrow> string list \<Rightarrow> string set" where
  "ready_set N out vs = {x \<in> N - set vs. preds N out x \<subseteq> set vs}"

definition kahn_inv ::
    "string set \<Rightarrow> (string \<Rightarrow> string list) \<Rightarrow> string list \<Rightarrow> in_degree \<Rightarrow> string list \<Rightarrow> bool" where
  "kahn_inv N out vs m q \<longleftrightarrow>
     topo (arcs N out) vs \<and> set vs \<subseteq> N \<and> distinct q \<and> set q = ready_set N out vs \<and>
     (\<forall>x \<in> N. map_of m x = Some (card (preds N out x - set vs)))"

lemma topo_distinct: "topo E vs \<Longrightarrow> distinct vs"
  by (induction E vs rule: topo.induct) auto

lemma topo_edge_closed: "topo E vs \<Longrightarrow> (u, w) \<in> E \<Longrightarrow> w \<in> set vs \<Longrightarrow> u \<in> set vs"
  by (induction E vs rule: topo.induct) auto

lemma topo_closed: "(u, w) \<in> E\<^sup>* \<Longrightarrow> topo E vs \<Longrightarrow> w \<in> set vs \<Longrightarrow> u \<in> set vs"
  by (induction rule: converse_rtrancl_induct) (auto dest: topo_edge_closed)

lemma topo_acyclic: "topo E vs \<Longrightarrow> x \<in> set vs \<Longrightarrow> (x, x) \<notin> E\<^sup>+"
proof (induction vs)
  case (Cons v vs)
  have "(v, v) \<notin> E\<^sup>+"
  proof
    assume "(v, v) \<in> E\<^sup>+"
    then obtain u where "(v, u) \<in> E\<^sup>*" "(u, v) \<in> E" by (meson tranclD2)
    then show False using Cons.prems topo_closed[of v u E vs] by auto
  qed
  then show ?case using Cons by auto
qed simp

lemma topo_all_acyclic:
  assumes "topo E vs" "E \<subseteq> set vs \<times> UNIV"
  shows "acyclic E"
  unfolding acyclic_def
proof (intro allI notI)
  fix x assume "(x, x) \<in> E\<^sup>+"
  moreover from this have "x \<in> set vs" using assms(2) by (meson mem_Sigma_iff subsetD tranclD)
  ultimately show False using topo_acyclic assms(1) by blast
qed

lemma stuck_cyclic:
  assumes "finite E" "R \<noteq> {}" "\<forall>x \<in> R. \<exists>u \<in> R. (u, x) \<in> E"
  shows "\<not> acyclic E"
proof
  assume "acyclic E"
  then have "wf E" using assms(1) by (simp add: finite_acyclic_wf)
  then obtain z where "z \<in> R" "\<forall>y. (y, z) \<in> E \<longrightarrow> y \<notin> R"
    using assms(2) by (metis wf_eq_minimal ex_in_conv)
  then show False using assms(3) by auto
qed

lemma card_one_iff: "v \<in> S \<Longrightarrow> card S = 1 \<longleftrightarrow> S = {v}"
  using card_1_singletonE[of S] by (metis card.empty card.insert empty_iff finite.emptyI
      One_nat_def singletonD)

lemma ready_set_step:
  assumes "v \<in> ready_set N out vs" "topo (arcs N out) vs" "set (out v) \<subseteq> N"
  shows "ready_set N out (v # vs) =
    (ready_set N out vs - {v}) \<union> {d \<in> set (out v). preds N out d - set vs = {v}}"
proof -
  have "d \<notin> set vs" if "d \<in> set (out v)" for d
    using topo_edge_closed[OF assms(2), of v d] assms(1) that
    by (auto simp: arcs_def ready_set_def)
  moreover have "v \<notin> set (out v)"
    using assms(1) by (auto simp: ready_set_def preds_def)
  ultimately show ?thesis using assms(1,3) by (auto simp: ready_set_def preds_def)
qed

text \<open>Taking a ready node out of the queue and relaxing its dependants keeps the invariant.\<close>

lemma kahn_step:
  assumes inv: "kahn_inv N out vs m (q @ [v])" and fin: "finite N"
    and out: "distinct (out v)" "set (out v) \<subseteq> N"
  shows "\<exists>m' q'. relax (out v) m q = Inr (m', q @ q') \<and>
    set q' \<subseteq> set (out v) \<and> kahn_inv N out (v # vs) m' (q @ q')"
proof -
  let ?q' = "filter (\<lambda>d. map_of m d = Some 1) (out v)"
  have qs: "insert v (set q) = ready_set N out vs" and vq: "v \<notin> set q" "distinct q"
    and top: "topo (arcs N out) vs" "set vs \<subseteq> N"
    using inv by (auto simp: kahn_inv_def)
  have v: "v \<in> ready_set N out vs" using qs by auto
  have cnt: "map_of m x = Some (card (preds N out x - set vs))" if "x \<in> N" for x
    using inv that by (simp add: kahn_inv_def)
  have finp: "finite (preds N out x - set vs)" for x
    using fin by (auto simp: preds_def)
  have vp: "v \<in> preds N out d - set vs" if "d \<in> set (out v)" for d
    using v that by (auto simp: ready_set_def preds_def)
  have pos: "\<exists>c. map_of m d = Some (Suc c)" if d: "d \<in> set (out v)" for d
  proof -
    have "card (preds N out d - set vs) \<noteq> 0" using vp[OF d] finp[of d] card_0_eq by blast
    moreover have "d \<in> N" using out(2) d by blast
    ultimately show ?thesis using cnt[of d] by (simp add: gr0_conv_Suc)
  qed
  obtain m' where m': "relax (out v) m q = Inr (m', q @ ?q')"
    "map_of m' = (\<lambda>x. if x \<in> set (out v) then map_option (\<lambda>c. c - 1) (map_of m x) else map_of m x)"
    using relax_ok[OF out(1), of m q] pos by blast
  have cnt': "map_of m' x = Some (card (preds N out x - set (v # vs)))" if x: "x \<in> N" for x
  proof (cases "x \<in> set (out v)")
    case True
    have "preds N out x - set (v # vs) = (preds N out x - set vs) - {v}" by auto
    then show ?thesis using True m'(2) cnt[OF x] vp[OF True] finp[of x]
      by (simp add: card_Diff_singleton)
  next
    case False
    then have "preds N out x - set (v # vs) = preds N out x - set vs"
      by (auto simp: preds_def)
    then show ?thesis using False m'(2) cnt[OF x] by simp
  qed
  have one: "map_of m d = Some 1 \<longleftrightarrow> preds N out d - set vs = {v}" if d: "d \<in> set (out v)" for d
  proof -
    have "map_of m d = Some 1 \<longleftrightarrow> card (preds N out d - set vs) = 1"
      using cnt[of d] out(2) d by (metis option.inject subsetD)
    then show ?thesis using card_one_iff[OF vp[OF d]] by simp
  qed
  have fresh: "set ?q' = {d \<in> set (out v). preds N out d - set vs = {v}}"
    using one by auto
  have "set q = ready_set N out vs - {v}" using qs vq(1) by blast
  then have ready: "set (q @ ?q') = ready_set N out (v # vs)"
    unfolding ready_set_step[OF v top(1) out(2)] set_append fresh by blast
  have "d \<notin> set q" if "preds N out d - set vs = {v}" for d
    using qs that unfolding ready_set_def by blast
  then have "set q \<inter> set ?q' = {}"
    unfolding fresh by blast
  then have dist: "distinct (q @ ?q')" using vq(2) out(1) by simp
  have "topo (arcs N out) (v # vs)"
    using top v by (auto simp: ready_set_def preds_def arcs_def)
  then have "kahn_inv N out (v # vs) m' (q @ ?q')"
    using top v cnt' ready dist by (auto simp: kahn_inv_def ready_set_def)
  then show ?thesis using m'(1) by (meson filter_is_subset)
qed

definition adjacency :: "string set \<Rightarrow> (string \<Rightarrow> string list) \<Rightarrow> bool" where
  "adjacency N out \<longleftrightarrow> finite N \<and> (\<forall>k \<in> N. distinct (out k) \<and> set (out k) \<subseteq> N)"

lemma kahn_queue_node: "kahn_inv N out vs m q \<Longrightarrow> q \<noteq> [] \<Longrightarrow> last q \<in> N"
  using last_in_set[of q] unfolding kahn_inv_def ready_set_def by blast

lemma sort_loop_spec:
  assumes "adjacency N out" "kahn_inv N out vs m q" "visited = length vs"
  shows "\<exists>vs' m'. sort_loop out m q visited = Inr (length vs') \<and> kahn_inv N out vs' m' []"
  using assms
proof (induction out m q visited arbitrary: vs rule: sort_loop.induct)
  case (1 out m q visited)
  show ?case
  proof (cases "q = []")
    case True
    then have "sort_loop out m q visited = Inr (length vs)"
      using "1.prems"(3) by (subst sort_loop.simps) simp
    then show ?thesis using "1.prems"(2) True by blast
  next
    case False
    then have q: "kahn_inv N out vs m (butlast q @ [last q])" using "1.prems"(2) by simp
    with False obtain m' q' where s: "relax (out (last q)) m (butlast q) = Inr (m', butlast q @ q')"
      "kahn_inv N out (last q # vs) m' (butlast q @ q')"
      using kahn_step[OF q] kahn_queue_node[OF "1.prems"(2) False] "1.prems"(1)
      unfolding adjacency_def by blast
    have "sort_loop out m q visited = sort_loop out m' (butlast q @ q') (visited + 1)"
      by (subst sort_loop.simps) (use False s(1) in simp)
    then show ?thesis
      using "1.IH"[OF False s(1) refl "1.prems"(1) s(2)] "1.prems"(3) by simp
  qed
qed

text \<open>Consecutive nodes of a chain are joined by an edge; latest node first.\<close>

fun chain :: "(string \<times> string) set \<Rightarrow> string list \<Rightarrow> bool" where
  "chain E (v # u # vs) \<longleftrightarrow> (u, v) \<in> E \<and> chain E (u # vs)"
| "chain E vs = True"

lemma linear_loop_spec:
  assumes "adjacency N out" "kahn_inv N out vs m q" "visited = length vs"
    "chain (arcs N out) vs" "vs \<noteq> [] \<Longrightarrow> set q \<subseteq> set (out (hd vs))"
  shows "\<exists>vs' m' q'. kahn_inv N out vs' m' q' \<and> chain (arcs N out) vs' \<and>
    (linear_loop out m q visited = Inr (Some (length vs')) \<and> q' = [] \<or>
     linear_loop out m q visited = Inr None \<and> 1 < length q')"
  using assms
proof (induction out m q visited arbitrary: vs rule: linear_loop.induct)
  case (1 out m q visited)
  consider "q = []" | "length q > 1" | v where "q = [v]"
    by (metis One_nat_def length_0_conv length_Suc_conv linorder_neqE_nat less_one)
  then show ?case
  proof cases
    case 3
    obtain m' q' where s: "relax (out v) m [] = Inr (m', q')" "set q' \<subseteq> set (out v)"
      "kahn_inv N out (v # vs) m' q'"
      using kahn_step[of N out vs m "[]" v] kahn_queue_node[OF "1.prems"(2)] "1.prems"(1,2) 3
      by (auto simp: adjacency_def)
    have "chain (arcs N out) (v # vs)"
      using "1.prems"(2,4,5) 3 by (cases vs) (auto simp: arcs_def kahn_inv_def)
    moreover have r: "relax (out (last q)) m (butlast q) = Inr (m', q')" using 3 s(1) by simp
    moreover have "linear_loop out m q visited = linear_loop out m' q' (visited + 1)"
      by (subst linear_loop.simps) (use 3 s(1) in simp)
    ultimately show ?thesis
      using "1.IH"[OF _ _ r refl "1.prems"(1) s(3)] "1.prems"(3) s(2) 3 by simp
  next
    case 1
    then have "linear_loop out m q visited = Inr (Some (length vs))"
      using "1.prems"(3) by (subst linear_loop.simps) simp
    then show ?thesis using "1.prems"(2,4) 1 by blast
  next
    case 2
    then have "linear_loop out m q visited = Inr None"
      by (subst linear_loop.simps) auto
    then show ?thesis using "1.prems"(2,4) 2 by blast
  qed
qed

section \<open>From the graph to the loops\<close>

lemma deps_of_entry:
  "wf_dag ident g \<Longrightarrow> (k, ds) \<in> set (edges g) \<Longrightarrow> deps_of ident g k = map ident ds"
  by (simp add: wf_dag_def deps_of_def)

lemma edge_rel_iff:
  "wf_dag ident g \<Longrightarrow> (u, x) \<in> edge_rel ident g \<longleftrightarrow> x \<in> set (deps_of ident g u)"
  by (auto simp: edge_rel_def edge_list_def deps_of_def wf_dag_def dest: map_of_SomeD
      split: option.splits intro!: bexI)

lemma edge_rel_nodes:
  assumes "wf_dag ident g" "(u, x) \<in> edge_rel ident g"
  shows "u \<in> set (node_ids ident g) \<and> x \<in> set (node_ids ident g)"
proof -
  obtain ds where "(u, ds) \<in> set (edges g)" "x \<in> set (map ident ds)"
    using assms(2) by (auto simp: edge_rel_def edge_list_def)
  then show ?thesis using assms(1) unfolding wf_dag_def by (metis (no_types, lifting)
      case_prodD fst_conv image_eqI subsetD)
qed

lemma wf_dag_adjacency:
  assumes "wf_dag ident g"
  shows "adjacency (set (node_ids ident g)) (deps_of ident g)"
  unfolding adjacency_def
proof (intro conjI ballI)
  fix k assume "k \<in> set (node_ids ident g)"
  then obtain ds where "(k, ds) \<in> set (edges g)"
    using assms unfolding wf_dag_def by (metis (no_types, lifting) imageE prod.collapse)
  then show "distinct (deps_of ident g k)" "set (deps_of ident g k) \<subseteq> set (node_ids ident g)"
    using assms deps_of_entry[OF assms] by (fastforce simp: wf_dag_def)+
qed simp

lemma arcs_edge_rel:
  "wf_dag ident g \<Longrightarrow> arcs (set (node_ids ident g)) (deps_of ident g) = edge_rel ident g"
  using edge_rel_iff edge_rel_nodes by (fastforce simp: arcs_def)

lemma count_list_concat_entries:
  assumes "distinct (map fst es)" "\<forall>(k, ds) \<in> set es. distinct (map f ds)"
  shows "count_list (map f (concat (map snd es))) x = card {k. \<exists>ds. (k, ds) \<in> set es \<and> x \<in> f ` set ds}"
  using assms
proof (induction es)
  case (Cons e es)
  obtain k ds where e: "e = (k, ds)" by force
  let ?S = "{k. \<exists>ds. (k, ds) \<in> set es \<and> x \<in> f ` set ds}"
  have fin: "finite ?S" by (rule finite_subset[of _ "fst ` set es"]) force+
  have k: "k \<notin> ?S" using Cons.prems e by force
  have S: "{k. \<exists>ds. (k, ds) \<in> set (e # es) \<and> x \<in> f ` set ds} =
      (if x \<in> f ` set ds then insert k ?S else ?S)"
    using e by auto
  have "count_list (map f ds) x = (if x \<in> f ` set ds then 1 else 0)"
    using Cons.prems e by (simp add: distinct_count_list)
  then show ?case using Cons e fin k unfolding S by simp
qed simp

lemma calculate_in_degrees_ok:
  assumes wf: "wf_dag ident g"
  defines "N \<equiv> set (node_ids ident g)"
  shows "\<exists>m. calculate_in_degrees ident g = Inr m \<and>
    (\<forall>x \<in> N. map_of m x = Some (card (preds N (deps_of ident g) x)))"
proof -
  let ?m0 = "foldl (\<lambda>m n. entry_update (ident n) (0::nat) (\<lambda>_. 0) m) [] (nodes g)"
  have m0: "map_of ?m0 k = (if k \<in> N then Some 0 else None)" for k
    by (simp add: init_zero N_def node_ids_def)
  have "\<forall>n \<in> set (concat (map snd (edges g))). map_of ?m0 (ident n) \<noteq> None"
    using wf m0 by (fastforce simp: wf_dag_def N_def)
  from bump_all[OF this] obtain m where m: "calculate_in_degrees ident g = Inr m"
    "\<forall>k. map_of m k = map_option (\<lambda>c. c + count_list (map ident (concat (map snd (edges g)))) k)
       (map_of ?m0 k)"
    unfolding calculate_in_degrees_def by blast
  have "{k. \<exists>ds. (k, ds) \<in> set (edges g) \<and> x \<in> ident ` set ds} = preds N (deps_of ident g) x" for x
    using edge_rel_iff[OF wf] edge_rel_nodes[OF wf, folded N_def]
    by (fastforce simp: preds_def edge_rel_def edge_list_def)
  moreover have "\<forall>(k, ds) \<in> set (edges g). distinct (map ident ds)" "distinct (map fst (edges g))"
    using wf by (auto simp: wf_dag_def)
  ultimately show ?thesis
    using m m0 count_list_concat_entries[of "edges g" ident] by (auto simp: N_def)
qed

lemma kahn_start:
  assumes wf: "wf_dag ident g"
  defines "N \<equiv> set (node_ids ident g)"
  shows "\<exists>m q. calculate_in_degrees ident g = Inr m \<and> zero_in_degree ident g m = Inr q \<and>
    kahn_inv N (deps_of ident g) [] m q"
proof -
  obtain m where m: "calculate_in_degrees ident g = Inr m"
    "\<And>x. x \<in> N \<Longrightarrow> map_of m x = Some (card (preds N (deps_of ident g) x))"
    using calculate_in_degrees_ok[OF wf] by (auto simp: N_def)
  let ?q = "filter (\<lambda>k. map_of m k = Some 0) (map ident (nodes g))"
  have "zero_in_degree ident g m = Inr ?q"
    using m(2) by (auto simp: zero_in_degree_def list_ex_iff N_def node_ids_def)
  moreover have "set ?q = ready_set N (deps_of ident g) []"
    using m(2) by (auto simp: ready_set_def preds_def N_def node_ids_def)
  then have "kahn_inv N (deps_of ident g) [] m ?q"
    using m(2) wf by (simp add: kahn_inv_def wf_dag_def node_ids_def)
  ultimately show ?thesis using m(1) by blast
qed

text \<open>When the loop ends with an empty queue it has seen every node exactly if there is no cycle.\<close>

lemma kahn_end:
  assumes "adjacency N out" "kahn_inv N out vs m []"
  shows "length vs = card N \<longleftrightarrow> acyclic (arcs N out)"
proof
  have top: "topo (arcs N out) vs" "set vs \<subseteq> N" and stuck: "ready_set N out vs = {}"
    using assms(2) by (auto simp: kahn_inv_def)
  have fin: "finite N" using assms(1) by (simp add: adjacency_def)
  have len: "length vs = card (set vs)" using topo_distinct[OF top(1)] by (simp add: distinct_card)
  show "acyclic (arcs N out)" if "length vs = card N"
  proof -
    have "set vs = N" using that len top(2) fin by (simp add: card_subset_eq)
    then show ?thesis using topo_all_acyclic[OF top(1)] by (auto simp: arcs_def)
  qed
  show "length vs = card N" if "acyclic (arcs N out)"
  proof (rule ccontr)
    assume "length vs \<noteq> card N"
    then have "N - set vs \<noteq> {}" using len top(2) by auto
    moreover have "\<forall>x \<in> N - set vs. \<exists>u \<in> N - set vs. (u, x) \<in> arcs N out"
      using stuck by (fastforce simp: ready_set_def preds_def arcs_def)
    moreover have "finite (arcs N out)"
    proof (rule finite_subset)
      show "arcs N out \<subseteq> N \<times> N" using assms(1) unfolding adjacency_def arcs_def by blast
      show "finite (N \<times> N)" using fin by simp
    qed
    ultimately show False using stuck_cyclic[of "arcs N out" "N - set vs"] that by blast
  qed
qed

lemma chain_total:
  assumes "chain E vs" "x \<in> set vs" "y \<in> set vs"
  shows "(x, y) \<in> E\<^sup>* \<or> (y, x) \<in> E\<^sup>*"
  using assms
proof (induction E vs arbitrary: x y rule: chain.induct)
  case (1 E v u vs)
  have uv: "(u, v) \<in> E" using 1 by simp
  have top: "(z, v) \<in> E\<^sup>*" if "z \<in> set (v # u # vs)" for z
  proof -
    have "(w, hd ws) \<in> E\<^sup>*" if "chain E ws" "w \<in> set ws" for w ws
      using that
    proof (induction E ws arbitrary: w rule: chain.induct)
      case (1 E a b ws)
      then have "(b, a) \<in> E" "w = a \<or> (w, b) \<in> E\<^sup>*" by auto
      then show ?case by (auto intro: rtrancl_into_rtrancl)
    qed auto
    from this[OF "1.prems"(1) that] show ?thesis by simp
  qed
  show ?case using "1.IH"[of x y] "1.prems" top by auto
qed auto

lemma two_ready_not_total:
  assumes "kahn_inv N out vs m q" "1 < length q"
  shows "\<exists>x \<in> N. \<exists>y \<in> N. (x, y) \<notin> (arcs N out)\<^sup>* \<and> (y, x) \<notin> (arcs N out)\<^sup>*"
proof -
  obtain x y where xy: "x \<noteq> y" "x \<in> ready_set N out vs" "y \<in> ready_set N out vs"
  proof -
    obtain a b r where "q = a # b # r" using assms(2) by (metis One_nat_def length_Cons length_greater_0_conv list.size(3)
          less_numeral_extra(4) neq_Nil_conv not_less_zero)
    then show ?thesis using that[of a b] assms(1) by (auto simp: kahn_inv_def)
  qed
  have no: "(a, b) \<notin> (arcs N out)\<^sup>*"
    if ab: "a \<noteq> b" "a \<in> ready_set N out vs" "b \<in> ready_set N out vs" for a b
  proof
    assume "(a, b) \<in> (arcs N out)\<^sup>*"
    then obtain c where c: "(a, c) \<in> (arcs N out)\<^sup>*" "(c, b) \<in> arcs N out"
      using ab(1) by (metis rtranclE)
    then have "c \<in> set vs" using ab(3) by (auto simp: ready_set_def preds_def arcs_def)
    then have "a \<in> set vs" using topo_closed[OF c(1)] assms(1) by (simp add: kahn_inv_def)
    then show False using ab(2) by (simp add: ready_set_def)
  qed
  show ?thesis using xy no[of x y] no[of y x] by (auto simp: ready_set_def)
qed

section \<open>Mutators\<close>

lemma new_wf: "wf_dag ident dag_new"
  by (simp add: wf_dag_def dag_new_def node_ids_def)

lemma entry_update_all:
  assumes "\<forall>(k, v) \<in> set m. P v" "P (f d)" "\<And>v. P v \<Longrightarrow> P (f v)"
  shows "\<forall>(k, v) \<in> set (entry_update k d f m). P v"
  using assms by (induction k d f m rule: entry_update.induct) (auto split: if_splits)

abbreviation known_targets :: "('a \<Rightarrow> string) \<Rightarrow> string set \<Rightarrow> 'a list \<Rightarrow> bool" where
  "known_targets ident N ds \<equiv> distinct (map ident ds) \<and> set (map ident ds) \<subseteq> N"

lemma hs_insert_known_targets:
  "known_targets ident N ds \<Longrightarrow> ident n \<in> N \<Longrightarrow> known_targets ident N (hs_insert ident n ds)"
  using hs_insert_distinct[of ident ds n] hs_insert_keys[of ident n ds] by simp

lemma add_node_wf:
  assumes wf: "wf_dag ident g"
  shows "wf_dag ident (add_node ident n g)"
proof -
  let ?N = "set (node_ids ident (add_node ident n g))"
  have ids: "?N = insert (ident n) (set (node_ids ident g))"
    by (simp add: add_node_def node_ids_def coll_simps)
  have "\<forall>(k, ds) \<in> set (edges g). known_targets ident ?N ds"
    using wf unfolding wf_dag_def ids by blast
  from entry_update_all[OF this, of id "[]" "ident n"]
  have "\<forall>(k, ds) \<in> set (edges (add_node ident n g)). known_targets ident ?N ds"
    by (simp add: add_node_def)
  moreover have "distinct (node_ids ident (add_node ident n g))"
    using wf hs_insert_distinct[of ident "nodes g" n]
    by (simp add: wf_dag_def add_node_def node_ids_def)
  moreover have "distinct (map fst (edges (add_node ident n g)))"
    "fst ` set (edges (add_node ident n g)) = ?N"
    using wf unfolding ids by (simp_all add: wf_dag_def add_node_def coll_simps entry_update_distinct)
  ultimately show ?thesis unfolding wf_dag_def by blast
qed

lemma add_dependency_Ok:
  assumes wf: "wf_dag ident g" and ok: "add_dependency ident src dst g = Inr g'"
  shows "wf_dag ident g'" "node_ids ident g' = node_ids ident g"
    "edge_rel ident g' = insert (ident src, ident dst) (edge_rel ident g)"
proof -
  let ?es = "entry_update (ident src) [] (hs_insert ident dst) (edges g)"
  let ?N = "set (node_ids ident g)"
  have "hs_contains ident src (nodes g)" "hs_contains ident dst (nodes g)"
    and g': "g' = g\<lparr>edges := ?es\<rparr>"
    using ok unfolding add_dependency_def by (metis Inl_Inr_False Inr_inject)+
  then have known: "ident src \<in> ?N" "ident dst \<in> ?N"
    by (simp_all add: hs_contains_def node_ids_def)
  show ids: "node_ids ident g' = node_ids ident g" by (simp add: node_ids_def g')
  have old: "\<forall>(k, ds) \<in> set (edges g). known_targets ident ?N ds"
    using wf unfolding wf_dag_def by blast
  have "\<forall>(k, ds) \<in> set ?es. known_targets ident ?N ds"
    by (rule entry_update_all[OF old])
       (use known hs_insert_known_targets[of ident _ ?N dst] in \<open>force simp: coll_simps hs_insert_distinct\<close>)+
  moreover have "fst ` set ?es = ?N" "distinct (map fst ?es)"
    using wf known by (auto simp: wf_dag_def coll_simps entry_update_distinct)
  ultimately show wf': "wf_dag ident g'"
    using wf unfolding wf_dag_def ids by (simp add: g')
  have some: "map_of (edges g) (ident src) \<noteq> None"
    using wf known unfolding wf_dag_def by (metis map_of_eq_None_iff)
  have "x \<in> set (deps_of ident g' k) \<longleftrightarrow>
      x \<in> set (deps_of ident g k) \<or> (k = ident src \<and> x = ident dst)" for k x
    using some hs_insert_keys[of ident dst "the (map_of (edges g) k)"]
    by (auto simp: deps_of_def g' coll_simps)
  then show "edge_rel ident g' = insert (ident src, ident dst) (edge_rel ident g)"
    using edge_rel_iff[OF wf] edge_rel_iff[OF wf'] by auto
qed

text \<open>Graphs as the program builds them: from the empty graph by the two mutators.\<close>

inductive built :: "('a \<Rightarrow> string) \<Rightarrow> 'a DAG \<Rightarrow> bool" for ident where
  built_new: "built ident dag_new"
| built_node: "built ident g \<Longrightarrow> built ident (add_node ident n g)"
| built_edge: "built ident g \<Longrightarrow> add_dependency ident src dst g = Inr g' \<Longrightarrow> built ident g'"

lemma built_wf: "built ident g \<Longrightarrow> wf_dag ident g"
  by (induction rule: built.induct) (auto intro: new_wf add_node_wf add_dependency_Ok)

section \<open>Properties\<close>

text \<open>
  C10. Cycle detection is exact: on every graph built by the mutators, whatever order the hash
  collections iterate in, \<open>has_cycle\<close> returns without panic or error, and it returns true exactly
  when the dependency relation has a cycle.
\<close>

theorem has_cycle_correct:
  assumes "built ident g"
  shows "has_cycle ident g = Ok (\<not> acyclic (edge_rel ident g))"
proof -
  let ?N = "set (node_ids ident g)" and ?out = "deps_of ident g"
  have wf: "wf_dag ident g" using assms by (rule built_wf)
  obtain m q where start: "calculate_in_degrees ident g = Inr m" "zero_in_degree ident g m = Inr q"
    "kahn_inv ?N ?out [] m q"
    using kahn_start[OF wf] by blast
  obtain vs m' where fin: "sort_loop ?out m q 0 = Inr (length vs)" "kahn_inv ?N ?out vs m' []"
    using sort_loop_spec[OF wf_dag_adjacency[OF wf] start(3)] by auto
  have "length (nodes g) = card ?N"
    using wf by (metis distinct_card length_map node_ids_def wf_dag_def)
  then show ?thesis
    using kahn_end[OF wf_dag_adjacency[OF wf] fin(2)] start fin(1) arcs_edge_rel[OF wf]
    by (simp add: has_cycle_def perform_topological_sort_def)
qed

definition sample_graph :: "string DAG" where
  "sample_graph = add_node id ''b'' (add_node id ''a'' dag_new)"

lemma sample_built: "built id sample_graph"
  by (simp add: sample_graph_def built.intros)

theorem has_cycle_correct_witness:
  "has_cycle id sample_graph = Ok (\<not> acyclic (edge_rel id sample_graph))"
  using has_cycle_correct[OF sample_built] .

text \<open>
  \<open>is_linear\<close> is exact: on every graph built by the mutators it returns without panic or
  error, and it returns true exactly when the graph is acyclic and the dependencies order every
  two nodes, that is when no two nodes can ever be ready at the same time.
\<close>

theorem is_linear_correct:
  assumes "built ident g"
  shows "is_linear ident g = Ok (acyclic (edge_rel ident g) \<and>
    (\<forall>x \<in> set (node_ids ident g). \<forall>y \<in> set (node_ids ident g).
       (x, y) \<in> (edge_rel ident g)\<^sup>* \<or> (y, x) \<in> (edge_rel ident g)\<^sup>*))"
proof -
  let ?N = "set (node_ids ident g)" and ?out = "deps_of ident g"
  have wf: "wf_dag ident g" using assms by (rule built_wf)
  note adj = wf_dag_adjacency[OF wf] and E = arcs_edge_rel[OF wf]
  obtain m q where start: "calculate_in_degrees ident g = Inr m" "zero_in_degree ident g m = Inr q"
    "kahn_inv ?N ?out [] m q"
    using kahn_start[OF wf] by blast
  obtain vs m' q' where inv: "kahn_inv ?N ?out vs m' q'" "chain (arcs ?N ?out) vs" and
    loop: "linear_loop ?out m q 0 = Inr (Some (length vs)) \<and> q' = [] \<or>
      linear_loop ?out m q 0 = Inr None \<and> 1 < length q'"
    using linear_loop_spec[OF adj start(3)] by auto
  have len: "length (nodes g) = card ?N"
    using wf by (metis distinct_card length_map node_ids_def wf_dag_def)
  from loop show ?thesis
  proof (elim disjE conjE)
    assume l: "linear_loop ?out m q 0 = Inr (Some (length vs))" and "q' = []"
    then have full: "length vs = card ?N \<longleftrightarrow> acyclic (edge_rel ident g)"
      using kahn_end[OF adj] inv(1) E by simp
    have "\<forall>x \<in> ?N. \<forall>y \<in> ?N. (x, y) \<in> (edge_rel ident g)\<^sup>* \<or> (y, x) \<in> (edge_rel ident g)\<^sup>*"
      if "length vs = card ?N"
    proof -
      have "distinct vs" "set vs \<subseteq> ?N" using inv(1) topo_distinct by (auto simp: kahn_inv_def)
      then have "set vs = ?N" using that by (simp add: card_subset_eq distinct_card)
      then show ?thesis using chain_total[OF inv(2)] E by auto
    qed
    then show ?thesis using full l start len by (auto simp: is_linear_def)
  next
    assume "linear_loop ?out m q 0 = Inr None" "1 < length q'"
    then show ?thesis using two_ready_not_total[OF inv(1)] start E by (auto simp: is_linear_def)
  qed
qed

theorem is_linear_correct_witness:
  "is_linear id sample_graph = Ok (acyclic (edge_rel id sample_graph) \<and>
    (\<forall>x \<in> set (node_ids id sample_graph). \<forall>y \<in> set (node_ids id sample_graph).
       (x, y) \<in> (edge_rel id sample_graph)\<^sup>* \<or> (y, x) \<in> (edge_rel id sample_graph)\<^sup>*))"
  using is_linear_correct[OF sample_built] .

text \<open>
  Adding a dependency to a well-formed graph: it fails with the identifier of the first
  endpoint that is not a node and changes nothing, or it adds exactly that edge, leaves the nodes
  as they are and keeps the graph well-formed.
\<close>

theorem add_dependency_correct:
  assumes "wf_dag ident g"
  shows "case add_dependency ident src dst g of
      Inl e \<Rightarrow>
        (ident src \<notin> set (node_ids ident g) \<and> e = NodeNotFound (ident src)) \<or>
        (ident src \<in> set (node_ids ident g) \<and> ident dst \<notin> set (node_ids ident g) \<and>
          e = NodeNotFound (ident dst))
    | Inr g' \<Rightarrow>
        ident src \<in> set (node_ids ident g) \<and> ident dst \<in> set (node_ids ident g) \<and>
        wf_dag ident g' \<and> node_ids ident g' = node_ids ident g \<and>
        edge_rel ident g' = insert (ident src, ident dst) (edge_rel ident g)"
proof (cases "add_dependency ident src dst g")
  case (Inl e)
  then show ?thesis
    by (auto simp: add_dependency_def hs_contains_def node_ids_def split: if_splits)
next
  case (Inr g')
  then have "ident src \<in> set (node_ids ident g)" "ident dst \<in> set (node_ids ident g)"
    by (auto simp: add_dependency_def hs_contains_def node_ids_def split: if_splits)
  then show ?thesis using add_dependency_Ok[OF assms Inr] Inr by simp
qed

theorem add_dependency_correct_witness:
  "case add_dependency id ''a'' ''b'' sample_graph of
      Inl e \<Rightarrow> False
    | Inr g' \<Rightarrow> wf_dag id g' \<and> edge_rel id g' = insert (''a'', ''b'') (edge_rel id sample_graph)"
  using add_dependency_correct[OF built_wf[OF sample_built], of "''a''" "''b''"]
  by (simp add: sample_graph_def node_ids_def add_node_def dag_new_def hs_insert_def hs_contains_def
      split: sum.splits)

end
