(* ===== verification/Cache_Digest.thy ===== *)
theory Cache_Digest
  imports Prelude
begin

text \<open>
  Tagged content digests (\<^verbatim>\<open>octa-cache-protocol/src/digest.rs\<close>) and the string checks shared by the
  cache protocol (\<^verbatim>\<open>octa-cache-protocol/src/lib.rs\<close>): digest algorithms, hexadecimal text, the wire
  record a digest is serialised through, and the round trips between them.  The BLAKE3 function is
  a parameter of the definitions that hash.
\<close>

section \<open>Errors and string checks\<close>

datatype CacheProtocolError =
    DigestError string
  | PathError string
  | ActionError string
  | ResultError string
  | ConfigurationError string

definition MAX_CACHE_STRING_BYTES :: nat where "MAX_CACHE_STRING_BYTES = 16 * 1024"
definition MAX_CACHE_LIST_ITEMS :: nat where "MAX_CACHE_LIST_ITEMS = 4096"
definition MAX_ACTION_RESULT_METADATA_BYTES :: nat where
  "MAX_ACTION_RESULT_METADATA_BYTES = 4 * 1024 * 1024"
definition MAX_ACTION_RESULT_WIRE_BYTES :: nat where
  "MAX_ACTION_RESULT_WIRE_BYTES = MAX_ACTION_RESULT_METADATA_BYTES + 64 * 1024"

definition validate_namespace :: "string \<Rightarrow> (CacheProtocolError, unit) result" where
  "validate_namespace namespace =
     (if namespace = [] \<or> length namespace > MAX_CACHE_STRING_BYTES \<or> has_control namespace
      then Err (ConfigurationError (''namespace must contain 1 to '' @ decimal MAX_CACHE_STRING_BYTES @
             '' UTF-8 bytes and no control characters''))
      else Ok ())"

definition validate_string :: "string \<Rightarrow> string \<Rightarrow> (CacheProtocolError, unit) result" where
  "validate_string kind value =
     (if value = [] then Err (ActionError (kind @ '' must not be empty''))
      else if length value > MAX_CACHE_STRING_BYTES
        then Err (ActionError (kind @ '' exceeds '' @ decimal MAX_CACHE_STRING_BYTES @ '' UTF-8 bytes''))
      else if has_control value then Err (ActionError (kind @ '' must not contain control characters''))
      else Ok ())"

lemma validate_string_Ok [result_simps]:
  "validate_string kind value = Inr u \<longleftrightarrow>
     value \<noteq> [] \<and> length value \<le> MAX_CACHE_STRING_BYTES \<and> \<not> has_control value"
  by (auto simp: validate_string_def)

section \<open>Digests\<close>

definition HASH_BYTES :: nat where "HASH_BYTES = 32"

datatype DigestAlgorithm = Blake3 | Sha256

fun canonical_tag :: "DigestAlgorithm \<Rightarrow> u8" where
  "canonical_tag Blake3 = 1"
| "canonical_tag Sha256 = 2"

fun algorithm_to_string :: "DigestAlgorithm \<Rightarrow> string" where
  "algorithm_to_string Blake3 = ''blake3''"
| "algorithm_to_string Sha256 = ''sha256''"

definition algorithm_from_str :: "string \<Rightarrow> (CacheProtocolError, DigestAlgorithm) result" where
  "algorithm_from_str value =
     (if value = ''blake3'' then Ok Blake3
      else if value = ''sha256'' then Ok Sha256
      else Err (DigestError (''unsupported algorithm '' @ quoted value)))"

record Digest =
  algorithm :: DigestAlgorithm
  hash :: "u8 list"
  size_bytes :: u64

text \<open>The array type \<open>[u8; HASH_BYTES]\<close>.\<close>

definition wf_digest :: "Digest \<Rightarrow> bool" where
  "wf_digest d \<longleftrightarrow> length (hash d) = HASH_BYTES"

definition digest_new :: "DigestAlgorithm \<Rightarrow> u8 list \<Rightarrow> u64 \<Rightarrow> Digest" where
  "digest_new alg h sz = \<lparr>algorithm = alg, hash = h, size_bytes = sz\<rparr>"

definition digest_blake3 :: "(u8 list \<Rightarrow> u8 list) \<Rightarrow> u8 list \<Rightarrow> Digest" where
  "digest_blake3 blake3 bs = digest_new Blake3 (blake3 bs) (word_of_nat (length bs))"

definition decode_nibble :: "u8 \<Rightarrow> (CacheProtocolError, u8) result" where
  "decode_nibble b =
     (if 48 \<le> b \<and> b \<le> 57 then Ok (b - 48)
      else if 97 \<le> b \<and> b \<le> 102 then Ok (b - 97 + 10)
      else Err (DigestError ''hash must use lowercase hexadecimal characters''))"

fun decode_pairs :: "u8 list \<Rightarrow> (CacheProtocolError, u8 list) result" where
  "decode_pairs (h # l # rest) =
     and_then (decode_nibble h) (\<lambda>high.
     and_then (decode_nibble l) (\<lambda>low.
     and_then (decode_pairs rest) (\<lambda>bs. Ok ((high * 16 + low) # bs))))"
| "decode_pairs _ = Ok []"

definition from_hex :: "DigestAlgorithm \<Rightarrow> string \<Rightarrow> u64 \<Rightarrow> (CacheProtocolError, Digest) result" where
  "from_hex alg h sz =
     (if length h \<noteq> HASH_BYTES * 2
      then Err (DigestError ''hash must contain exactly 64 lowercase hexadecimal characters'')
      else and_then (decode_pairs (as_bytes h)) (\<lambda>bs. Ok (digest_new alg bs sz)))"

text \<open>The format \<open>{byte:02x}\<close>.\<close>

definition hex_digit :: "nat \<Rightarrow> char" where
  "hex_digit n = char_of (if n < 10 then 48 + n else 87 + n)"

definition hex_byte :: "u8 \<Rightarrow> string" where
  "hex_byte b = [hex_digit (unat b div 16), hex_digit (unat b mod 16)]"

definition hex :: "Digest \<Rightarrow> string" where
  "hex d = concat (map hex_byte (hash d))"

definition digest_display :: "Digest \<Rightarrow> string" where
  "digest_display d =
     algorithm_to_string (algorithm d) @ '':'' @ hex d @ '':'' @ decimal (unat (size_bytes d))"

record DigestWire =
  wire_algorithm :: string
  wire_hash :: string
  wire_size_bytes :: u64

definition digest_serialize :: "Digest \<Rightarrow> DigestWire" where
  "digest_serialize d =
     \<lparr>wire_algorithm = algorithm_to_string (algorithm d), wire_hash = hex d,
      wire_size_bytes = size_bytes d\<rparr>"

definition digest_deserialize :: "DigestWire \<Rightarrow> (CacheProtocolError, Digest) result" where
  "digest_deserialize w =
     and_then (algorithm_from_str (wire_algorithm w)) (\<lambda>alg.
       from_hex alg (wire_hash w) (wire_size_bytes w))"

section \<open>Hexadecimal text\<close>

lemma algorithm_from_to_string [simp]: "algorithm_from_str (algorithm_to_string a) = Inr a"
  by (cases a) (simp_all add: algorithm_from_str_def)

lemma algorithm_from_str_Ok [result_simps]:
  "algorithm_from_str s = Inr a \<longleftrightarrow> s = algorithm_to_string a"
  by (cases a) (auto simp: algorithm_from_str_def)

lemma unat_byte_of_char [simp]: "unat (byte_of_char c) = of_char c"
proof -
  have "of_char c < (256::nat)" by (metis of_char_mod_256 mod_less_divisor zero_less_numeral)
  then show ?thesis by (simp add: byte_of_char_def unat_byte)
qed

lemma decode_hex_digit:
  assumes "n < 16"
  shows "decode_nibble (byte_of_char (hex_digit n)) = Inr (word_of_nat n)"
proof -
  let ?b = "byte_of_char (hex_digit n)"
  have b: "unat ?b = (if n < 10 then 48 + n else 87 + n)"
    using assms by (simp add: hex_digit_def)
  show ?thesis
  proof (cases "n < 10")
    case True
    then have "48 \<le> ?b" "?b \<le> 57" "?b - 48 = word_of_nat n"
      using b by (simp_all add: word_le_nat_alt word_unat_eq_iff unat_sub unat_byte)
    then show ?thesis by (simp add: decode_nibble_def)
  next
    case False
    then have "\<not> ?b \<le> 57" "97 \<le> ?b" "?b \<le> 102" "?b - 97 + 10 = word_of_nat n"
      using b assms by (simp_all add: word_le_nat_alt word_unat_eq_iff unat_sub unat_byte unat_word_ariths)
    then show ?thesis by (simp add: decode_nibble_def)
  qed
qed

lemma decode_nibble_Ok:
  assumes "decode_nibble (byte_of_char c) = Inr v"
  shows "unat v < 16" "hex_digit (unat v) = c"
proof -
  let ?b = "byte_of_char c"
  have "unat v < 16 \<and> of_char (hex_digit (unat v)) = (of_char c :: nat)"
  proof (cases "48 \<le> ?b \<and> ?b \<le> 57")
    case True
    then have "v = ?b - 48" using assms by (simp add: decode_nibble_def)
    then show ?thesis using True by (auto simp: word_le_nat_alt unat_sub hex_digit_def)
  next
    case False
    then have b: "97 \<le> ?b" "?b \<le> 102" "v = ?b - 97 + 10"
      using assms by (auto simp: decode_nibble_def split: if_splits)
    then have "unat v = of_char c - 87"
      by (simp add: word_le_nat_alt unat_sub unat_word_ariths)
    then show ?thesis using b by (auto simp: word_le_nat_alt hex_digit_def)
  qed
  then show "unat v < 16" "hex_digit (unat v) = c" by auto
qed

lemma nibbles_byte:
  fixes h l :: u8
  assumes "unat h < 16" "unat l < 16"
  shows "unat (h * 16 + l) div 16 = unat h" "unat (h * 16 + l) mod 16 = unat l"
  using assms by (simp_all add: unat_word_ariths)

lemma decode_pairs_hex: "decode_pairs (as_bytes (concat (map hex_byte bs))) = Inr bs"
proof (induction bs)
  case (Cons b bs)
  have "unat b < 256" using unat_less[of b] by simp
  then have "unat b div 16 < 16" "unat b mod 16 < 16" by simp_all
  moreover have "word_of_nat (unat b div 16) * 16 + word_of_nat (unat b mod 16) = b"
    using \<open>unat b < 256\<close> by (simp add: word_unat_eq_iff unat_word_ariths unat_byte)
  ultimately show ?case using Cons
    by (simp add: hex_byte_def as_bytes_def decode_hex_digit)
qed (simp add: as_bytes_def)

lemma decode_pairs_Ok:
  "decode_pairs (as_bytes s) = Inr bs \<Longrightarrow> even (length s) \<Longrightarrow>
     concat (map hex_byte bs) = s \<and> length s = 2 * length bs"
proof (induction s arbitrary: bs rule: induct_list012)
  case (3 h l s)
  then obtain hi lo bs' where d: "decode_nibble (byte_of_char h) = Inr hi"
    "decode_nibble (byte_of_char l) = Inr lo" "decode_pairs (as_bytes s) = Inr bs'"
    "bs = (hi * 16 + lo) # bs'"
    by (auto simp: as_bytes_def result_simps)
  have "concat (map hex_byte bs') = s \<and> length s = 2 * length bs'"
    using 3 d(3) by simp
  then show ?case using decode_nibble_Ok[OF d(1)] decode_nibble_Ok[OF d(2)] d(4)
    by (simp add: hex_byte_def[of "hi * 16 + lo"] nibbles_byte)
qed (auto simp: as_bytes_def)

lemma length_hex: "length (hex d) = 2 * length (hash d)"
proof -
  have "length (concat (map hex_byte bs)) = 2 * length bs" for bs
    by (induction bs) (auto simp: hex_byte_def)
  then show ?thesis by (simp add: hex_def)
qed

lemma from_hex_hex: "wf_digest d \<Longrightarrow> from_hex (algorithm d) (hex d) (size_bytes d) = Inr d"
  using length_hex[of d] decode_pairs_hex[of "hash d"]
  by (simp add: from_hex_def wf_digest_def hex_def digest_new_def)

lemma from_hex_Ok:
  assumes "from_hex alg s sz = Inr d"
  shows "wf_digest d \<and> algorithm d = alg \<and> hex d = s \<and> size_bytes d = sz"
proof -
  obtain bs where bs: "decode_pairs (as_bytes s) = Inr bs" "d = digest_new alg bs sz"
    and len: "length s = HASH_BYTES * 2"
    using assms by (auto simp: from_hex_def result_simps split: if_splits)
  then show ?thesis using decode_pairs_Ok[OF bs(1)]
    by (simp add: digest_new_def hex_def wf_digest_def)
qed

section \<open>Properties\<close>

text \<open>
  Digest text is a faithful and canonical representation: parsing accepts a wire record exactly
  when it is the serialisation of a well-formed digest, and then returns that digest.  So every
  digest survives the round trip, no two records denote the same digest, and hexadecimal text with
  another length, case or alphabet is rejected.
\<close>

theorem digest_wire_roundtrip:
  "digest_deserialize w = Ok d \<longleftrightarrow> wf_digest d \<and> w = digest_serialize d"
proof
  assume "digest_deserialize w = Inr d"
  then obtain alg where "algorithm_from_str (wire_algorithm w) = Inr alg"
    "from_hex alg (wire_hash w) (wire_size_bytes w) = Inr d"
    by (auto simp: digest_deserialize_def result_simps)
  then show "wf_digest d \<and> w = digest_serialize d"
    using from_hex_Ok by (fastforce simp: digest_serialize_def result_simps)
next
  assume "wf_digest d \<and> w = digest_serialize d"
  then show "digest_deserialize w = Inr d"
    using from_hex_hex by (simp add: digest_deserialize_def digest_serialize_def)
qed

end
