(* ===== verification/Cache_Path.thy ===== *)
theory Cache_Path
  imports Cache_Digest
begin

text \<open>
  Portable workspace-relative paths: their validation and containment test
  (\<^verbatim>\<open>octa-cache-protocol/src/path.rs\<close>), the lexical workspace and symlink rules
  (\<^verbatim>\<open>octa-cache/src/workspace.rs\<close>), and the order and overlap rules of output roots
  (\<^verbatim>\<open>octa-cache/src/bundle/path.rs\<close>).  Host paths are byte strings with the component rules of a
  Unix host.
\<close>

section \<open>Errors\<close>

datatype io_kind =
  NotFound | AlreadyExists | UnexpectedEof | InvalidInput | PermissionDenied | WouldBlock | DirectoryNotEmpty | NotADirectory | OtherIo

datatype CacheError =
    CacheCancelled
  | Configuration string
  | PathInvalid string string
  | UnsupportedEntry string string
  | UnstableFile string
  | InvalidBundle string
  | Limit string
  | BundleSource io_kind
  | Stream io_kind
  | TemporaryFile io_kind
  | Protocol CacheProtocolError
  | Metadata string
  | Remote string string
  | Corrupt string string
  | Io string string io_kind
  | Worker string
  | WorkerTerminated string
  | CapacityRelease CacheError CacheError

definition check_cancelled :: "bool \<Rightarrow> (CacheError, unit) result" where
  "check_cancelled cancelled = (if cancelled then Err CacheCancelled else Ok ())"

text \<open>The conversion \<open>map_err(CacheError::from)\<close>.\<close>

definition lift_protocol :: "(CacheProtocolError, 'a) result \<Rightarrow> (CacheError, 'a) result" where
  "lift_protocol r = (case r of Inl e \<Rightarrow> Err (Protocol e) | Inr x \<Rightarrow> Ok x)"

lemma lift_protocol_Ok [result_simps]: "lift_protocol r = Inr x \<longleftrightarrow> r = Inr x"
  by (simp add: lift_protocol_def split: sum.splits)

section \<open>Portable paths\<close>

type_synonym RelativePath = string

abbreviation slash :: char where "slash \<equiv> CHR ''/''"

definition validate_path :: "string \<Rightarrow> (CacheProtocolError, unit) result" where
  "validate_path value =
     (if value = [] then Err (PathError (''path must not be empty; use '' @ quoted ''.'' @ '' for the workspace root''))
      else if length value > MAX_CACHE_STRING_BYTES
        then Err (PathError (''path exceeds '' @ decimal MAX_CACHE_STRING_BYTES @ '' UTF-8 bytes''))
      else if value = ''.'' then Ok ()
      else if starts_with value [slash] \<or> CHR 0x5C \<in> set value \<or> CHR '':'' \<in> set value
        then Err (PathError (''path must be portable, relative, and use '' @ quoted ''/'' @ '' separators''))
      else if has_control value then Err (PathError ''path must not contain control characters'')
      else if list_ex (\<lambda>part. part = [] \<or> part = ''.'' \<or> part = ''..'') (split_on slash value)
        then Err (PathError ''path must be normalized and remain inside the workspace'')
      else Ok ())"

definition relative_path_new :: "string \<Rightarrow> (CacheProtocolError, RelativePath) result" where
  "relative_path_new value = and_then (validate_path value) (\<lambda>_. Ok value)"

definition root_path :: RelativePath where "root_path = ''.''"

definition is_root :: "RelativePath \<Rightarrow> bool" where "is_root p \<longleftrightarrow> p = ''.''"

definition is_within :: "RelativePath \<Rightarrow> RelativePath \<Rightarrow> bool" where
  "is_within self root \<longleftrightarrow> is_root root \<or> self = root \<or>
     (case strip_prefix self root of None \<Rightarrow> False | Some rest \<Rightarrow> starts_with rest [slash])"

definition OCTA_WORKSPACE_STATE_DIRECTORY :: string where
  "OCTA_WORKSPACE_STATE_DIRECTORY = ''.octa''"

definition is_octa_workspace_state_path :: "RelativePath \<Rightarrow> bool" where
  "is_octa_workspace_state_path p \<longleftrightarrow> p = OCTA_WORKSPACE_STATE_DIRECTORY \<or>
     (case strip_prefix p OCTA_WORKSPACE_STATE_DIRECTORY of
        None \<Rightarrow> False | Some rest \<Rightarrow> starts_with rest [slash])"

section \<open>Host paths\<close>

datatype Component = RootDir | CurDir | ParentDir | Normal string

text \<open>
  \<open>Path::components\<close>: repeated separators and inner dots vanish, a leading dot of a relative path
  is kept.
\<close>

definition component_of :: "string \<Rightarrow> Component list" where
  "component_of part =
     (if part = [] \<or> part = ''.'' then [] else if part = ''..'' then [ParentDir] else [Normal part])"

definition components :: "string \<Rightarrow> Component list" where
  "components p =
     (if starts_with p [slash] then [RootDir]
      else if hd (split_on slash p) = ''.'' then [CurDir] else [])
     @ concat (map component_of (split_on slash p))"

fun from_components :: "Component list \<Rightarrow> string list \<Rightarrow> (CacheProtocolError, string list) result" where
  "from_components [] acc = Ok acc"
| "from_components (Normal value # cs) acc =
     (if utf8_valid value then from_components cs (acc @ [value])
      else Err (PathError ''portable cache paths must be UTF-8''))"
| "from_components (CurDir # cs) acc =
     (if acc = [] then from_components cs acc
      else Err (PathError ''host path must be normalized and relative''))"
| "from_components (_ # cs) acc = Err (PathError ''host path must be normalized and relative'')"

definition from_path :: "Component list \<Rightarrow> (CacheProtocolError, RelativePath) result" where
  "from_path cs =
     and_then (from_components cs []) (\<lambda>parts.
       if parts = [] then Ok root_path else relative_path_new (join [slash] parts))"

definition portable_relative :: "string \<Rightarrow> string \<Rightarrow> (CacheError, RelativePath) result" where
  "portable_relative workspace path =
     (case strip_prefix (components path) (components workspace) of
        None \<Rightarrow> Err (PathInvalid path ''path escaped the workspace'')
      | Some rest \<Rightarrow> lift_protocol (from_path rest))"

text \<open>A host path as its components below the root, and \<open>PathBuf::push\<close> of one name.\<close>

definition join_relative :: "string list \<Rightarrow> RelativePath \<Rightarrow> string list" where
  "join_relative root p = foldl (\<lambda>result component. result @ [component]) root (split_on slash p)"

fun symlink_depth :: "nat \<Rightarrow> Component list \<Rightarrow> nat option" where
  "symlink_depth depth [] = Some depth"
| "symlink_depth depth (CurDir # cs) = symlink_depth depth cs"
| "symlink_depth depth (Normal _ # cs) = symlink_depth (depth + 1) cs"
| "symlink_depth depth (ParentDir # cs) = (if depth > 0 then symlink_depth (depth - 1) cs else None)"
| "symlink_depth depth (RootDir # cs) = None"

definition validate_symlink_text :: "RelativePath \<Rightarrow> string \<Rightarrow> (string, unit) result" where
  "validate_symlink_text link target =
     (if target = [] \<or> starts_with target [slash] \<or> CHR 0x5C \<in> set target \<or> CHR '':'' \<in> set target
         \<or> has_control target
      then Err (''symlink '' @ quoted link @ '' has a non-portable target'')
      else case symlink_depth (length (split_on slash link) - 1) (components target) of
        None \<Rightarrow> Err (''symlink '' @ quoted link @ '' escapes the workspace'')
      | Some _ \<Rightarrow> Ok ())"

section \<open>Output roots\<close>

definition contains :: "RelativePath \<Rightarrow> RelativePath \<Rightarrow> bool" where
  "contains root path \<longleftrightarrow> path = root \<or>
     (case strip_prefix path root of None \<Rightarrow> False | Some rest \<Rightarrow> starts_with rest [slash])"

fun compare_components :: "string list \<Rightarrow> string list \<Rightarrow> Ordering" where
  "compare_components (l # ls) (r # rs) =
     (case ord_cmp l r of Equal \<Rightarrow> compare_components ls rs | other \<Rightarrow> other)"
| "compare_components [] (_ # _) = Less"
| "compare_components (_ # _) [] = Greater"
| "compare_components [] [] = Equal"

definition compare_paths :: "RelativePath \<Rightarrow> RelativePath \<Rightarrow> Ordering" where
  "compare_paths left right = compare_components (split_on slash left) (split_on slash right)"

text \<open>The prefixes \<open>&root[..separator]\<close> for the positions of \<open>match_indices('/')\<close>.\<close>

definition ancestors :: "RelativePath \<Rightarrow> RelativePath list" where
  "ancestors p = map (\<lambda>i. take i p) (filter (\<lambda>i. p ! i = slash) [0..<length p])"

definition validate_root :: "RelativePath list \<Rightarrow> RelativePath \<Rightarrow> (CacheError, RelativePath list) result" where
  "validate_root seen root =
     (if is_root root then Err (Configuration ''the workspace root cannot be a cache output'')
      else if root \<in> set seen
        then Err (Configuration (''cache output root '' @ quoted root @ '' is declared more than once''))
      else case filter (\<lambda>ancestor. ancestor \<in> set (root # seen)) (ancestors root) of
        ancestor # _ \<Rightarrow>
          Err (Configuration (''cache output roots '' @ quoted ancestor @ '' and '' @ quoted root @ '' overlap''))
      | [] \<Rightarrow> Ok (root # seen))"

definition validate_output_roots :: "RelativePath list \<Rightarrow> (CacheError, RelativePath list) result" where
  "validate_output_roots roots =
     (if roots = [] then Err (Configuration ''at least one cache output root is required'')
      else let sorted_roots = sort_by compare_paths roots in
        and_then (try_fold validate_root [] sorted_roots) (\<lambda>_. Ok sorted_roots))"

section \<open>Containment\<close>

lemma starts_with_single [simp]: "starts_with s [c] \<longleftrightarrow> (\<exists>r. s = c # r)"
  by (cases s) (auto simp: starts_with_def)

lemma split_on_append_sep: "split_on sep (r @ sep # s) = split_on sep r @ split_on sep s"
  by (induction r) (auto split: list.splits)

text \<open>Path containment is prefix containment of the components.\<close>

lemma below_iff_prefix:
  "p = r \<or> (\<exists>s. p = r @ sep # s) \<longleftrightarrow> prefix (split_on sep r) (split_on sep p)"
proof
  assume "p = r \<or> (\<exists>s. p = r @ sep # s)"
  then show "prefix (split_on sep r) (split_on sep p)" by (auto simp: split_on_append_sep)
next
  assume "prefix (split_on sep r) (split_on sep p)"
  then obtain q where q: "split_on sep p = split_on sep r @ q" by (auto elim: prefixE)
  have "join [sep] (split_on sep r @ q) = r @ (if q = [] then [] else sep # join [sep] q)"
  proof -
    have "join [sep] (xs @ q) = join [sep] xs @ (if q = [] then [] else sep # join [sep] q)"
      if "xs \<noteq> []" for xs
      using that by (induction "[sep]" xs rule: join.induct) (auto simp: neq_Nil_conv)
    from this[of "split_on sep r"] show ?thesis by simp
  qed
  then have "p = r @ (if q = [] then [] else sep # join [sep] q)"
    by (metis join_split_on q)
  then show "p = r \<or> (\<exists>s. p = r @ sep # s)" by auto
qed

lemma contains_iff: "contains root path \<longleftrightarrow> prefix (split_on slash root) (split_on slash path)"
  unfolding below_iff_prefix[symmetric] contains_def
  by (auto simp: strip_prefix_Some split: option.splits)

lemma is_within_contains: "is_within p root \<longleftrightarrow> is_root root \<or> contains root p"
  by (simp add: is_within_def contains_def)

section \<open>Order\<close>

lemma compare_components_ord: "compare_components xs ys = ord_cmp xs ys"
  by (induction xs ys rule: compare_components.induct)
     (auto simp: ord_cmp_def split: Ordering.splits)

lemma compare_paths_ord: "compare_paths p q = ord_cmp (split_on slash p) (split_on slash q)"
  by (simp add: compare_paths_def compare_components_ord)

lemma prefix_le: "prefix xs ys \<Longrightarrow> xs \<le> (ys :: 'a::linorder list)"
proof (induction xs arbitrary: ys)
  case (Cons x xs)
  then show ?case by (cases ys) auto
qed simp

lemma prefix_between:
  "prefix xs zs \<Longrightarrow> xs \<le> ys \<Longrightarrow> ys \<le> zs \<Longrightarrow> prefix xs (ys :: 'a::linorder list)"
proof (induction xs arbitrary: ys zs)
  case (Cons x xs)
  then obtain zs' where "zs = x # zs'" "prefix xs zs'" by (cases zs) auto
  moreover from Cons.prems obtain y ys' where "ys = y # ys'" by (cases ys) auto
  ultimately show ?case using Cons.IH[of zs' ys'] Cons.prems by auto
qed simp

lemma sort_by_paths: "sort_by compare_paths ps = sort_key (split_on slash) ps"
  by (rule sort_by_key) (rule compare_paths_ord)

section \<open>Overlap of output roots\<close>

lemma ancestors_iff: "a \<in> set (ancestors p) \<longleftrightarrow> (\<exists>s. p = a @ slash # s)"
proof
  assume "a \<in> set (ancestors p)"
  then obtain i where "i < length p" "p ! i = slash" "a = take i p" by (auto simp: ancestors_def)
  then show "\<exists>s. p = a @ slash # s" by (metis id_take_nth_drop)
next
  assume "\<exists>s. p = a @ slash # s"
  then obtain s where "p = a @ slash # s" by blast
  then have "length a < length p" "p ! length a = slash" "a = take (length a) p" by auto
  then show "a \<in> set (ancestors p)" by (auto simp: ancestors_def image_iff)
qed

lemma contains_ancestors: "contains a p \<longleftrightarrow> p = a \<or> a \<in> set (ancestors p)"
  unfolding contains_iff below_iff_prefix[symmetric] ancestors_iff ..

definition root_ok :: "RelativePath list \<Rightarrow> RelativePath \<Rightarrow> bool" where
  "root_ok seen root \<longleftrightarrow> \<not> is_root root \<and> root \<notin> set seen \<and> (\<forall>a \<in> set seen. \<not> contains a root)"

lemma validate_root_Ok: "validate_root seen root = Inr seen' \<longleftrightarrow> root_ok seen root \<and> seen' = root # seen"
proof -
  have "root \<notin> set (ancestors root)" by (auto simp: ancestors_iff)
  then have "filter (\<lambda>a. a \<in> set (root # seen)) (ancestors root) = [] \<longleftrightarrow>
      (\<forall>a \<in> set seen. a \<notin> set (ancestors root))"
    by (auto simp: filter_empty_conv)
  then show ?thesis
    by (auto simp: validate_root_def root_ok_def contains_ancestors split: list.splits)
qed

lemma validate_roots_fold:
  "try_fold validate_root seen roots = Inr seen' \<longleftrightarrow>
     seen' = rev roots @ seen \<and> (\<forall>i < length roots. root_ok (rev (take i roots) @ seen) (roots ! i))"
proof (induction roots arbitrary: seen)
  case (Cons r roots)
  have "(\<forall>i < length (r # roots). root_ok (rev (take i (r # roots)) @ seen) ((r # roots) ! i)) \<longleftrightarrow>
      root_ok seen r \<and> (\<forall>i < length roots. root_ok (rev (take i roots) @ r # seen) (roots ! i))"
    by (auto simp: nth_Cons take_Cons split: nat.splits)
  then show ?case using Cons by (auto simp: result_simps validate_root_Ok)
qed auto

lemma contains_trans_order: "contains a p \<Longrightarrow> split_on slash a \<le> split_on slash p"
  by (simp add: contains_iff prefix_le)

definition disjoint_roots :: "RelativePath list \<Rightarrow> bool" where
  "disjoint_roots roots \<longleftrightarrow> (\<forall>p \<in> set roots. \<not> is_root p) \<and> distinct roots \<and>
     (\<forall>p \<in> set roots. \<forall>q \<in> set roots. contains p q \<longrightarrow> p = q)"

lemma sorted_roots_ok:
  assumes "sorted (map (split_on slash) roots)"
  shows "(\<forall>i < length roots. root_ok (rev (take i roots)) (roots ! i)) \<longleftrightarrow> disjoint_roots roots"
proof
  assume ok: "\<forall>i < length roots. root_ok (rev (take i roots)) (roots ! i)"
  have early: "\<not> contains (roots ! j) (roots ! i) \<and> roots ! j \<noteq> roots ! i"
    if "j < i" "i < length roots" for i j
  proof -
    have "roots ! j \<in> set (rev (take i roots))"
      using that by (metis in_set_conv_nth length_take min.absorb4 nth_take set_rev)
    then show ?thesis using ok that(2) by (auto simp: root_ok_def)
  qed
  have late: "\<not> contains (roots ! j) (roots ! i)" if "i < j" "j < length roots" for i j
  proof
    assume "contains (roots ! j) (roots ! i)"
    then have "split_on slash (roots ! j) \<le> split_on slash (roots ! i)" by (rule contains_trans_order)
    moreover have "split_on slash (roots ! i) \<le> split_on slash (roots ! j)"
      using assms that by (auto simp: sorted_iff_nth_mono)
    ultimately have "roots ! i = roots ! j" by (simp add: split_on_inject antisym)
    then show False using early[OF that] by simp
  qed
  have "distinct roots" unfolding distinct_conv_nth using early by (metis linorder_neqE_nat)
  moreover have "p = q" if "p \<in> set roots" "q \<in> set roots" "contains p q" for p q
    using that early late by (metis in_set_conv_nth linorder_neqE_nat)
  moreover have "\<not> is_root p" if "p \<in> set roots" for p
    using that ok by (metis in_set_conv_nth root_ok_def)
  ultimately show "disjoint_roots roots" by (auto simp: disjoint_roots_def)
next
  assume d: "disjoint_roots roots"
  show "\<forall>i < length roots. root_ok (rev (take i roots)) (roots ! i)"
  proof (intro allI impI)
    fix i assume i: "i < length roots"
    have "roots ! i \<notin> set (take i roots)"
      using d i by (metis disjoint_roots_def distinct_take id_take_nth_drop not_distinct_conv_prefix
          distinct_append distinct.simps(2) disjoint_insert(1) list.simps(15) insert_disjoint(1))
    then show "root_ok (rev (take i roots)) (roots ! i)"
      using d i in_set_takeD[of _ i roots] by (fastforce simp: root_ok_def disjoint_roots_def)
  qed
qed

lemma disjoint_roots_perm: "mset ps = mset qs \<Longrightarrow> disjoint_roots ps \<longleftrightarrow> disjoint_roots qs"
  by (metis disjoint_roots_def mset_eq_imp_distinct_iff mset_eq_setD)

section \<open>Symlink resolution\<close>

text \<open>Lexical resolution on a stack of names below the workspace root; above it there is nothing.\<close>

fun resolve :: "string list \<Rightarrow> Component list \<Rightarrow> string list option" where
  "resolve dir [] = Some dir"
| "resolve dir (CurDir # cs) = resolve dir cs"
| "resolve dir (Normal n # cs) = resolve (dir @ [n]) cs"
| "resolve dir (ParentDir # cs) = (if dir = [] then None else resolve (butlast dir) cs)"
| "resolve dir (RootDir # cs) = None"

lemma symlink_depth_resolve: "symlink_depth (length dir) cs = map_option length (resolve dir cs)"
proof (induction dir cs rule: resolve.induct)
  case (3 dir n cs)
  then show ?case by simp
next
  case (4 dir cs)
  then show ?case by (cases "dir = []") auto
qed auto

section \<open>Host paths and portable paths\<close>

lemma component_of_Normal: "Normal n \<in> set (component_of part) \<Longrightarrow> n = part"
  by (auto simp: component_of_def split: if_splits)

lemma components_Normal_free: "Normal n \<in> set (components p) \<Longrightarrow> slash \<notin> set n"
  by (auto simp: components_def dest!: component_of_Normal split_on_parts split: if_splits)

lemma components_absolute: "starts_with p [slash] \<Longrightarrow> CurDir \<notin> set (components p)"
  by (auto simp: components_def component_of_def split: if_splits)

lemma components_RootDir: "RootDir \<in> set (components p) \<Longrightarrow> starts_with p [slash]"
  by (auto simp: components_def component_of_def split: if_splits)

lemma from_components_Ok:
  "from_components cs acc = Inr parts \<Longrightarrow> CurDir \<notin> set cs \<Longrightarrow>
     \<exists>ns. cs = map Normal ns \<and> parts = acc @ ns"
  by (induction cs acc arbitrary: parts rule: from_components.induct) (fastforce split: if_splits)+

lemma relative_path_new_Ok: "relative_path_new v = Inr p \<longleftrightarrow> p = v \<and> validate_path v = Inr ()"
  by (auto simp: relative_path_new_def result_simps)

lemma validate_path_normal:
  assumes "validate_path p = Inr ()" "p \<noteq> ''.''"
  shows "components p = map Normal (split_on slash p)"
proof -
  have parts: "\<forall>part \<in> set (split_on slash p). part \<noteq> [] \<and> part \<noteq> ''.'' \<and> part \<noteq> ''..''"
    and rel: "\<not> starts_with p [slash]"
    using assms by (auto simp: validate_path_def list_ex_iff split: if_splits)
  have "concat (map component_of ps) = map Normal ps"
    if "\<forall>part \<in> set ps. part \<noteq> [] \<and> part \<noteq> ''.'' \<and> part \<noteq> ''..''" for ps
    using that by (induction ps) (auto simp: component_of_def)
  then show ?thesis
    using parts rel hd_in_set[OF split_on_nonempty, of slash p] by (auto simp: components_def)
qed

lemma portable_relative_components:
  assumes "portable_relative workspace path = Ok p" "starts_with workspace ''/''"
  shows "validate_path p = Ok () \<and>
    components path = components workspace @ (if p = ''.'' then [] else map Normal (split_on slash p))"
proof -
  obtain rest where rest: "components path = components workspace @ rest" "from_path rest = Inr p"
    using assms(1) by (auto simp: portable_relative_def lift_protocol_def strip_prefix_Some
        split: option.splits sum.splits)
  have "RootDir \<in> set (components workspace)" using assms(2) by (simp add: components_def)
  then have "RootDir \<in> set (components path)" using rest(1) by simp
  then have "starts_with path [slash]" by (rule components_RootDir)
  then have "CurDir \<notin> set rest" using components_absolute[of path] rest(1) by simp
  then obtain ns where ns: "rest = map Normal ns" "from_components rest [] = Inr ns"
    using from_components_Ok[of rest "[]"] rest(2) by (force simp: from_path_def result_simps)
  have free: "\<forall>n \<in> set ns. slash \<notin> set n"
    using components_Normal_free[of _ path] rest(1) ns(1) by auto
  show ?thesis
  proof (cases "ns = []")
    case True
    then have "p = ''.''" using rest(2) ns(2) by (simp add: from_path_def root_path_def)
    moreover have "validate_path ''.'' = Inr ()"
      by (simp add: validate_path_def MAX_CACHE_STRING_BYTES_def)
    ultimately show ?thesis using True rest(1) ns(1) by simp
  next
    case False
    then have p: "p = join [slash] ns" "validate_path p = Inr ()"
      using rest(2) ns(2) by (auto simp: from_path_def relative_path_new_Ok)
    have split: "split_on slash p = ns" using split_on_join[OF False free] p(1) by simp
    have "p \<noteq> ''.''"
    proof
      assume "p = ''.''"
      then have "Normal ''.'' \<in> set (components path)" using split rest(1) ns(1) by auto
      then show False by (auto simp: components_def component_of_def split: if_splits)
    qed
    then show ?thesis using p rest(1) ns(1) split by simp
  qed
qed

section \<open>Properties\<close>

text \<open>
  A host path and its portable form denote the same place: when an absolute workspace contains
  a host path and the conversion succeeds, the result is a valid portable path, and the components
  of the host path are those of the workspace followed by the names of the portable path.  No
  parent, root or current-directory component survives.
\<close>

theorem portable_relative_faithful:
  assumes "portable_relative workspace path = Ok p" "starts_with workspace ''/''"
  shows "validate_path p = Ok () \<and>
    components path = components workspace @ (if p = ''.'' then [] else map Normal (split_on slash p))"
  using assms by (rule portable_relative_components)

theorem portable_relative_faithful_witness:
  "portable_relative ''/w'' ''/w//out/./bin'' = Ok ''out/bin'' \<and> validate_path ''out/bin'' = Ok ()"
proof -
  have "components ''/w//out/./bin'' = [RootDir, Normal ''w'', Normal ''out'', Normal ''bin'']"
    "components ''/w'' = [RootDir, Normal ''w'']" "starts_with ''/w'' ''/''"
    by code_simp+
  moreover have "utf8_valid ''out''" "utf8_valid ''bin''" by code_simp+
  ultimately have "portable_relative ''/w'' ''/w//out/./bin'' = Ok ''out/bin''" "starts_with ''/w'' ''/''"
    by (simp_all add: portable_relative_def strip_prefix_def starts_with_def from_path_def lift_protocol_def
        relative_path_new_def validate_path_def MAX_CACHE_STRING_BYTES_def)
  then show ?thesis using portable_relative_faithful by blast
qed

lemma validate_output_roots_iff:
  "validate_output_roots roots = Ok sorted_roots \<longleftrightarrow>
     roots \<noteq> [] \<and> disjoint_roots roots \<and> sorted_roots = sort_key (split_on slash) roots"
proof -
  let ?s = "sort_key (split_on slash) roots"
  have "(\<exists>seen. try_fold validate_root [] ?s = Inr seen) \<longleftrightarrow> disjoint_roots roots"
    using validate_roots_fold[of "[]" ?s] sorted_roots_ok[of ?s] disjoint_roots_perm[of ?s roots]
    by simp
  then show ?thesis
    by (auto simp: validate_output_roots_def Let_def sort_by_paths result_simps)
qed

text \<open>
  C14. Output roots are validated exactly: a set of roots is accepted if and only if it is nonempty,
  does not hold the workspace root, has no duplicate and no root that lies inside another; the
  result is the same roots in tree order.
\<close>

theorem validate_output_roots_correct:
  "validate_output_roots roots = Ok sorted_roots \<longleftrightarrow>
     roots \<noteq> [] \<and> disjoint_roots roots \<and> sorted_roots = sort_key (split_on slash) roots"
  by (rule validate_output_roots_iff)

text \<open>
  The containment test of a portable path is component-wise: a path lies within a root exactly
  when the root is the workspace root or its components are a prefix of the path's components, so
  a sibling whose name merely starts with the root's name is outside.
\<close>

theorem is_within_components:
  "is_within p root \<longleftrightarrow> root = ''.'' \<or> prefix (split_on slash root) (split_on slash p)"
  by (simp add: is_within_contains contains_iff is_root_def)

text \<open>
  C15. The tree order of paths is a total order in which every path inside a root comes between the
  root and the last path inside it: comparison is equal only on equal paths, is transitive, places
  an ancestor first, and keeps a subtree contiguous.
\<close>

theorem compare_paths_tree_order:
  "(compare_paths p q = Equal \<longleftrightarrow> p = q) \<and>
   (compare_paths p q = Greater \<longleftrightarrow> compare_paths q p = Less) \<and>
   (compare_paths p q = Less \<longrightarrow> compare_paths q r = Less \<longrightarrow> compare_paths p r = Less) \<and>
   (contains p q \<longrightarrow> p \<noteq> q \<longrightarrow> compare_paths p q = Less) \<and>
   (contains p r \<longrightarrow> compare_paths p q \<noteq> Greater \<longrightarrow> compare_paths q r \<noteq> Greater \<longrightarrow> contains p q)"
proof (intro conjI impI)
  show "compare_paths p q = Less" if "contains p q" "p \<noteq> q"
    using contains_trans_order[OF that(1)] that(2)
    by (simp add: compare_paths_ord le_less split_on_inject)
  show "contains p q"
    if "contains p r" "compare_paths p q \<noteq> Greater" "compare_paths q r \<noteq> Greater"
    using that prefix_between[of "split_on slash p" "split_on slash r" "split_on slash q"]
    by (simp add: contains_iff compare_paths_ord not_less)
qed (auto simp: compare_paths_ord split_on_inject)

theorem compare_paths_tree_order_witness:
  "compare_paths ''out'' ''out/a'' = Less \<and> contains ''out'' ''out/a''"
proof -
  have "contains ''out'' ''out/z''" "compare_paths ''out'' ''out/a'' \<noteq> Greater"
    "compare_paths ''out/a'' ''out/z'' \<noteq> Greater" "''out'' \<noteq> ''out/a''" by code_simp+
  then show ?thesis using compare_paths_tree_order[of "''out''" "''out/a''" "''out/z''"] by blast
qed

text \<open>
  C16. A portable symlink target is accepted exactly when it is nonempty portable text and its
  lexical resolution from the directory of the link never climbs above the workspace root.
\<close>

theorem validate_symlink_text_contained:
  "validate_symlink_text link target = Ok () \<longleftrightarrow>
     target \<noteq> [] \<and> \<not> starts_with target ''/'' \<and> CHR 0x5C \<notin> set target \<and> CHR '':'' \<notin> set target \<and>
     \<not> has_control target \<and>
     (\<exists>dest. resolve (butlast (split_on slash link)) (components target) = Some dest)"
  using symlink_depth_resolve[of "butlast (split_on slash link)" "components target"]
  by (auto simp: validate_symlink_text_def split: option.splits)

end
