(* ===== verification/Cache_Action.thy ===== *)
theory Cache_Action
  imports Cache_Path
begin

text \<open>
  Action identities (\<^verbatim>\<open>octa-cache-protocol/src/action.rs\<close>): the descriptor of everything a cached
  task depends on, its validation, and the canonical byte encoding that is hashed to the action key.
  The encoder state keeps the bytes fed to the hash function; the hash function itself is a
  parameter.
\<close>

section \<open>Descriptors\<close>

definition ACTION_KEY_FORMAT_V1 :: u16 where "ACTION_KEY_FORMAT_V1 = 1"
definition ACTION_DOMAIN :: "u8 list" where "ACTION_DOMAIN = as_bytes ''octa.action.v1''"

datatype PlatformOs = Linux | Windows | Macos

fun os_tag :: "PlatformOs \<Rightarrow> u8" where
  "os_tag Linux = 1"
| "os_tag Windows = 2"
| "os_tag Macos = 3"

datatype PlatformArchitecture = Amd64 | Arm64

fun architecture_tag :: "PlatformArchitecture \<Rightarrow> u8" where
  "architecture_tag Amd64 = 1"
| "architecture_tag Arm64 = 2"

datatype RuntimeIdentity =
    Native PlatformOs PlatformArchitecture Digest
  | Oci PlatformOs PlatformArchitecture Digest

definition require_algorithm :: "string \<Rightarrow> Digest \<Rightarrow> DigestAlgorithm \<Rightarrow> (CacheProtocolError, unit) result" where
  "require_algorithm kind digest expected =
     (if algorithm digest \<noteq> expected
      then Err (ActionError (kind @ '' must use the '' @ algorithm_to_string expected @ '' digest algorithm''))
      else Ok ())"

definition runtime_native ::
    "(u8 list \<Rightarrow> u8 list) \<Rightarrow> PlatformOs \<Rightarrow> PlatformArchitecture \<Rightarrow> string \<Rightarrow>
     (CacheProtocolError, RuntimeIdentity) result" where
  "runtime_native blake3 os arch identity =
     (if identity = [] \<or> length identity > MAX_CACHE_STRING_BYTES \<or> has_control identity
      then Err (ConfigurationError (''Native runtime environment identity must contain 1 to '' @
             decimal MAX_CACHE_STRING_BYTES @ '' UTF-8 bytes and no control characters''))
      else Ok (Native os arch (digest_blake3 blake3 (as_bytes identity))))"

fun runtime_validate :: "RuntimeIdentity \<Rightarrow> (CacheProtocolError, unit) result" where
  "runtime_validate (Native os arch environment) =
     require_algorithm ''Native runtime environment'' environment Blake3"
| "runtime_validate (Oci Macos arch img) =
     Err (ConfigurationError ''OCI cache runtime cannot declare a macOS guest'')"
| "runtime_validate (Oci os arch img) = require_algorithm ''OCI image'' img Sha256"

record PluginIdentity =
  plugin_name :: string
  plugin_version :: string
  protocol_version :: u16
  executable :: Digest

record Duration =
  as_secs :: u64
  subsec_nanos :: u32

record ActionDescriptorV1 =
  key_format :: u16
  task_definition :: Digest
  input_root :: Digest
  working_directory :: RelativePath
  variables :: Digest
  environment :: Digest
  runtime :: RuntimeIdentity
  plugins :: "PluginIdentity list"
  arguments :: "string list"
  timeout :: "Duration option"
  salt :: "string option"

definition validate_plugin ::
    "string list \<Rightarrow> PluginIdentity \<Rightarrow> (CacheProtocolError, string list) result" where
  "validate_plugin plugin_names plugin =
     and_then (validate_string ''plugin name'' (plugin_name plugin)) (\<lambda>_.
     and_then (validate_string ''plugin version'' (plugin_version plugin)) (\<lambda>_.
     if protocol_version plugin = 0
       then Err (ActionError (''plugin '' @ quoted (plugin_name plugin) @ '' has protocol version zero''))
     else if algorithm (executable plugin) \<noteq> Sha256
       then Err (ActionError (''plugin '' @ quoted (plugin_name plugin) @
              '' executable must retain its SHA-256 identity''))
     else if plugin_name plugin \<in> set plugin_names
       then Err (ActionError (''plugin '' @ quoted (plugin_name plugin) @ '' appears more than once''))
     else Ok (plugin_name plugin # plugin_names)))"

definition action_validate :: "ActionDescriptorV1 \<Rightarrow> (CacheProtocolError, unit) result" where
  "action_validate d =
     (if key_format d \<noteq> ACTION_KEY_FORMAT_V1
        then Err (ActionError (''unsupported key format '' @ decimal (unat (key_format d))))
      else if length (plugins d) > MAX_CACHE_LIST_ITEMS \<or> length (arguments d) > MAX_CACHE_LIST_ITEMS
        then Err (ActionError (''plugin and argument lists are limited to '' @
               decimal MAX_CACHE_LIST_ITEMS @ '' items''))
      else
        and_then (require_algorithm ''task definition'' (task_definition d) Blake3) (\<lambda>_.
        and_then (require_algorithm ''input root'' (input_root d) Blake3) (\<lambda>_.
        and_then (require_algorithm ''variables'' (variables d) Blake3) (\<lambda>_.
        and_then (require_algorithm ''environment'' (environment d) Blake3) (\<lambda>_.
        and_then (runtime_validate (runtime d)) (\<lambda>_.
        and_then (try_fold validate_plugin [] (plugins d)) (\<lambda>_.
        and_then (try_each (\<lambda>argument.
            ensure (length argument \<le> MAX_CACHE_STRING_BYTES)
              (ActionError (''argument exceeds '' @ decimal MAX_CACHE_STRING_BYTES @ '' UTF-8 bytes'')))
            (arguments d)) (\<lambda>_.
        if (case timeout d of None \<Rightarrow> False | Some t \<Rightarrow> as_secs t = 0 \<and> subsec_nanos t = 0)
          then Err (ActionError ''timeout must be greater than zero'')
        else case salt d of None \<Rightarrow> Ok () | Some s \<Rightarrow> validate_string ''salt'' s))))))))"

section \<open>The canonical encoder\<close>

record CanonicalEncoder =
  hashed :: "u8 list"
  enc_bytes :: u64

definition raw :: "u8 list \<Rightarrow> CanonicalEncoder \<Rightarrow> CanonicalEncoder" where
  "raw v e = \<lparr>hashed = hashed e @ v, enc_bytes = enc_bytes e + word_of_nat (length v)\<rparr>"

definition encoder_new :: "u8 list \<Rightarrow> CanonicalEncoder" where
  "encoder_new domain =
     raw domain (raw (u32_be (word_of_nat (length domain))) \<lparr>hashed = [], enc_bytes = 0\<rparr>)"

definition enc_tag :: "u8 \<Rightarrow> CanonicalEncoder \<Rightarrow> CanonicalEncoder" where
  "enc_tag t = raw [t]"

definition enc_byte :: "u8 \<Rightarrow> u8 \<Rightarrow> CanonicalEncoder \<Rightarrow> CanonicalEncoder" where
  "enc_byte t v e = raw [v] (enc_tag t e)"

definition enc_u16 :: "u8 \<Rightarrow> u16 \<Rightarrow> CanonicalEncoder \<Rightarrow> CanonicalEncoder" where
  "enc_u16 t v e = raw (u16_be v) (enc_tag t e)"

definition enc_u32 :: "u8 \<Rightarrow> u32 \<Rightarrow> CanonicalEncoder \<Rightarrow> CanonicalEncoder" where
  "enc_u32 t v e = raw (u32_be v) (enc_tag t e)"

definition enc_u64 :: "u8 \<Rightarrow> u64 \<Rightarrow> CanonicalEncoder \<Rightarrow> CanonicalEncoder" where
  "enc_u64 t v e = raw (u64_be v) (enc_tag t e)"

definition enc_string :: "u8 \<Rightarrow> string \<Rightarrow> CanonicalEncoder \<Rightarrow> CanonicalEncoder" where
  "enc_string t v e = raw (as_bytes v) (raw (u32_be (word_of_nat (length v))) (enc_tag t e))"

definition enc_digest :: "u8 \<Rightarrow> Digest \<Rightarrow> CanonicalEncoder \<Rightarrow> CanonicalEncoder" where
  "enc_digest t v e =
     raw (hash v) (raw (u64_be (size_bytes v)) (raw [canonical_tag (algorithm v)] (enc_tag t e)))"

fun enc_runtime :: "u8 \<Rightarrow> RuntimeIdentity \<Rightarrow> CanonicalEncoder \<Rightarrow> CanonicalEncoder" where
  "enc_runtime t (Native os arch env) e =
     enc_digest 20 env (raw [1, os_tag os, architecture_tag arch] (enc_tag t e))"
| "enc_runtime t (Oci os arch img) e =
     enc_digest 21 img (raw [2, os_tag os, architecture_tag arch] (enc_tag t e))"

definition enc_finish :: "(u8 list \<Rightarrow> u8 list) \<Rightarrow> CanonicalEncoder \<Rightarrow> Digest" where
  "enc_finish blake3 e = digest_new Blake3 (blake3 (hashed e)) (enc_bytes e)"

definition enc_plugin :: "CanonicalEncoder \<Rightarrow> PluginIdentity \<Rightarrow> CanonicalEncoder" where
  "enc_plugin e plugin =
     enc_digest 12 (executable plugin) (enc_u16 11 (protocol_version plugin)
       (enc_string 10 (plugin_version plugin) (enc_string 9 (plugin_name plugin) e)))"

definition enc_timeout :: "Duration option \<Rightarrow> CanonicalEncoder \<Rightarrow> CanonicalEncoder" where
  "enc_timeout t e =
     (case t of
        Some d \<Rightarrow> enc_u32 17 (subsec_nanos d) (enc_u64 16 (as_secs d) (enc_byte 15 1 e))
      | None \<Rightarrow> enc_byte 15 0 e)"

definition enc_salt :: "string option \<Rightarrow> CanonicalEncoder \<Rightarrow> CanonicalEncoder" where
  "enc_salt s e = (case s of Some v \<Rightarrow> enc_string 19 v (enc_byte 18 1 e) | None \<Rightarrow> enc_byte 18 0 e)"

definition encode_action :: "ActionDescriptorV1 \<Rightarrow> CanonicalEncoder" where
  "encode_action d =
     (let e = encoder_new ACTION_DOMAIN;
          e = enc_u16 1 (key_format d) e;
          e = enc_digest 2 (task_definition d) e;
          e = enc_digest 3 (input_root d) e;
          e = enc_string 4 (working_directory d) e;
          e = enc_digest 5 (variables d) e;
          e = enc_digest 6 (environment d) e;
          e = enc_runtime 7 (runtime d) e;
          ps = sort_by (\<lambda>l r. ord_cmp (plugin_name l) (plugin_name r)) (plugins d);
          e = enc_u32 8 (word_of_nat (length ps)) e;
          e = foldl enc_plugin e ps;
          e = enc_u32 13 (word_of_nat (length (arguments d))) e;
          e = foldl (\<lambda>e argument. enc_string 14 argument e) e (arguments d);
          e = enc_timeout (timeout d) e
      in enc_salt (salt d) e)"

definition action_digest ::
    "(u8 list \<Rightarrow> u8 list) \<Rightarrow> ActionDescriptorV1 \<Rightarrow> (CacheProtocolError, Digest) result" where
  "action_digest blake3 d =
     and_then (action_validate d) (\<lambda>_. Ok (enc_finish blake3 (encode_action d)))"

section \<open>Durations on the wire\<close>

record WireDuration =
  wire_seconds :: u64
  wire_nanoseconds :: u32

definition duration_serialize :: "Duration option \<Rightarrow> WireDuration option" where
  "duration_serialize = map_option (\<lambda>d. \<lparr>wire_seconds = as_secs d, wire_nanoseconds = subsec_nanos d\<rparr>)"

definition duration_deserialize :: "WireDuration option \<Rightarrow> (string, Duration option) result" where
  "duration_deserialize v =
     (case v of
        None \<Rightarrow> Ok None
      | Some w \<Rightarrow>
          if wire_nanoseconds w \<ge> 1000000000 then Err ''nanoseconds must be less than one billion''
          else Ok (Some \<lparr>as_secs = wire_seconds w, subsec_nanos = wire_nanoseconds w\<rparr>))"

section \<open>Self-delimiting encodings\<close>

text \<open>
  An encoding is self-delimiting on a set of values when an encoded value can be told apart from
  every other one whatever follows it.  The property is kept by sequencing, tagging and counted
  repetition, which is how the encoder is built.
\<close>

definition self_delimiting :: "('a \<Rightarrow> bool) \<Rightarrow> ('a \<Rightarrow> u8 list) \<Rightarrow> bool" where
  "self_delimiting P enc \<longleftrightarrow>
     (\<forall>x y s t. P x \<longrightarrow> P y \<longrightarrow> enc x @ s = enc y @ t \<longrightarrow> x = y \<and> s = t)"

lemma self_delimitingD:
  "self_delimiting P enc \<Longrightarrow> P x \<Longrightarrow> P y \<Longrightarrow> enc x @ s = enc y @ t \<Longrightarrow> x = y \<and> s = t"
  unfolding self_delimiting_def by blast

lemma sd_fixed:
  assumes "\<And>x. P x \<Longrightarrow> length (enc x) = n" "\<And>x y. P x \<Longrightarrow> P y \<Longrightarrow> enc x = enc y \<Longrightarrow> x = y"
  shows "self_delimiting P enc"
  using assms by (auto simp: self_delimiting_def)

lemma sd_seq:
  assumes "self_delimiting P f" "self_delimiting Q g" "\<And>x. R x \<Longrightarrow> P (a x) \<and> Q (b x)"
    "\<And>x y. R x \<Longrightarrow> R y \<Longrightarrow> a x = a y \<Longrightarrow> b x = b y \<Longrightarrow> x = y"
  shows "self_delimiting R (\<lambda>x. f (a x) @ g (b x))"
  unfolding self_delimiting_def
proof (intro allI impI)
  fix x y s t assume R: "R x" "R y" and "(f (a x) @ g (b x)) @ s = (f (a y) @ g (b y)) @ t"
  then have "f (a x) @ g (b x) @ s = f (a y) @ g (b y) @ t" by simp
  then have "a x = a y" "g (b x) @ s = g (b y) @ t"
    using self_delimitingD[OF assms(1)] assms(3) R by blast+
  moreover from this have "b x = b y" "s = t"
    using self_delimitingD[OF assms(2)] assms(3) R by blast+
  ultimately show "x = y \<and> s = t" using assms(4) R by blast
qed

lemma sd_tag: "self_delimiting P f \<Longrightarrow> self_delimiting P (\<lambda>x. t # f x)"
  unfolding self_delimiting_def append_Cons list.inject by blast

lemma sd_repeat:
  assumes "self_delimiting P f"
  shows "length xs = length ys \<Longrightarrow> \<forall>x \<in> set xs. P x \<Longrightarrow> \<forall>y \<in> set ys. P y \<Longrightarrow>
    concat (map f xs) @ s = concat (map f ys) @ t \<Longrightarrow> xs = ys \<and> s = t"
proof (induction xs ys rule: list_induct2)
  case (Cons x xs y ys)
  then have "f x @ (concat (map f xs) @ s) = f y @ (concat (map f ys) @ t)" by simp
  moreover have "P x" "P y" using Cons.prems by simp_all
  ultimately have "x = y \<and> concat (map f xs) @ s = concat (map f ys) @ t"
    by (rule self_delimitingD[OF assms, rotated 2])
  then show ?case using Cons by simp
qed simp

lemma word32_length_inject:
  "m < 2 ^ 32 \<Longrightarrow> n < 2 ^ 32 \<Longrightarrow> (word_of_nat m :: u32) = word_of_nat n \<longleftrightarrow> m = n"
  by (simp add: word_unat_eq_iff unat_of_nat)

lemma sd_counted:
  assumes "self_delimiting P f"
  shows "self_delimiting (\<lambda>xs. length xs < 2 ^ 32 \<and> (\<forall>x \<in> set xs. P x))
    (\<lambda>xs. u32_be (word_of_nat (length xs)) @ concat (map f xs))"
  unfolding self_delimiting_def
proof (intro allI impI)
  fix xs ys :: "'a list" and s t
  assume xs: "length xs < 2 ^ 32 \<and> (\<forall>x \<in> set xs. P x)" and ys: "length ys < 2 ^ 32 \<and> (\<forall>y \<in> set ys. P y)"
    and eq: "(u32_be (word_of_nat (length xs)) @ concat (map f xs)) @ s =
      (u32_be (word_of_nat (length ys)) @ concat (map f ys)) @ t"
  then have "length xs = length ys" "concat (map f xs) @ s = concat (map f ys) @ t"
    using word32_length_inject by auto
  then show "xs = ys \<and> s = t" using sd_repeat[OF assms] xs ys by blast
qed

definition string_bytes :: "string \<Rightarrow> u8 list" where
  "string_bytes s = u32_be (word_of_nat (length s)) @ as_bytes s"

definition digest_bytes :: "Digest \<Rightarrow> u8 list" where
  "digest_bytes d = canonical_tag (algorithm d) # u64_be (size_bytes d) @ hash d"

lemma canonical_tag_inject [simp]: "canonical_tag a = canonical_tag b \<longleftrightarrow> a = b"
  by (cases a; cases b) auto

lemma sd_string: "self_delimiting (\<lambda>s. length s < 2 ^ 32) string_bytes"
proof -
  have "self_delimiting (\<lambda>_. True) (\<lambda>c. [byte_of_char c])"
    by (rule sd_fixed) (auto, metis char_of_byte_of_char)
  from sd_counted[OF this] show ?thesis by (simp add: string_bytes_def[abs_def] as_bytes_def)
qed

lemma sd_digest: "self_delimiting wf_digest digest_bytes"
  by (rule sd_fixed[where n = "9 + HASH_BYTES"])
     (auto simp: digest_bytes_def wf_digest_def intro: Digest.equality)

lemma sd_u16: "self_delimiting (\<lambda>_. True) u16_be"
  by (rule sd_fixed) auto

fun runtime_bytes :: "RuntimeIdentity \<Rightarrow> u8 list" where
  "runtime_bytes (Native os arch d) = [1, os_tag os, architecture_tag arch, 20] @ digest_bytes d"
| "runtime_bytes (Oci os arch d) = [2, os_tag os, architecture_tag arch, 21] @ digest_bytes d"

fun wf_runtime :: "RuntimeIdentity \<Rightarrow> bool" where
  "wf_runtime (Native os arch d) = wf_digest d"
| "wf_runtime (Oci os arch d) = wf_digest d"

fun runtime_digest :: "RuntimeIdentity \<Rightarrow> Digest" where
  "runtime_digest (Native os arch d) = d"
| "runtime_digest (Oci os arch d) = d"

lemma os_tag_inject [simp]: "os_tag a = os_tag b \<longleftrightarrow> a = b"
  by (cases a; cases b) auto

lemma architecture_tag_inject [simp]: "architecture_tag a = architecture_tag b \<longleftrightarrow> a = b"
  by (cases a; cases b) auto

fun runtime_header :: "RuntimeIdentity \<Rightarrow> u8 list" where
  "runtime_header (Native os arch d) = [1, os_tag os, architecture_tag arch, 20]"
| "runtime_header (Oci os arch d) = [2, os_tag os, architecture_tag arch, 21]"

lemma sd_bytes: "self_delimiting (\<lambda>h. length h = n) (\<lambda>h. h)"
  by (rule sd_fixed) auto

lemma runtime_bytes_parts: "runtime_bytes r = runtime_header r @ digest_bytes (runtime_digest r)"
  by (cases r) simp_all

lemma runtime_parts_inject:
  "runtime_header x = runtime_header y \<Longrightarrow> runtime_digest x = runtime_digest y \<Longrightarrow> x = y"
  by (cases x; cases y) simp_all

lemma sd_runtime: "self_delimiting wf_runtime runtime_bytes"
proof -
  have "length (runtime_header r) = 4 \<and> wf_digest (runtime_digest r)" if "wf_runtime r" for r
    using that by (cases r) simp_all
  then show ?thesis
    unfolding runtime_bytes_parts[abs_def]
    by (intro sd_seq[OF sd_bytes[of 4] sd_digest]) (auto intro: runtime_parts_inject)
qed

definition wf_plugin :: "PluginIdentity \<Rightarrow> bool" where
  "wf_plugin p \<longleftrightarrow> length (plugin_name p) < 2 ^ 32 \<and> length (plugin_version p) < 2 ^ 32 \<and>
     wf_digest (executable p)"

definition plugin_bytes :: "PluginIdentity \<Rightarrow> u8 list" where
  "plugin_bytes p =
     (9 # string_bytes (plugin_name p)) @ (10 # string_bytes (plugin_version p)) @
     (11 # u16_be (protocol_version p)) @ (12 # digest_bytes (executable p))"

lemma sd_plugin: "self_delimiting wf_plugin plugin_bytes"
proof -
  have "self_delimiting (\<lambda>(v, d). wf_digest d) (\<lambda>x. (11 # u16_be (fst x)) @ (12 # digest_bytes (snd x)))"
    by (rule sd_seq[OF sd_tag[OF sd_u16] sd_tag[OF sd_digest]]) auto
  from sd_seq[OF sd_tag[OF sd_string] this, where t1 = 10 and a = fst and b = snd
      and R = "\<lambda>x. length (fst x) < 2 ^ 32 \<and> wf_digest (snd (snd x))"]
  have "self_delimiting (\<lambda>x. length (fst x) < 2 ^ 32 \<and> wf_digest (snd (snd x)))
     (\<lambda>x. (10 # string_bytes (fst x)) @ (11 # u16_be (fst (snd x))) @ (12 # digest_bytes (snd (snd x))))"
    by (auto simp: case_prod_beta prod_eq_iff)
  from sd_seq[OF sd_tag[OF sd_string] this, where t1 = 9 and a = plugin_name
      and b = "\<lambda>p. (plugin_version p, protocol_version p, executable p)" and R = wf_plugin]
  show ?thesis
    by (auto simp: plugin_bytes_def[abs_def] wf_plugin_def intro: PluginIdentity.equality)
qed

definition timeout_bytes :: "Duration option \<Rightarrow> u8 list" where
  "timeout_bytes t =
     (case t of None \<Rightarrow> [15, 0] | Some d \<Rightarrow> [15, 1, 16] @ u64_be (as_secs d) @ [17] @ u32_be (subsec_nanos d))"

definition salt_bytes :: "string option \<Rightarrow> u8 list" where
  "salt_bytes s = (case s of None \<Rightarrow> [18, 0] | Some v \<Rightarrow> [18, 1, 19] @ string_bytes v)"

lemma sd_timeout: "self_delimiting (\<lambda>_. True) timeout_bytes"
  by (auto simp: self_delimiting_def timeout_bytes_def intro: Duration.equality split: option.splits)

lemma sd_salt: "self_delimiting (\<lambda>s. \<forall>v. s = Some v \<longrightarrow> length v < 2 ^ 32) salt_bytes"
  unfolding self_delimiting_def
proof (intro allI impI)
  fix x y s t
  assume len: "\<forall>v. x = Some v \<longrightarrow> length v < 2 ^ 32" "\<forall>v. y = Some v \<longrightarrow> length v < 2 ^ 32"
    and eq: "salt_bytes x @ s = salt_bytes y @ t"
  show "x = y \<and> s = t"
  proof (cases "x = None \<or> y = None")
    case True
    then show ?thesis using eq by (cases x; cases y) (simp_all add: salt_bytes_def)
  next
    case False
    then obtain v w where vw: "x = Some v" "y = Some w" by auto
    then have "string_bytes v @ s = string_bytes w @ t" using eq by (simp add: salt_bytes_def)
    then show ?thesis using self_delimitingD[OF sd_string, of v w s t] len vw by simp
  qed
qed

section \<open>The encoding of a descriptor\<close>

lemma hashed_simps [simp]:
  "hashed (raw v e) = hashed e @ v"
  "hashed (enc_tag t e) = hashed e @ [t]"
  "hashed (enc_byte t b e) = hashed e @ [t, b]"
  "hashed (enc_u16 t w e) = hashed e @ t # u16_be w"
  "hashed (enc_u32 t x e) = hashed e @ t # u32_be x"
  "hashed (enc_u64 t y e) = hashed e @ t # u64_be y"
  "hashed (enc_string t s e) = hashed e @ t # string_bytes s"
  "hashed (enc_digest t d e) = hashed e @ t # digest_bytes d"
  by (simp_all add: raw_def enc_tag_def enc_byte_def enc_u16_def enc_u32_def enc_u64_def
      enc_string_def enc_digest_def string_bytes_def digest_bytes_def)

lemma hashed_runtime [simp]: "hashed (enc_runtime t r e) = hashed e @ t # runtime_bytes r"
  by (cases r) simp_all

lemma hashed_plugins [simp]: "hashed (foldl enc_plugin e ps) = hashed e @ concat (map plugin_bytes ps)"
  by (induction ps arbitrary: e) (simp_all add: enc_plugin_def plugin_bytes_def)

lemma hashed_arguments [simp]:
  "hashed (foldl (\<lambda>e a. enc_string 14 a e) e as) = hashed e @ concat (map (\<lambda>a. 14 # string_bytes a) as)"
  by (induction "as" arbitrary: e) simp_all

lemma hashed_timeout [simp]: "hashed (enc_timeout t e) = hashed e @ timeout_bytes t"
  by (simp add: enc_timeout_def timeout_bytes_def split: option.splits)

lemma hashed_salt [simp]: "hashed (enc_salt s e) = hashed e @ salt_bytes s"
  by (simp add: enc_salt_def salt_bytes_def split: option.splits)

abbreviation sorted_plugins :: "ActionDescriptorV1 \<Rightarrow> PluginIdentity list" where
  "sorted_plugins d \<equiv> sort_key plugin_name (plugins d)"

lemma hashed_encode_action:
  "hashed (encode_action d) =
     hashed (encoder_new ACTION_DOMAIN) @
     (1 # u16_be (key_format d)) @ (2 # digest_bytes (task_definition d)) @
     (3 # digest_bytes (input_root d)) @ (4 # string_bytes (working_directory d)) @
     (5 # digest_bytes (variables d)) @ (6 # digest_bytes (environment d)) @
     (7 # runtime_bytes (runtime d)) @
     (8 # u32_be (word_of_nat (length (sorted_plugins d))) @ concat (map plugin_bytes (sorted_plugins d))) @
     (13 # u32_be (word_of_nat (length (arguments d))) @
        concat (map (\<lambda>a. 14 # string_bytes a) (arguments d))) @
     timeout_bytes (timeout d) @ salt_bytes (salt d)"
  by (simp add: encode_action_def Let_def sort_by_key[where key = plugin_name])

section \<open>What validation guarantees\<close>

definition plugin_ok :: "PluginIdentity \<Rightarrow> bool" where
  "plugin_ok p \<longleftrightarrow>
     plugin_name p \<noteq> [] \<and> length (plugin_name p) \<le> MAX_CACHE_STRING_BYTES \<and> \<not> has_control (plugin_name p) \<and>
     plugin_version p \<noteq> [] \<and> length (plugin_version p) \<le> MAX_CACHE_STRING_BYTES \<and>
     \<not> has_control (plugin_version p) \<and> protocol_version p \<noteq> 0 \<and> algorithm (executable p) = Sha256"

lemma validate_plugin_Ok:
  "validate_plugin names p = Inr names' \<longleftrightarrow>
     plugin_ok p \<and> plugin_name p \<notin> set names \<and> names' = plugin_name p # names"
  by (auto simp: validate_plugin_def plugin_ok_def result_simps)

lemma validate_plugins_Ok:
  "try_fold validate_plugin names ps = Inr names' \<longleftrightarrow>
     (\<forall>p \<in> set ps. plugin_ok p) \<and> distinct (map plugin_name ps) \<and>
     set (map plugin_name ps) \<inter> set names = {} \<and> names' = rev (map plugin_name ps) @ names"
  by (induction ps arbitrary: names) (auto simp: result_simps validate_plugin_Ok)

lemma require_algorithm_Ok [result_simps]: "require_algorithm kind d a = Inr u \<longleftrightarrow> algorithm d = a"
  by (simp add: require_algorithm_def)

lemma action_validate_Ok:
  assumes "action_validate d = Inr ()"
  shows "key_format d = ACTION_KEY_FORMAT_V1"
    "length (plugins d) \<le> MAX_CACHE_LIST_ITEMS" "length (arguments d) \<le> MAX_CACHE_LIST_ITEMS"
    "\<forall>p \<in> set (plugins d). plugin_ok p" "distinct (map plugin_name (plugins d))"
    "\<forall>a \<in> set (arguments d). length a \<le> MAX_CACHE_STRING_BYTES"
    "\<forall>s. salt d = Some s \<longrightarrow> length s \<le> MAX_CACHE_STRING_BYTES"
  using assms unfolding action_validate_def
  by (auto simp: result_simps validate_plugins_Ok split: if_splits option.splits)

text \<open>The type invariants of a descriptor: digests of full length and a portable path.\<close>

definition wf_action :: "ActionDescriptorV1 \<Rightarrow> bool" where
  "wf_action d \<longleftrightarrow>
     wf_digest (task_definition d) \<and> wf_digest (input_root d) \<and> wf_digest (variables d) \<and>
     wf_digest (environment d) \<and> wf_runtime (runtime d) \<and>
     (\<forall>p \<in> set (plugins d). wf_digest (executable p)) \<and> validate_path (working_directory d) = Inr ()"

lemma validate_path_length: "validate_path p = Inr () \<Longrightarrow> length p \<le> MAX_CACHE_STRING_BYTES"
  by (auto simp: validate_path_def split: if_splits)

lemma small: "n \<le> MAX_CACHE_STRING_BYTES \<Longrightarrow> n < 2 ^ 32" "n \<le> MAX_CACHE_LIST_ITEMS \<Longrightarrow> n < 2 ^ 32"
  by (simp_all add: MAX_CACHE_STRING_BYTES_def MAX_CACHE_LIST_ITEMS_def)

lemma sd_iff:
  "self_delimiting P f \<Longrightarrow> P x \<Longrightarrow> P y \<Longrightarrow> f x @ s = f y @ t \<longleftrightarrow> x = y \<and> s = t"
  using self_delimitingD[of P f x y s t] by blast

lemma sd_iff_end: "self_delimiting P f \<Longrightarrow> P x \<Longrightarrow> P y \<Longrightarrow> f x = f y \<longleftrightarrow> x = y"
  using self_delimitingD[of P f x y "[]" "[]"] by auto

lemma plugins_encoded:
  assumes "wf_action d" "action_validate d = Inr ()"
  shows "length (sorted_plugins d) < 2 ^ 32 \<and> (\<forall>p \<in> set (sorted_plugins d). wf_plugin p)"
  using assms action_validate_Ok[OF assms(2)] small
  by (auto simp: wf_action_def plugin_ok_def wf_plugin_def)

lemma arguments_encoded:
  assumes "action_validate d = Inr ()"
  shows "length (arguments d) < 2 ^ 32 \<and> (\<forall>a \<in> set (arguments d). length a < 2 ^ 32)"
  using action_validate_Ok[OF assms] small by auto

lemma salt_encoded:
  "action_validate d = Inr () \<Longrightarrow> \<forall>v. salt d = Some v \<longrightarrow> length v < 2 ^ 32"
  using action_validate_Ok(7) small(1) by blast

definition same_action :: "ActionDescriptorV1 \<Rightarrow> ActionDescriptorV1 \<Rightarrow> bool" where
  "same_action a b \<longleftrightarrow> mset (plugins a) = mset (plugins b) \<and> a\<lparr>plugins := []\<rparr> = b\<lparr>plugins := []\<rparr>"

lemma same_action_fields:
  "same_action a b \<longleftrightarrow> mset (plugins a) = mset (plugins b) \<and> key_format a = key_format b \<and>
     task_definition a = task_definition b \<and> input_root a = input_root b \<and>
     working_directory a = working_directory b \<and> variables a = variables b \<and>
     environment a = environment b \<and> runtime a = runtime b \<and> arguments a = arguments b \<and>
     timeout a = timeout b \<and> salt a = salt b"
  by (cases a; cases b) (auto simp: same_action_def)

lemma sorted_plugins_eq:
  assumes "distinct (map plugin_name (plugins a))"
  shows "sorted_plugins a = sorted_plugins b \<longleftrightarrow> mset (plugins a) = mset (plugins b)"
proof
  assume "sorted_plugins a = sorted_plugins b"
  then show "mset (plugins a) = mset (plugins b)" by (metis mset_sort)
next
  assume "mset (plugins a) = mset (plugins b)"
  then show "sorted_plugins a = sorted_plugins b"
    using assms by (intro sort_key_inj_key_eq) (auto simp: distinct_map)
qed

lemma encode_action_inject:
  assumes wf: "wf_action a" "wf_action b" and val: "action_validate a = Inr ()" "action_validate b = Inr ()"
  shows "hashed (encode_action a) = hashed (encode_action b) \<longleftrightarrow> same_action a b"
proof -
  have paths: "length (working_directory a) < 2 ^ 32" "length (working_directory b) < 2 ^ 32"
    using wf validate_path_length small(1) by (simp_all add: wf_action_def)
  have digests: "wf_digest (task_definition x)" "wf_digest (input_root x)" "wf_digest (variables x)"
    "wf_digest (environment x)" "wf_runtime (runtime x)" if "wf_action x" for x
    using that by (simp_all add: wf_action_def)
  have args: "self_delimiting (\<lambda>as. length as < 2 ^ 32 \<and> (\<forall>a \<in> set as. length a < 2 ^ 32))
      (\<lambda>as. u32_be (word_of_nat (length as)) @ concat (map (\<lambda>a. 14 # string_bytes a) as))"
    by (rule sd_counted[OF sd_tag[OF sd_string]])
  note d = digests[OF wf(1)] digests[OF wf(2)]
  have "hashed (encode_action a) = hashed (encode_action b) \<longleftrightarrow>
      key_format a = key_format b \<and> task_definition a = task_definition b \<and> input_root a = input_root b \<and>
      working_directory a = working_directory b \<and> variables a = variables b \<and>
      environment a = environment b \<and> runtime a = runtime b \<and> sorted_plugins a = sorted_plugins b \<and>
      arguments a = arguments b \<and> timeout a = timeout b \<and> salt a = salt b"
    unfolding hashed_encode_action same_append_eq append_Cons list.inject
      sd_iff[OF sd_u16 TrueI TrueI] sd_iff[OF sd_digest d(1) d(6)] sd_iff[OF sd_digest d(2) d(7)]
      sd_iff[OF sd_string paths] sd_iff[OF sd_digest d(3) d(8)] sd_iff[OF sd_digest d(4) d(9)]
      sd_iff[OF sd_runtime d(5) d(10)]
      sd_iff[OF sd_counted[OF sd_plugin] plugins_encoded[OF wf(1) val(1)] plugins_encoded[OF wf(2) val(2)]]
      sd_iff[OF args arguments_encoded[OF val(1)] arguments_encoded[OF val(2)]]
      sd_iff[OF sd_timeout TrueI TrueI]
      sd_iff_end[OF sd_salt salt_encoded[OF val(1)] salt_encoded[OF val(2)]]
    by simp
  then show ?thesis
    unfolding same_action_fields sorted_plugins_eq[OF action_validate_Ok(5)[OF val(1)]] by blast
qed

definition counted :: "CanonicalEncoder \<Rightarrow> bool" where
  "counted e \<longleftrightarrow> enc_bytes e = word_of_nat (length (hashed e))"

lemma counted_raw [intro, simp]: "counted e \<Longrightarrow> counted (raw v e)"
  by (simp add: counted_def raw_def)

lemma counted_new [simp]: "counted (encoder_new domain)"
  by (simp add: encoder_new_def counted_def raw_def)

lemma counted_fields [simp]:
  assumes "counted e"
  shows "counted (enc_byte t b e)" "counted (enc_u16 t w e)" "counted (enc_u32 t x e)"
    "counted (enc_u64 t y e)" "counted (enc_string t s e)" "counted (enc_digest t d e)"
  using assms by (simp_all add: enc_byte_def enc_u16_def enc_u32_def enc_u64_def enc_string_def
      enc_digest_def enc_tag_def)

lemma counted_runtime [simp]: "counted e \<Longrightarrow> counted (enc_runtime t r e)"
  by (cases r) (simp_all add: enc_tag_def)

lemma counted_foldl: "(\<And>e x. counted e \<Longrightarrow> counted (f e x)) \<Longrightarrow> counted e \<Longrightarrow> counted (foldl f e xs)"
  by (induction xs arbitrary: e) simp_all

lemma counted_encode_action: "counted (encode_action d)"
  by (simp add: encode_action_def Let_def enc_salt_def enc_timeout_def enc_plugin_def counted_foldl
      split: option.splits)

section \<open>Properties\<close>

text \<open>
  C9. The canonical action encoding never aliases: for two valid descriptors the bytes that are
  hashed are equal exactly when the descriptors agree in every field, plugins being compared as a
  collection without order.  Absent values, argument order, string boundaries, digest algorithms
  and the kind of runtime are all told apart.
\<close>

theorem action_encoding_injective:
  assumes "wf_action a" "wf_action b" "action_validate a = Ok ()" "action_validate b = Ok ()"
  shows "hashed (encode_action a) = hashed (encode_action b) \<longleftrightarrow> same_action a b"
  using encode_action_inject[OF assms] .

definition zero_digest :: "DigestAlgorithm \<Rightarrow> Digest" where
  "zero_digest alg = \<lparr>algorithm = alg, hash = replicate 32 0, size_bytes = 7\<rparr>"

definition sample_action :: "string option \<Rightarrow> ActionDescriptorV1" where
  "sample_action slt =
     \<lparr>key_format = 1, task_definition = zero_digest Blake3, input_root = zero_digest Blake3,
      working_directory = ''.'', variables = zero_digest Blake3, environment = zero_digest Blake3,
      runtime = Native Linux Amd64 (zero_digest Blake3),
      plugins = [\<lparr>plugin_name = ''shell'', plugin_version = ''1.0'', protocol_version = 2,
                   executable = zero_digest Sha256\<rparr>],
      arguments = [''a'', ''b''], timeout = None, salt = slt\<rparr>"

lemma sample_action_valid:
  "wf_action (sample_action None)" "action_validate (sample_action None) = Inr ()"
  "wf_action (sample_action (Some ''x''))" "action_validate (sample_action (Some ''x'')) = Inr ()"
  by (simp_all add: sample_action_def wf_action_def wf_digest_def zero_digest_def HASH_BYTES_def
      validate_path_def MAX_CACHE_STRING_BYTES_def action_validate_def ACTION_KEY_FORMAT_V1_def
      MAX_CACHE_LIST_ITEMS_def require_algorithm_def validate_plugin_def validate_string_def)

theorem action_encoding_injective_witness:
  "hashed (encode_action (sample_action None)) \<noteq> hashed (encode_action (sample_action (Some ''x'')))"
  using action_encoding_injective[OF sample_action_valid(1,3,2,4)]
  by (simp add: same_action_fields sample_action_def)

text \<open>
  The action digest is computed only for valid descriptors and is the one-shot digest of the
  whole encoding: errors of validation are passed on unchanged, and otherwise the streamed result
  equals \<open>Digest::blake3\<close> of the encoded bytes, size included, for every hash function.
\<close>

theorem action_digest_streams:
  "action_digest blake3 d =
     (case action_validate d of
        Inl e \<Rightarrow> Err e
      | Inr _ \<Rightarrow> Ok (digest_blake3 blake3 (hashed (encode_action d))))"
  using counted_encode_action[of d]
  by (simp add: action_digest_def enc_finish_def digest_blake3_def counted_def split: sum.splits)

text \<open>
  A timeout survives its wire form, and only durations with less than a billion nanoseconds
  are accepted: reading a wire value back succeeds exactly when it is the serialisation of a
  normalised duration or of none.
\<close>

theorem duration_wire_roundtrip:
  "duration_deserialize w = Ok t \<longleftrightarrow>
     w = duration_serialize t \<and> (case t of None \<Rightarrow> True | Some d \<Rightarrow> subsec_nanos d < 1000000000)"
proof (cases w)
  case None
  then show ?thesis by (cases t) (auto simp: duration_deserialize_def duration_serialize_def)
next
  case (Some v)
  then show ?thesis
    by (cases v; cases t)
       (auto simp: duration_deserialize_def duration_serialize_def not_le intro: Duration.equality)
qed

end
