(* ===== verification/Cache_Policy.thy ===== *)
theory Cache_Policy
  imports Prelude
begin

text \<open>
  The small policy types of the cache protocol: access modes (\<^verbatim>\<open>octa-cache-protocol/src/policy.rs\<close>) and the
  two layers of the store (\<^verbatim>\<open>layer.rs\<close>).
\<close>

datatype CacheMode = ReadOnly | WriteOnly | ReadWrite

fun can_read :: "CacheMode \<Rightarrow> bool" where
  "can_read ReadOnly = True"
| "can_read WriteOnly = False"
| "can_read ReadWrite = True"

fun can_write :: "CacheMode \<Rightarrow> bool" where
  "can_write ReadOnly = False"
| "can_write WriteOnly = True"
| "can_write ReadWrite = True"

datatype CacheLayer = LocalLayer | RemoteLayer

end
