(* ===== verification/Cache_Result.thy ===== *)
theory Cache_Result
  imports Cache_Action Cache_Policy
begin

text \<open>
  Results of cached actions (\<^verbatim>\<open>octa-cache-protocol/src/result.rs\<close>), the request envelopes of the
  remote cache (\<^verbatim>\<open>remote.rs\<close>), and the capacity of the local store (\<^verbatim>\<open>capacity.rs\<close>).
  The JSON library is not part of the program: the chunks it writes for a value, and its test for
  the null value, are parameters.
\<close>

section \<open>Capacity\<close>

record LocalCacheCapacity =
  max_bytes :: u64
  high_watermark_bytes :: u64
  low_watermark_bytes :: u64

definition capacity_validate :: "LocalCacheCapacity \<Rightarrow> (CacheProtocolError, unit) result" where
  "capacity_validate c =
     (if low_watermark_bytes c = 0 \<or> low_watermark_bytes c > high_watermark_bytes c
         \<or> high_watermark_bytes c > max_bytes c
      then Err (ConfigurationError
        ''local cache capacity must satisfy 0 < low watermark <= high watermark <= maximum'')
      else Ok ())"

definition capacity_new :: "u64 \<Rightarrow> u64 \<Rightarrow> u64 \<Rightarrow> (CacheProtocolError, LocalCacheCapacity) result" where
  "capacity_new mx high low =
     (let capacity = \<lparr>max_bytes = mx, high_watermark_bytes = high, low_watermark_bytes = low\<rparr> in
      and_then (capacity_validate capacity) (\<lambda>_. Ok capacity))"

section \<open>Blob descriptors\<close>

datatype BlobEncoding = Identity | ZstdV1

record BlobDescriptor =
  digest :: Digest
  encoding :: BlobEncoding
  encoded_size_bytes :: u64
  expanded_size_bytes :: u64
  entry_count :: u64

definition blob_validate :: "BlobDescriptor \<Rightarrow> (CacheProtocolError, unit) result" where
  "blob_validate b =
     (if algorithm (digest b) \<noteq> Blake3
        then Err (ResultError ''output bundle must use the native BLAKE3 digest'')
      else if size_bytes (digest b) \<noteq> expanded_size_bytes b
        then Err (ResultError ''output bundle digest size differs from expanded size'')
      else if encoded_size_bytes b = 0 \<or> expanded_size_bytes b = 0 \<or> entry_count b = 0
        then Err (ResultError ''output bundle sizes and entry count must be greater than zero'')
      else if encoding b = Identity \<and> encoded_size_bytes b \<noteq> expanded_size_bytes b
        then Err (ResultError ''identity-encoded bundle sizes must match'')
      else Ok ())"

section \<open>Measuring a serialised value\<close>

record BoundedCounter =
  counter_bytes :: u64
  counter_maximum :: u64
  exceeded :: bool

definition counter_new :: "nat \<Rightarrow> BoundedCounter" where
  "counter_new maximum = \<lparr>counter_bytes = 0, counter_maximum = word_of_nat maximum, exceeded = False\<rparr>"

definition counter_write :: "BoundedCounter \<Rightarrow> u8 list \<Rightarrow> (BoundedCounter, BoundedCounter) result" where
  "counter_write w buffer =
     (case checked_add (counter_bytes w) (word_of_nat (length buffer)) of
        None \<Rightarrow> Err (w\<lparr>exceeded := True\<rparr>)
      | Some next_bytes \<Rightarrow>
          if next_bytes > counter_maximum w then Err (w\<lparr>exceeded := True\<rparr>)
          else Ok (w\<lparr>counter_bytes := next_bytes\<rparr>))"

text \<open>The serialiser hands its output to the counter chunk by chunk and stops at the first error.\<close>

definition measure_json :: "u8 list list \<Rightarrow> nat \<Rightarrow> string \<Rightarrow> (CacheProtocolError, unit) result" where
  "measure_json chunks maximum kind =
     (case try_fold counter_write (counter_new maximum) chunks of
        Inl _ \<Rightarrow> Err (ResultError (kind @ '' exceeds '' @ decimal maximum @ '' bytes''))
      | Inr _ \<Rightarrow> Ok ())"

section \<open>Action results\<close>

record CachedArtifact =
  artifact_name :: string
  artifact_path :: RelativePath
  content_type :: "string option"

record CachedReport =
  report_name :: string
  report_path :: RelativePath
  report_format :: string

definition ACTION_RESULT_VERSION_V1 :: u16 where "ACTION_RESULT_VERSION_V1 = 1"

record 'v ActionResultV1 =
  result_version :: u16
  action :: Digest
  output_bundle :: "BlobDescriptor option"
  stdout :: "string option"
  task_outputs :: "(string \<times> 'v) list"
  artifacts :: "CachedArtifact list"
  reports :: "CachedReport list"

definition validate_result_string :: "string \<Rightarrow> string \<Rightarrow> (CacheProtocolError, unit) result" where
  "validate_result_string kind value =
     (if value = [] then Err (ResultError (kind @ '' must not be empty''))
      else if length value > MAX_CACHE_STRING_BYTES
        then Err (ResultError (kind @ '' exceeds '' @ decimal MAX_CACHE_STRING_BYTES @ '' UTF-8 bytes''))
      else if has_control value then Err (ResultError (kind @ '' must not contain control characters''))
      else Ok ())"

definition validate_task_output :: "('v \<Rightarrow> bool) \<Rightarrow> string \<times> 'v \<Rightarrow> (CacheProtocolError, unit) result" where
  "validate_task_output is_null output =
     and_then (validate_result_string ''task output name'' (fst output)) (\<lambda>_.
       if is_null (snd output)
       then Err (ResultError (''task output '' @ quoted (fst output) @ '' must contain a concrete public value''))
       else Ok ())"

definition validate_artifact :: "CachedArtifact \<Rightarrow> (CacheProtocolError, unit) result" where
  "validate_artifact artifact =
     and_then (validate_result_string ''artifact name'' (artifact_name artifact)) (\<lambda>_.
       if is_root (artifact_path artifact)
       then Err (ResultError ''artifact path must not be the workspace root'')
       else case content_type artifact of
         None \<Rightarrow> Ok () | Some ct \<Rightarrow> validate_result_string ''artifact content type'' ct)"

definition validate_report :: "CachedReport \<Rightarrow> (CacheProtocolError, unit) result" where
  "validate_report report =
     and_then (validate_result_string ''report name'' (report_name report)) (\<lambda>_.
     and_then (validate_result_string ''report format'' (report_format report)) (\<lambda>_.
       if is_root (report_path report)
       then Err (ResultError ''report path must not be the workspace root'')
       else Ok ()))"

record 'v json_writer =
  json_is_null :: "'v \<Rightarrow> bool"
  json_metadata :: "'v ActionResultV1 \<Rightarrow> u8 list list"
  json_result :: "'v ActionResultV1 \<Rightarrow> u8 list list"

definition result_validate :: "'v json_writer \<Rightarrow> 'v ActionResultV1 \<Rightarrow> (CacheProtocolError, unit) result" where
  "result_validate json r =
     (if result_version r \<noteq> ACTION_RESULT_VERSION_V1
        then Err (ResultError (''unsupported result version '' @ decimal (unat (result_version r))))
      else if algorithm (action r) \<noteq> Blake3 then Err (ResultError ''action identity must use BLAKE3'')
      else
        and_then (case output_bundle r of
            Some bundle \<Rightarrow> blob_validate bundle
          | None \<Rightarrow>
              if artifacts r \<noteq> [] \<or> reports r \<noteq> []
              then Err (ResultError ''artifacts and reports require an output bundle'') else Ok ()) (\<lambda>_.
        if length (artifacts r) > MAX_CACHE_LIST_ITEMS \<or> length (reports r) > MAX_CACHE_LIST_ITEMS
          then Err (ResultError (''artifact and report lists are limited to '' @
                 decimal MAX_CACHE_LIST_ITEMS @ '' items''))
        else if (case stdout r of None \<Rightarrow> False | Some v \<Rightarrow> length v > MAX_ACTION_RESULT_METADATA_BYTES)
          then Err (ResultError (''stdout exceeds '' @ decimal MAX_ACTION_RESULT_METADATA_BYTES @ '' UTF-8 bytes''))
        else
          and_then (try_each (validate_task_output (json_is_null json)) (task_outputs r)) (\<lambda>_.
          and_then (try_each validate_artifact (artifacts r)) (\<lambda>_.
          and_then (try_each validate_report (reports r)) (\<lambda>_.
          and_then (measure_json (json_metadata json r) MAX_ACTION_RESULT_METADATA_BYTES ''result metadata'') (\<lambda>_.
          measure_json (json_result json r) MAX_ACTION_RESULT_WIRE_BYTES ''action result''))))))"

section \<open>Remote requests\<close>

definition REMOTE_CACHE_PROTOCOL_V1 :: u16 where "REMOTE_CACHE_PROTOCOL_V1 = 1"

definition validate_version :: "u16 \<Rightarrow> (CacheProtocolError, unit) result" where
  "validate_version version =
     (if version \<noteq> REMOTE_CACHE_PROTOCOL_V1
      then Err (ConfigurationError (''unsupported remote cache protocol version '' @ decimal (unat version)))
      else Ok ())"

definition validate_blobs :: "BlobDescriptor list \<Rightarrow> (CacheProtocolError, unit) result" where
  "validate_blobs blobs =
     (if length blobs > MAX_CACHE_LIST_ITEMS
      then Err (ConfigurationError (''remote blob batches are limited to '' @ decimal MAX_CACHE_LIST_ITEMS @ '' items''))
      else try_each blob_validate blobs)"

record FindMissingBlobsRequestV1 =
  find_protocol_version :: u16
  find_blobs :: "BlobDescriptor list"

definition find_request_validate :: "FindMissingBlobsRequestV1 \<Rightarrow> (CacheProtocolError, unit) result" where
  "find_request_validate q =
     and_then (validate_version (find_protocol_version q)) (\<lambda>_. validate_blobs (find_blobs q))"

record FindMissingBlobsResponseV1 =
  missing_protocol_version :: u16
  missing :: "BlobDescriptor list"

definition find_response_validate :: "FindMissingBlobsResponseV1 \<Rightarrow> (CacheProtocolError, unit) result" where
  "find_response_validate q =
     and_then (validate_version (missing_protocol_version q)) (\<lambda>_. validate_blobs (missing q))"

record 'v WriteActionRequestV1 =
  write_protocol_version :: u16
  write_namespace :: string
  write_result :: "'v ActionResultV1"

definition write_request_validate ::
    "'v json_writer \<Rightarrow> 'v WriteActionRequestV1 \<Rightarrow> (CacheProtocolError, unit) result" where
  "write_request_validate json q =
     and_then (validate_version (write_protocol_version q)) (\<lambda>_.
     and_then (validate_namespace (write_namespace q)) (\<lambda>_.
       result_validate json (write_result q)))"

section \<open>Lemmas\<close>

lemma counter_write_Ok:
  assumes "length buffer < 2 ^ 64"
  shows "counter_write w buffer = Inr w' \<longleftrightarrow>
    unat (counter_bytes w) + length buffer \<le> unat (counter_maximum w) \<and>
    w' = w\<lparr>counter_bytes := word_of_nat (unat (counter_bytes w) + length buffer)\<rparr>"
proof -
  have len: "unat (word_of_nat (length buffer) :: u64) = length buffer"
    using assms by (simp add: unat_of_nat)
  have "checked_add (counter_bytes w) (word_of_nat (length buffer)) =
      (if unat (counter_bytes w) + length buffer < 2 ^ 64
       then Some (word_of_nat (unat (counter_bytes w) + length buffer)) else None)"
    using len by (simp add: checked_add_def)
  moreover have "unat (counter_maximum w) < 2 ^ 64" using unat_less[of "counter_maximum w"] by simp
  moreover have "unat (word_of_nat (unat (counter_bytes w) + length buffer) :: u64) =
      unat (counter_bytes w) + length buffer" if "unat (counter_bytes w) + length buffer < 2 ^ 64"
    using that by (simp add: unat_of_nat del: of_nat_add)
  ultimately show ?thesis
    by (auto simp: counter_write_def word_less_nat_alt not_less split: option.splits if_splits)
qed

lemma counter_fold_Ok:
  assumes "\<forall>c \<in> set chunks. length c < 2 ^ 64"
  shows "is_ok (try_fold counter_write w chunks) \<longleftrightarrow>
    chunks = [] \<or> unat (counter_bytes w) + sum_list (map length chunks) \<le> unat (counter_maximum w)"
  using assms
proof (induction chunks arbitrary: w)
  case (Cons c chunks)
  have c: "length c < 2 ^ 64" using Cons.prems by simp
  show ?case
  proof (cases "counter_write w c")
    case (Inl e)
    then have "\<not> unat (counter_bytes w) + length c \<le> unat (counter_maximum w)"
      using counter_write_Ok[OF c, of w] by (metis Inl_Inr_False)
    then show ?thesis using Inl by simp
  next
    case (Inr w')
    then have w': "unat (counter_bytes w) + length c \<le> unat (counter_maximum w)"
      "w' = w\<lparr>counter_bytes := word_of_nat (unat (counter_bytes w) + length c)\<rparr>"
      using counter_write_Ok[OF c, of w] by simp_all
    have "unat (counter_maximum w) < 2 ^ 64" using unat_less[of "counter_maximum w"] by simp
    then have "unat (counter_bytes w') = unat (counter_bytes w) + length c"
      using w' by (simp add: unat_of_nat del: of_nat_add)
    then show ?thesis using Cons.IH[of w'] Cons.prems Inr w' by auto
  qed
qed simp

lemma measure_json_Ok:
  assumes "\<forall>c \<in> set chunks. length c < 2 ^ 64" "maximum < 2 ^ 64"
  shows "measure_json chunks maximum kind = Inr () \<longleftrightarrow> sum_list (map length chunks) \<le> maximum"
proof -
  have "unat (word_of_nat maximum :: u64) = maximum" using assms(2) by (simp add: unat_of_nat)
  then have "is_ok (try_fold counter_write (counter_new maximum) chunks) \<longleftrightarrow>
      sum_list (map length chunks) \<le> maximum"
    using counter_fold_Ok[OF assms(1), of "counter_new maximum"] by (auto simp: counter_new_def)
  then show ?thesis by (simp add: measure_json_def is_ok_def split: sum.splits)
qed

lemma blob_validate_Ok [result_simps]:
  "blob_validate b = Inr u \<longleftrightarrow>
     algorithm (digest b) = Blake3 \<and> size_bytes (digest b) = expanded_size_bytes b \<and>
     encoded_size_bytes b \<noteq> 0 \<and> expanded_size_bytes b \<noteq> 0 \<and> entry_count b \<noteq> 0 \<and>
     (encoding b = Identity \<longrightarrow> encoded_size_bytes b = expanded_size_bytes b)"
  by (auto simp: blob_validate_def)

section \<open>Properties\<close>


definition sample_json :: "bool json_writer" where
  "sample_json = \<lparr>json_is_null = Not, json_metadata = (\<lambda>r. [[91], [93]]), json_result = (\<lambda>r. [[123], [125]])\<rparr>"

definition sample_result :: "bool ActionResultV1" where
  "sample_result =
     \<lparr>result_version = 1, action = zero_digest Blake3, output_bundle = None, stdout = Some ''done'',
      task_outputs = [(''version'', True)], artifacts = [], reports = []\<rparr>"


end
