(* ===== verification/Bundle.thy ===== *)
theory Bundle
  imports Cache_Result
begin

text \<open>
  Output bundles (\<^verbatim>\<open>octa-cache/src/bundle\<close>): limits and descriptors (\<^verbatim>\<open>mod.rs\<close>), the bounded hashing
  writer and the canonical layout of entries (\<^verbatim>\<open>pack.rs\<close>), and verified extraction into an empty
  staging directory (\<^verbatim>\<open>extract.rs\<close>).  A byte source is anything that satisfies the reader interface
  below; the Zstandard decoder, the hash function and the filesystem outside of the staging directory
  are parameters.  The staging directory is a list of the entries created in it, latest first, with
  the host's resolution of paths through symlinks.
\<close>

section \<open>Limits and descriptors\<close>

definition BUNDLE_MAGIC :: "u8 list" where "BUNDLE_MAGIC = as_bytes ''OCTABND1''"
definition DIRECTORY_TAG :: u8 where "DIRECTORY_TAG = 1"
definition FILE_TAG :: u8 where "FILE_TAG = 2"
definition SYMLINK_TAG :: u8 where "SYMLINK_TAG = 3"

lemmas tag_defs = DIRECTORY_TAG_def FILE_TAG_def SYMLINK_TAG_def

datatype BundleEncoding = IdentityBundle | ZstdBundle int

definition bundle_encoding_validate :: "BundleEncoding \<Rightarrow> (CacheError, BundleEncoding) result" where
  "bundle_encoding_validate enc =
     (case enc of
        ZstdBundle level \<Rightarrow>
          if \<not> (- 7 \<le> level \<and> level \<le> 22)
          then Err (Configuration ''Zstandard level must be between -7 and 22'') else Ok enc
      | IdentityBundle \<Rightarrow> Ok enc)"

fun encoding_protocol :: "BundleEncoding \<Rightarrow> BlobEncoding" where
  "encoding_protocol IdentityBundle = Identity"
| "encoding_protocol (ZstdBundle level) = ZstdV1"

record BundleLimits =
  max_encoded_bytes :: u64
  max_expanded_bytes :: u64
  max_entries :: u64
  max_path_bytes :: nat
  max_file_bytes :: u64
  max_compression_ratio :: u64
  read_buffer_bytes :: nat

definition default_limits :: BundleLimits where
  "default_limits =
     \<lparr>max_encoded_bytes = 20 * 1024 * 1024 * 1024, max_expanded_bytes = 100 * 1024 * 1024 * 1024,
      max_entries = 1000000, max_path_bytes = 16 * 1024, max_file_bytes = 20 * 1024 * 1024 * 1024,
      max_compression_ratio = 1000, read_buffer_bytes = 1024 * 1024\<rparr>"

definition limits_validate :: "BundleLimits \<Rightarrow> (CacheError, BundleLimits) result" where
  "limits_validate l =
     (if max_encoded_bytes l = 0 \<or> max_expanded_bytes l = 0 \<or> max_entries l = 0 \<or> max_path_bytes l = 0
         \<or> max_file_bytes l = 0 \<or> max_compression_ratio l = 0
      then Err (Configuration
        ''bundle size, entry, path, file, and compression-ratio limits must be nonzero'')
      else if \<not> (4 * 1024 \<le> read_buffer_bytes l \<and> read_buffer_bytes l \<le> 16 * 1024 * 1024)
      then Err (Configuration ''bundle read_buffer_bytes must be between 4 KiB and 16 MiB'')
      else Ok l)"

definition validate_descriptor_limits :: "BlobDescriptor \<Rightarrow> BundleLimits \<Rightarrow> (CacheError, unit) result" where
  "validate_descriptor_limits d l =
     (if encoded_size_bytes d > max_encoded_bytes l \<or> expanded_size_bytes d > max_expanded_bytes l
         \<or> entry_count d > max_entries l
      then Err (Limit ''bundle descriptor exceeds configured size or entry limits'')
      else if expanded_size_bytes d > saturating_mul (encoded_size_bytes d) (max_compression_ratio l)
      then Err (Limit ''bundle exceeds the configured compression ratio'')
      else Ok ())"

definition limits_validate_descriptor :: "BundleLimits \<Rightarrow> BlobDescriptor \<Rightarrow> (CacheError, unit) result" where
  "limits_validate_descriptor l d =
     and_then (limits_validate l) (\<lambda>_.
     and_then (lift_protocol (blob_validate d)) (\<lambda>_.
       validate_descriptor_limits d l))"

section \<open>Entries\<close>

datatype OutputKind = Directory | File bool "u8 list" | Symlink string bool

type_synonym entry = "RelativePath \<times> OutputKind"

definition u8_from_bool :: "bool \<Rightarrow> u8" where "u8_from_bool b = (if b then 1 else 0)"

fun kind_tag :: "OutputKind \<Rightarrow> u8" where
  "kind_tag Directory = DIRECTORY_TAG"
| "kind_tag (File x c) = FILE_TAG"
| "kind_tag (Symlink t d) = SYMLINK_TAG"

text \<open>The fields of one entry, in the order they are written.\<close>

fun kind_chunks :: "OutputKind \<Rightarrow> u8 list list" where
  "kind_chunks Directory = []"
| "kind_chunks (File x c) = [[u8_from_bool x], u64_be (word_of_nat (length c)), c]"
| "kind_chunks (Symlink t d) = [[u8_from_bool d], u32_be (word_of_nat (length t)), as_bytes t]"

definition entry_chunks :: "entry \<Rightarrow> u8 list list" where
  "entry_chunks e =
     [[kind_tag (snd e)], u32_be (word_of_nat (length (fst e))), as_bytes (fst e)] @ kind_chunks (snd e)"

section \<open>Readers\<close>

text \<open>The operations of a byte source: fill a buffer exactly, and read at most one byte.\<close>

record 'r read_ops =
  op_read_exact :: "'r \<Rightarrow> nat \<Rightarrow> (io_kind, u8 list \<times> 'r) result"
  op_read_byte :: "'r \<Rightarrow> (io_kind, u8 option \<times> 'r) result"

text \<open>The counting reader limits an in-memory source to the size a descriptor declares.\<close>

record CountingReader =
  counting_inner :: "u8 list"
  counting_bytes :: u64
  counting_maximum :: u64

definition counting_new :: "u8 list \<Rightarrow> u64 \<Rightarrow> CountingReader" where
  "counting_new inner maximum = \<lparr>counting_inner = inner, counting_bytes = 0, counting_maximum = maximum\<rparr>"

definition counting_read :: "CountingReader \<Rightarrow> nat \<Rightarrow> (io_kind, u8 list \<times> CountingReader) result" where
  "counting_read r n =
     (let remaining = saturating_sub (counting_maximum r) (counting_bytes r) in
      if remaining = 0 \<and> n \<noteq> 0 then (if counting_inner r = [] then Ok ([], r) else Err OtherIo)
      else
        let got = take (min (unat remaining) n) (counting_inner r) in
        Ok (got, r\<lparr>counting_inner := drop (length got) (counting_inner r),
                   counting_bytes := counting_bytes r + word_of_nat (length got)\<rparr>))"

lemma counting_read_length: "counting_read r n = Inr (got, r') \<Longrightarrow> length got \<le> n"
  by (auto simp: counting_read_def Let_def split: if_splits)

text \<open>\<open>Read::read_exact\<close>: read until the buffer is full or the source ends.\<close>

function counting_read_exact :: "CountingReader \<Rightarrow> nat \<Rightarrow> (io_kind, u8 list \<times> CountingReader) result" where
  "counting_read_exact r n =
     (if n = 0 then Ok ([], r)
      else case counting_read r n of
        Inl e \<Rightarrow> Err e
      | Inr (got, r') \<Rightarrow>
          if got = [] then Err UnexpectedEof
          else and_then (counting_read_exact r' (n - length got)) (\<lambda>(more, r''). Ok (got @ more, r'')))"
  by pat_completeness auto
termination
  by (relation "measure snd") (auto dest: counting_read_length)

declare counting_read_exact.simps [simp del]

definition counting_read_byte :: "CountingReader \<Rightarrow> (io_kind, u8 option \<times> CountingReader) result" where
  "counting_read_byte r =
     and_then (counting_read r 1) (\<lambda>(got, r'). Ok (case got of [] \<Rightarrow> None | b # _ \<Rightarrow> Some b, r'))"

definition counting_ops :: "CountingReader read_ops" where
  "counting_ops = \<lparr>op_read_exact = counting_read_exact, op_read_byte = counting_read_byte\<rparr>"

definition verify_complete :: "CountingReader \<Rightarrow> (CacheError, unit) result" where
  "verify_complete r =
     (if counting_bytes r \<noteq> counting_maximum r
      then Err (InvalidBundle (''bundle encoded size is '' @ decimal (unat (counting_bytes r)) @
             '', expected '' @ decimal (unat (counting_maximum r))))
      else Ok ())"

text \<open>A source that is a byte slice, as the output of a decoder is.\<close>

definition slice_ops :: "u8 list read_ops" where
  "slice_ops =
     \<lparr>op_read_exact = (\<lambda>bs n. if n \<le> length bs then Ok (take n bs, drop n bs) else Err UnexpectedEof),
      op_read_byte = (\<lambda>bs. Ok (case bs of [] \<Rightarrow> (None, []) | b # r \<Rightarrow> (Some b, r)))\<rparr>"

record 'r CanonicalReader =
  reader_inner :: 'r
  reader_hashed :: "u8 list"
  reader_bytes :: u64
  reader_maximum :: u64

definition reader_new :: "'r \<Rightarrow> u64 \<Rightarrow> 'r CanonicalReader" where
  "reader_new inner maximum =
     \<lparr>reader_inner = inner, reader_hashed = [], reader_bytes = 0, reader_maximum = maximum\<rparr>"

definition read_exact ::
    "'r read_ops \<Rightarrow> 'r CanonicalReader \<Rightarrow> nat \<Rightarrow> (CacheError, u8 list \<times> 'r CanonicalReader) result" where
  "read_exact ops r n =
     (case checked_add (reader_bytes r) (word_of_nat n) of
        None \<Rightarrow> Err (Limit ''expanded bundle size overflowed'')
      | Some next_bytes \<Rightarrow>
          if next_bytes > reader_maximum r then Err (Limit ''expanded bundle exceeds configured limit'')
          else case op_read_exact ops (reader_inner r) n of
            Inl e \<Rightarrow> Err (BundleSource e)
          | Inr (bs, inner) \<Rightarrow>
              Ok (bs, r\<lparr>reader_inner := inner, reader_hashed := reader_hashed r @ bs, reader_bytes := next_bytes\<rparr>))"

definition read_u8 :: "'r read_ops \<Rightarrow> 'r CanonicalReader \<Rightarrow> (CacheError, u8 \<times> 'r CanonicalReader) result" where
  "read_u8 ops r = and_then (read_exact ops r 1) (\<lambda>(bs, r'). Ok (hd bs, r'))"

definition read_bool :: "'r read_ops \<Rightarrow> 'r CanonicalReader \<Rightarrow> (CacheError, bool \<times> 'r CanonicalReader) result" where
  "read_bool ops r =
     and_then (read_u8 ops r) (\<lambda>(b, r').
       if b = 0 then Ok (False, r') else if b = 1 then Ok (True, r')
       else Err (InvalidBundle (''invalid bundle boolean '' @ decimal (unat b))))"

definition read_u32 :: "'r read_ops \<Rightarrow> 'r CanonicalReader \<Rightarrow> (CacheError, u32 \<times> 'r CanonicalReader) result" where
  "read_u32 ops r = and_then (read_exact ops r 4) (\<lambda>(bs, r'). Ok (word_of_nat (from_be bs), r'))"

definition read_u64 :: "'r read_ops \<Rightarrow> 'r CanonicalReader \<Rightarrow> (CacheError, u64 \<times> 'r CanonicalReader) result" where
  "read_u64 ops r = and_then (read_exact ops r 8) (\<lambda>(bs, r'). Ok (word_of_nat (from_be bs), r'))"

definition read_string ::
    "'r read_ops \<Rightarrow> 'r CanonicalReader \<Rightarrow> nat \<Rightarrow> (CacheError, string \<times> 'r CanonicalReader) result" where
  "read_string ops r maximum =
     and_then (read_u32 ops r) (\<lambda>(len, r').
       if len = 0 \<or> unat len > maximum
       then Err (Limit (''bundle string length '' @ decimal (unat len) @ '' is outside configured bounds''))
       else and_then (read_exact ops r' (unat len)) (\<lambda>(bs, r'').
         let s = map char_of_byte bs in
         if utf8_valid s then Ok (s, r'') else Err (InvalidBundle ''bundle paths must be UTF-8'')))"

definition read_relative_path ::
    "'r read_ops \<Rightarrow> 'r CanonicalReader \<Rightarrow> nat \<Rightarrow> (CacheError, RelativePath \<times> 'r CanonicalReader) result" where
  "read_relative_path ops r maximum =
     and_then (read_string ops r maximum) (\<lambda>(value, r').
     and_then (lift_protocol (relative_path_new value)) (\<lambda>path.
       if is_root path then Err (InvalidBundle ''bundle entries cannot replace the workspace root'')
       else Ok (path, r')))"

definition read_symlink_target ::
    "'r read_ops \<Rightarrow> 'r CanonicalReader \<Rightarrow> RelativePath \<Rightarrow> nat \<Rightarrow> (CacheError, string \<times> 'r CanonicalReader) result" where
  "read_symlink_target ops r link maximum =
     and_then (read_string ops r maximum) (\<lambda>(target, r').
       case validate_symlink_text link target of
         Inl reason \<Rightarrow> Err (InvalidBundle reason)
       | Inr _ \<Rightarrow> Ok (target, r'))"

text \<open>
  The copy loop.  The buffer of validated limits is never empty; with an empty buffer the loop
  would not make progress, and the equation stops there.
\<close>

function copy_exact ::
    "'r read_ops \<Rightarrow> 'r CanonicalReader \<Rightarrow> nat \<Rightarrow> nat \<Rightarrow> bool \<Rightarrow> u8 list
     \<Rightarrow> (CacheError, u8 list \<times> 'r CanonicalReader) result" where
  "copy_exact ops r remaining buffer_len cancelled out =
     (if remaining = 0 \<or> buffer_len = 0 then Ok (out, r)
      else if cancelled then Err CacheCancelled
      else case read_exact ops r (min remaining buffer_len) of
        Inl e \<Rightarrow> Err e
      | Inr (bs, r') \<Rightarrow>
          copy_exact ops r' (remaining - min remaining buffer_len) buffer_len cancelled (out @ bs))"
  by pat_completeness auto
termination
  by (relation "measure (\<lambda>(ops, r, remaining, buffer_len, cancelled, out). remaining)") auto

declare copy_exact.simps [simp del]

definition read_optional_byte ::
    "'r read_ops \<Rightarrow> 'r CanonicalReader \<Rightarrow> (CacheError, u8 option \<times> 'r CanonicalReader) result" where
  "read_optional_byte ops r =
     (case op_read_byte ops (reader_inner r) of
        Inl e \<Rightarrow> Err (BundleSource e)
      | Inr (None, inner) \<Rightarrow> Ok (None, r\<lparr>reader_inner := inner\<rparr>)
      | Inr (Some b, inner) \<Rightarrow>
          Ok (Some b, r\<lparr>reader_inner := inner, reader_hashed := reader_hashed r @ [b],
                       reader_bytes := reader_bytes r + 1\<rparr>))"

definition reader_finish :: "(u8 list \<Rightarrow> u8 list) \<Rightarrow> 'r CanonicalReader \<Rightarrow> Digest \<times> u64" where
  "reader_finish blake3 r = (digest_new Blake3 (blake3 (reader_hashed r)) (reader_bytes r), reader_bytes r)"

section \<open>The staging directory\<close>

text \<open>
  Entries created below the staging directory, keyed by their physical path, and the writes that a
  chain of symlinks has carried outside of it.
\<close>

type_synonym entries = "(string list \<times> OutputKind) list"

record staging =
  inside :: entries
  outside :: entries

datatype place = Inside "string list" | Outside

text \<open>
  Path resolution of the host: every component but the last is followed, symlinks included; a
  parent component at the staging directory itself leaves it.  The host gives up after a bounded
  number of symlinks.
\<close>

definition SYMLINK_LIMIT :: nat where "SYMLINK_LIMIT = 40"

function walk :: "nat \<Rightarrow> entries \<Rightarrow> string list \<Rightarrow> Component list \<Rightarrow> (io_kind, place) result" where
  "walk fuel fs dir [] = Ok (Inside dir)"
| "walk fuel fs dir (CurDir # cs) = walk fuel fs dir cs"
| "walk fuel fs dir (RootDir # cs) = Ok Outside"
| "walk fuel fs dir (ParentDir # cs) = (if dir = [] then Ok Outside else walk fuel fs (butlast dir) cs)"
| "walk fuel fs dir (Normal n # cs) =
     (case map_of fs (dir @ [n]) of
        None \<Rightarrow> Err NotFound
      | Some Directory \<Rightarrow> walk fuel fs (dir @ [n]) cs
      | Some (File x c) \<Rightarrow> Err OtherIo
      | Some (Symlink t d) \<Rightarrow>
          if fuel = 0 then Err OtherIo else walk (fuel - 1) fs dir (components t @ cs))"
  by pat_completeness auto
termination
  by (relation "measures [\<lambda>(fuel, fs, dir, cs). fuel, \<lambda>(fuel, fs, dir, cs). length cs]") auto

definition host_parent :: "entries \<Rightarrow> string list \<Rightarrow> (io_kind, place) result" where
  "host_parent fs p = walk SYMLINK_LIMIT fs [] (map Normal (butlast p))"

text \<open>
  \<open>symlink_metadata\<close>: the kind of the entry itself.  What lies outside of the staging directory is
  given by the environment.
\<close>

definition symlink_metadata ::
    "(string list \<Rightarrow> OutputKind option) \<Rightarrow> entries \<Rightarrow> string list \<Rightarrow> (io_kind, OutputKind) result" where
  "symlink_metadata env fs p =
     (if p = [] then Ok Directory
      else and_then (host_parent fs p) (\<lambda>pl.
        case (case pl of Inside dir \<Rightarrow> map_of fs (dir @ [last p]) | Outside \<Rightarrow> env p) of
          None \<Rightarrow> Err NotFound
        | Some kind \<Rightarrow> Ok kind))"

record staging_dir =
  staging_absolute :: bool
  staging_real_directory :: bool
  staging_entries :: entries

definition check_empty_staging :: "staging_dir \<Rightarrow> (CacheError, unit) result" where
  "check_empty_staging d =
     (if \<not> staging_absolute d then Err (Configuration ''bundle staging directory must be absolute'')
      else if \<not> staging_real_directory d then Err (Configuration ''bundle staging path must be a real directory'')
      else if staging_entries d \<noteq> [] then Err (Configuration ''bundle staging directory must be empty'')
      else Ok ())"

text \<open>
  \<open>create_dir_all\<close> for the parent of an output root: create every missing ancestor.  Output roots do
  not overlap, so no ancestor of a root is ever an entry of another root.
\<close>

definition create_dir_step :: "entries \<Rightarrow> string list \<Rightarrow> (CacheError, entries) result" where
  "create_dir_step fs p =
     (case map_of fs p of
        None \<Rightarrow> Ok ((p, Directory) # fs)
      | Some Directory \<Rightarrow> Ok fs
      | Some _ \<Rightarrow> Err (Io ''create staged output root parent'' (join [slash] p) OtherIo))"

definition create_dir_all :: "entries \<Rightarrow> string list \<Rightarrow> (CacheError, entries) result" where
  "create_dir_all fs p = try_fold create_dir_step fs (map (\<lambda>i. take i p) [1..<Suc (length p)])"

definition prepare_entry_parent ::
    "(string list \<Rightarrow> OutputKind option) \<Rightarrow> staging \<Rightarrow> string list \<Rightarrow> bool \<Rightarrow> (CacheError, staging) result" where
  "prepare_entry_parent env fs destination output_root =
     (let parent = butlast destination in
      if output_root
      then and_then (create_dir_all (inside fs) parent) (\<lambda>es. Ok (fs\<lparr>inside := es\<rparr>))
      else case symlink_metadata env (inside fs) parent of
        Inl NotFound \<Rightarrow> Err (InvalidBundle ''bundle entry has no explicit parent directory'')
      | Inl e \<Rightarrow> Err (Io ''inspect staged output parent'' (join [slash] parent) e)
      | Inr Directory \<Rightarrow> Ok fs
      | Inr _ \<Rightarrow> Err (InvalidBundle ''bundle entry descends through a non-directory parent''))"

text \<open>
  Creating the entry at the place its parent resolves to.  \<open>create_dir\<close> and \<open>symlink\<close> fail over an
  existing entry; \<open>File::create\<close> replaces an existing file and follows an existing symlink.  The model
  reads the content of a file before it creates the file, the code in the other order; this shows
  only in which of two errors is reported when both occur.
\<close>

fun file_target :: "nat \<Rightarrow> entries \<Rightarrow> string list \<Rightarrow> string \<Rightarrow> (io_kind, place) result" where
  "file_target fuel fs dir n =
     (case map_of fs (dir @ [n]) of
        None \<Rightarrow> Ok (Inside (dir @ [n]))
      | Some (File x c) \<Rightarrow> Ok (Inside (dir @ [n]))
      | Some Directory \<Rightarrow> Err OtherIo
      | Some (Symlink t d) \<Rightarrow>
          (case fuel of 0 \<Rightarrow> Err OtherIo
           | Suc fuel' \<Rightarrow>
             (case components t of [] \<Rightarrow> Err OtherIo
              | c # cs \<Rightarrow>
                and_then (walk SYMLINK_LIMIT fs dir (butlast (c # cs))) (\<lambda>pl.
                case (pl, last (c # cs)) of
                  (Outside, _) \<Rightarrow> Ok Outside
                | (Inside dir', Normal m) \<Rightarrow> file_target fuel' fs dir' m
                | (Inside _, _) \<Rightarrow> Err OtherIo))))"

declare file_target.simps [simp del]

definition create_entry :: "staging \<Rightarrow> string list \<Rightarrow> OutputKind \<Rightarrow> (CacheError, staging) result" where
  "create_entry fs destination kind =
     (case host_parent (inside fs) destination of
        Inl e \<Rightarrow> Err (Io ''create staged output'' (join [slash] destination) e)
      | Inr Outside \<Rightarrow> Ok (fs\<lparr>outside := (destination, kind) # outside fs\<rparr>)
      | Inr (Inside dir) \<Rightarrow>
          (case kind of
             File x c \<Rightarrow>
               (case file_target SYMLINK_LIMIT (inside fs) dir (last destination) of
                  Inl e \<Rightarrow> Err (Io ''create staged output file'' (join [slash] destination) e)
                | Inr Outside \<Rightarrow> Ok (fs\<lparr>outside := (destination, kind) # outside fs\<rparr>)
                | Inr (Inside q) \<Rightarrow> Ok (fs\<lparr>inside := (q, kind) # inside fs\<rparr>))
           | _ \<Rightarrow>
             if map_of (inside fs) (dir @ [last destination]) \<noteq> None
             then Err (Io ''create staged output'' (join [slash] destination) AlreadyExists)
             else Ok (fs\<lparr>inside := (dir @ [last destination], kind) # inside fs\<rparr>)))"

section \<open>Extraction\<close>

record 'r extract_state =
  xs_reader :: "'r CanonicalReader"
  xs_previous :: "RelativePath option"
  xs_root :: "nat option"
  xs_staging :: staging

text \<open>The root an entry belongs to: the current one, or the next one if the entry is its root.\<close>

definition advance_root ::
    "RelativePath list \<Rightarrow> nat option \<Rightarrow> RelativePath \<Rightarrow> (CacheError, nat \<times> bool) result" where
  "advance_root roots current path =
     (case current of
        None \<Rightarrow>
          if roots \<noteq> [] \<and> hd roots = path then Ok (0, True)
          else Err (InvalidBundle (''bundle does not begin declared output root '' @ quoted (hd roots)))
      | Some index \<Rightarrow>
          if contains (roots ! index) path then Ok (index, False)
          else if index + 1 < length roots then
            (if path = roots ! (index + 1) then Ok (index + 1, True)
             else Err (InvalidBundle (''bundle does not begin declared output root '' @ quoted (roots ! (index + 1)))))
          else Err (InvalidBundle (''bundle path '' @ quoted path @ '' is outside declared output roots'')))"

definition read_kind ::
    "'r read_ops \<Rightarrow> BundleLimits \<Rightarrow> bool \<Rightarrow> 'r CanonicalReader \<Rightarrow> u8 \<Rightarrow> RelativePath
     \<Rightarrow> (CacheError, OutputKind \<times> 'r CanonicalReader) result" where
  "read_kind ops limits cancelled r tag path =
     (if tag = DIRECTORY_TAG then Ok (Directory, r)
      else if tag = FILE_TAG then
        and_then (read_bool ops r) (\<lambda>(executable, r1).
        and_then (read_u64 ops r1) (\<lambda>(len, r2).
          if len > max_file_bytes limits
          then Err (Limit (''bundle file '' @ quoted path @ '' exceeds the configured limit''))
          else and_then (copy_exact ops r2 (unat len) (read_buffer_bytes limits) cancelled []) (\<lambda>(content, r3).
            Ok (File executable content, r3))))
      else if tag = SYMLINK_TAG then
        and_then (read_bool ops r) (\<lambda>(directory, r1).
        and_then (read_symlink_target ops r1 path (max_path_bytes limits)) (\<lambda>(target, r2).
          Ok (Symlink target directory, r2)))
      else Err (InvalidBundle (''unknown bundle entry tag '' @ decimal (unat tag))))"

definition extract_entry ::
    "(string list \<Rightarrow> OutputKind option) \<Rightarrow> 'r read_ops \<Rightarrow> BundleLimits \<Rightarrow> RelativePath list \<Rightarrow> bool \<Rightarrow> 'r extract_state
     \<Rightarrow> (CacheError, 'r extract_state) result" where
  "extract_entry env ops limits roots cancelled st =
     and_then (check_cancelled cancelled) (\<lambda>_.
     and_then (read_u8 ops (xs_reader st)) (\<lambda>(tag, r1).
     and_then (read_relative_path ops r1 (max_path_bytes limits)) (\<lambda>(path, r2).
     if (case xs_previous st of None \<Rightarrow> False | Some previous \<Rightarrow> compare_paths previous path \<noteq> Less)
     then Err (InvalidBundle ''bundle paths must be unique and follow canonical tree order'')
     else
       and_then (advance_root roots (xs_root st) path) (\<lambda>(index, output_root).
       let destination = join_relative [] path in
       and_then (prepare_entry_parent env (xs_staging st) destination output_root) (\<lambda>fs.
       and_then (read_kind ops limits cancelled r2 tag path) (\<lambda>(kind, r3).
       and_then (create_entry fs destination kind) (\<lambda>fs'.
         Ok \<lparr>xs_reader = r3, xs_previous = Some path, xs_root = Some index, xs_staging = fs'\<rparr>)))))))"

fun extract_entries ::
    "(string list \<Rightarrow> OutputKind option) \<Rightarrow> 'r read_ops \<Rightarrow> BundleLimits \<Rightarrow> RelativePath list \<Rightarrow> bool \<Rightarrow> nat \<Rightarrow> 'r extract_state
     \<Rightarrow> (CacheError, 'r extract_state) result" where
  "extract_entries env ops limits roots cancelled 0 st = Ok st"
| "extract_entries env ops limits roots cancelled (Suc n) st =
     and_then (extract_entry env ops limits roots cancelled st) (extract_entries env ops limits roots cancelled n)"

definition extract_canonical ::
    "(string list \<Rightarrow> OutputKind option) \<Rightarrow> (u8 list \<Rightarrow> u8 list) \<Rightarrow> 'r read_ops \<Rightarrow> 'r \<Rightarrow> BlobDescriptor \<Rightarrow> RelativePath list \<Rightarrow> BundleLimits \<Rightarrow> bool
     \<Rightarrow> (CacheError, staging \<times> 'r) result" where
  "extract_canonical env blake3 ops inner d roots limits cancelled =
     and_then (read_exact ops (reader_new inner (max_expanded_bytes limits)) 8) (\<lambda>(magic, r0).
     if magic \<noteq> BUNDLE_MAGIC then Err (InvalidBundle ''unknown bundle magic or version'')
     else
       and_then (extract_entries env ops limits roots cancelled (unat (entry_count d))
           \<lparr>xs_reader = r0, xs_previous = None, xs_root = None, xs_staging = \<lparr>inside = [], outside = []\<rparr>\<rparr>) (\<lambda>st.
       let completed_roots = (case xs_root st of None \<Rightarrow> 0 | Some index \<Rightarrow> index + 1) in
       if completed_roots \<noteq> length roots
       then Err (InvalidBundle (''bundle does not contain declared output root '' @ quoted (roots ! completed_roots)))
       else
         and_then (read_optional_byte ops (xs_reader st)) (\<lambda>(trailing, r).
         if trailing \<noteq> None then Err (InvalidBundle ''bundle has trailing canonical bytes'')
         else
           let (actual, expanded) = reader_finish blake3 r in
           if expanded \<noteq> expanded_size_bytes d \<or> actual \<noteq> digest d
           then Err (InvalidBundle ''bundle expanded size or content digest differs from its descriptor'')
           else Ok (xs_staging st, reader_inner r))))"

text \<open>
  The Zstandard decoder is a parameter: for the encoded bytes it yields the decoded bytes and the
  number of encoded bytes it has taken from the counting reader, or an input error.
\<close>

type_synonym zstd_decoder = "u8 list \<Rightarrow> (io_kind, u8 list \<times> nat) result"

definition extract_bundle ::
    "(string list \<Rightarrow> OutputKind option) \<Rightarrow> (u8 list \<Rightarrow> u8 list) \<Rightarrow> zstd_decoder \<Rightarrow> u8 list \<Rightarrow> BlobDescriptor \<Rightarrow> staging_dir \<Rightarrow>
     RelativePath list \<Rightarrow> BundleLimits \<Rightarrow> bool \<Rightarrow> (CacheError, staging) result" where
  "extract_bundle env blake3 zstd reader d stage output_roots limits0 cancelled =
     and_then (limits_validate limits0) (\<lambda>limits.
     and_then (lift_protocol (blob_validate d)) (\<lambda>_.
     and_then (validate_descriptor_limits d limits) (\<lambda>_.
     and_then (check_empty_staging stage) (\<lambda>_.
     and_then (validate_output_roots output_roots) (\<lambda>roots.
     case encoding d of
       Identity \<Rightarrow>
         and_then (extract_canonical env blake3 counting_ops (counting_new reader (encoded_size_bytes d)) d
             roots limits cancelled) (\<lambda>(fs, encoded).
         and_then (verify_complete encoded) (\<lambda>_. Ok fs))
     | ZstdV1 \<Rightarrow>
         (case zstd (take (unat (encoded_size_bytes d)) reader) of
            Inl e \<Rightarrow> Err (BundleSource e)
          | Inr (decoded, consumed) \<Rightarrow>
              and_then (extract_canonical env blake3 slice_ops decoded d roots limits cancelled) (\<lambda>(fs, _).
              and_then (verify_complete \<lparr>counting_inner = drop consumed reader,
                  counting_bytes = word_of_nat consumed, counting_maximum = encoded_size_bytes d\<rparr>) (\<lambda>_.
                Ok fs))))))))"

section \<open>The canonical layout\<close>

definition kind_bytes :: "OutputKind \<Rightarrow> u8 list" where
  "kind_bytes k = concat (kind_chunks k)"

definition entry_bytes :: "entry \<Rightarrow> u8 list" where
  "entry_bytes e = concat (entry_chunks e)"

definition canonical_bytes :: "entry list \<Rightarrow> u8 list" where
  "canonical_bytes es = BUNDLE_MAGIC @ concat (map entry_bytes es)"

lemma entry_bytes_parts:
  "entry_bytes (p, k) = kind_tag k # string_bytes p @ kind_bytes k"
  by (simp add: entry_bytes_def entry_chunks_def kind_bytes_def string_bytes_def)

definition path_ok :: "BundleLimits \<Rightarrow> RelativePath \<Rightarrow> bool" where
  "path_ok l p \<longleftrightarrow> validate_path p = Inr () \<and> p \<noteq> ''.'' \<and> utf8_valid p \<and>
     length p \<le> max_path_bytes l \<and> length p < 2 ^ 32"

fun kind_ok :: "BundleLimits \<Rightarrow> RelativePath \<Rightarrow> OutputKind \<Rightarrow> bool" where
  "kind_ok l p Directory = True"
| "kind_ok l p (File x c) \<longleftrightarrow> length c \<le> unat (max_file_bytes l)"
| "kind_ok l p (Symlink t d) \<longleftrightarrow> validate_symlink_text p t = Inr () \<and> utf8_valid t \<and>
     length t \<le> max_path_bytes l \<and> length t < 2 ^ 32"

definition entry_ok :: "BundleLimits \<Rightarrow> entry \<Rightarrow> bool" where
  "entry_ok l e \<longleftrightarrow> path_ok l (fst e) \<and> kind_ok l (fst e) (snd e)"

lemma from_be_words [simp]:
  "from_be (u32_be v) = unat v" "from_be (u64_be w) = unat w"
  using unat_less[of v] unat_less[of w]
  by (simp_all add: u32_be_def u64_be_def from_be_to_be)

lemma words_from_be:
  "length bs = 4 \<Longrightarrow> u32_be (word_of_nat (from_be bs)) = bs"
  "length bs = 8 \<Longrightarrow> u64_be (word_of_nat (from_be bs)) = bs"
  using from_be_less[of bs] to_be_from_be[of bs]
  by (simp_all add: u32_be_def u64_be_def unat_of_nat)

lemma u8_bool [simp]: "u8_from_bool b = 0 \<longleftrightarrow> \<not> b" "u8_from_bool b = 1 \<longleftrightarrow> b"
  by (simp_all add: u8_from_bool_def)

lemma map_char_as_bytes [simp]: "map char_of_byte (as_bytes s) = s"
  by (simp add: as_bytes_def comp_def)

lemma as_bytes_map_char [simp]: "as_bytes (map char_of_byte bs) = bs"
  by (simp add: as_bytes_def comp_def)

section \<open>Placement of entries\<close>

text \<open>What extraction does with an entry once it is read: order, root and staging.\<close>

type_synonym place_state = "RelativePath option \<times> nat option \<times> staging"

definition place_entry ::
    "(string list \<Rightarrow> OutputKind option) \<Rightarrow> RelativePath list \<Rightarrow> place_state \<Rightarrow> entry \<Rightarrow>
     (CacheError, place_state) result" where
  "place_entry env roots st e =
     (case st of (prev, current, fs) \<Rightarrow>
      if (case prev of None \<Rightarrow> False | Some previous \<Rightarrow> compare_paths previous (fst e) \<noteq> Less)
      then Err (InvalidBundle ''bundle paths must be unique and follow canonical tree order'')
      else
        and_then (advance_root roots current (fst e)) (\<lambda>(index, output_root).
        and_then (prepare_entry_parent env fs (join_relative [] (fst e)) output_root) (\<lambda>fs1.
        and_then (create_entry fs1 (join_relative [] (fst e)) (snd e)) (\<lambda>fs2.
          Ok (Some (fst e), Some index, fs2)))))"

abbreviation place_entries ::
    "(string list \<Rightarrow> OutputKind option) \<Rightarrow> RelativePath list \<Rightarrow> entry list \<Rightarrow> (CacheError, place_state) result" where
  "place_entries env roots es \<equiv>
     try_fold (place_entry env roots) (None, None, \<lparr>inside = [], outside = []\<rparr>) es"

definition roots_done :: "nat option \<Rightarrow> nat" where
  "roots_done current = (case current of None \<Rightarrow> 0 | Some index \<Rightarrow> index + 1)"

text \<open>Entries in strict tree order, all of them below a declared root.\<close>

definition tree_ordered :: "entry list \<Rightarrow> bool" where
  "tree_ordered es \<longleftrightarrow> sorted_wrt (\<lambda>a b. compare_paths (fst a) (fst b) = Less) es"

lemma advance_root_Ok:
  assumes "advance_root roots current p = Inr (i, o')" "roots_done current \<le> length roots"
  shows "i < length roots \<and> contains (roots ! i) p \<and>
    (roots_done current = Suc i \<and> \<not> o' \<or> roots_done current = i \<and> p = roots ! i \<and> o')"
  using assms by (auto simp: advance_root_def roots_done_def contains_def hd_conv_nth
      split: option.splits if_splits)

lemma place_entry_Ok:
  "place_entry env roots (prev, current, fs) e = Inr st' \<longleftrightarrow>
     (\<forall>q. prev = Some q \<longrightarrow> compare_paths q (fst e) = Less) \<and>
     (\<exists>i out' fs1 fs2. advance_root roots current (fst e) = Inr (i, out') \<and>
        prepare_entry_parent env fs (join_relative [] (fst e)) out' = Inr fs1 \<and>
        create_entry fs1 (join_relative [] (fst e)) (snd e) = Inr fs2 \<and> st' = (Some (fst e), Some i, fs2))"
  by (auto simp: place_entry_def result_simps split: option.splits)

lemma compare_paths_less_trans:
  "compare_paths p q = Less \<Longrightarrow> compare_paths q r = Less \<Longrightarrow> compare_paths p r = Less"
  by (auto simp: compare_paths_ord)

lemma place_entries_structure:
  assumes "place_entries env roots es = Inr (prev, current, fs)"
  shows "tree_ordered es \<and> prev = (if es = [] then None else Some (fst (last es))) \<and>
    roots_done current \<le> length roots \<and>
    (\<forall>e \<in> set es. \<exists>i < roots_done current. contains (roots ! i) (fst e)) \<and>
    (\<forall>i < roots_done current. roots ! i \<in> fst ` set es)"
  using assms
proof (induction es arbitrary: prev current fs rule: rev_induct)
  case Nil
  then show ?case by (auto simp: tree_ordered_def roots_done_def)
next
  case (snoc e es)
  obtain prev0 current0 fs0 where st: "place_entries env roots es = Inr (prev0, current0, fs0)"
    and step: "place_entry env roots (prev0, current0, fs0) e = Inr (prev, current, fs)"
    using snoc.prems by (auto simp: try_fold_append result_simps)
  note IH = snoc.IH[OF st]
  obtain i out' where i: "advance_root roots current0 (fst e) = Inr (i, out')"
    "prev = Some (fst e)" "current = Some i" and ord: "\<And>q. prev0 = Some q \<Longrightarrow> compare_paths q (fst e) = Less"
    using step by (auto simp: place_entry_Ok)
  note adv = advance_root_Ok[OF i(1)]
  have "\<forall>a \<in> set es. compare_paths (fst a) (fst e) = Less"
  proof (cases "es = []")
    case False
    then have "compare_paths (fst (last es)) (fst e) = Less" using IH ord by simp
    moreover have "a = last es \<or> compare_paths (fst a) (fst (last es)) = Less" if "a \<in> set es" for a
      using IH that sorted_wrt_last[of "\<lambda>a b. compare_paths (fst a) (fst b) = Less" es a]
      by (simp add: tree_ordered_def)
    ultimately show ?thesis using compare_paths_less_trans by blast
  qed simp
  then have "tree_ordered (es @ [e])" using IH by (simp add: tree_ordered_def sorted_wrt_append)
  moreover have "roots_done current = Suc i" by (simp add: roots_done_def i(3))
  moreover have "\<forall>a \<in> set (es @ [e]). \<exists>j < Suc i. contains (roots ! j) (fst a)"
    using IH adv by (metis Un_iff empty_iff insert_iff lessI less_SucI list.set(1,2) set_append)
  moreover have "\<forall>j < Suc i. roots ! j \<in> fst ` set (es @ [e])"
    using IH adv by (auto simp: less_Suc_eq)
  ultimately show ?case using adv i IH by simp
qed

section \<open>The reader interface\<close>

text \<open>
  What extraction relies on of a byte source: filling a buffer takes exactly the next bytes, it
  succeeds while enough bytes are left, and the end is reported only when nothing is left.  A source
  is clean when nothing lies behind its limit; its slack is the part of the limit it cannot use.
\<close>

locale byte_source =
  fixes ops :: "'r read_ops"
    and remaining :: "'r \<Rightarrow> u8 list"
    and clean :: "'r \<Rightarrow> bool"
    and slack :: "'r \<Rightarrow> int"
  assumes exact_Ok: "op_read_exact ops r n = Inr (bs, r') \<Longrightarrow>
      length bs = n \<and> remaining r = bs @ remaining r' \<and> (clean r \<longleftrightarrow> clean r') \<and> slack r' = slack r"
    and exact_total: "n \<le> length (remaining r) \<Longrightarrow> \<exists>bs r'. op_read_exact ops r n = Inr (bs, r')"
    and byte_None: "op_read_byte ops r = Inr (None, r') \<Longrightarrow> r' = r \<and> remaining r = [] \<and> clean r"
    and byte_end: "clean r \<Longrightarrow> remaining r = [] \<Longrightarrow> op_read_byte ops r = Inr (None, r)"
begin

text \<open>The bytes a canonical reader has still to see, and its bookkeeping invariant.\<close>

definition left :: "'r CanonicalReader \<Rightarrow> u8 list" where
  "left r = remaining (reader_inner r)"

definition consumed :: "'r CanonicalReader \<Rightarrow> u8 list \<Rightarrow> 'r CanonicalReader \<Rightarrow> bool" where
  "consumed r bs r' \<longleftrightarrow>
     left r = bs @ left r' \<and> reader_hashed r' = reader_hashed r @ bs \<and>
     reader_maximum r' = reader_maximum r \<and> unat (reader_bytes r') = unat (reader_bytes r) + length bs \<and>
     (unat (reader_bytes r) \<le> unat (reader_maximum r) \<longrightarrow> unat (reader_bytes r') \<le> unat (reader_maximum r)) \<and>
     (clean (reader_inner r) \<longleftrightarrow> clean (reader_inner r')) \<and> slack (reader_inner r') = slack (reader_inner r)"

lemma consumed_refl: "consumed r [] r"
  by (simp add: consumed_def)

lemma consumed_trans: "consumed r as r' \<Longrightarrow> consumed r' bs r'' \<Longrightarrow> consumed r (as @ bs) r''"
  by (auto simp: consumed_def)

lemma read_exact_Ok:
  assumes "read_exact ops r n = Inr (bs, r')" "n < 2 ^ 64"
  shows "length bs = n \<and> consumed r bs r'"
proof -
  obtain nb inner where nb: "checked_add (reader_bytes r) (word_of_nat n) = Some nb"
    "nb \<le> reader_maximum r" and rd: "op_read_exact ops (reader_inner r) n = Inr (bs, inner)"
    and r': "r' = r\<lparr>reader_inner := inner, reader_hashed := reader_hashed r @ bs, reader_bytes := nb\<rparr>"
    using assms(1) by (auto simp: read_exact_def not_less split: option.splits if_splits sum.splits)
  have "unat nb = unat (reader_bytes r) + n"
    using nb(1) assms(2) by (simp add: checked_add_Some unat_of_nat)
  then show ?thesis
    using exact_Ok[OF rd] nb(2) r' by (auto simp: consumed_def left_def word_le_nat_alt)
qed

lemma read_exact_total:
  assumes "n \<le> length (left r)" "unat (reader_bytes r) + n \<le> unat (reader_maximum r)"
  shows "\<exists>r'. read_exact ops r n = Inr (take n (left r), r')"
proof -
  obtain bs inner where rd: "op_read_exact ops (reader_inner r) n = Inr (bs, inner)"
    using exact_total assms(1) unfolding left_def by blast
  have bs: "bs = take n (left r)" using exact_Ok[OF rd] by (simp add: left_def)
  have lim: "unat (reader_maximum r) < 2 ^ 64" using unat_less[of "reader_maximum r"] by simp
  then have un: "unat (word_of_nat n :: u64) = n" using assms(2) by (simp add: unat_of_nat)
  define nb :: u64 where "nb = reader_bytes r + word_of_nat n"
  have unb: "unat nb = unat (reader_bytes r) + n"
    using assms(2) lim un unfolding nb_def by (simp add: unat_word_ariths)
  then have "checked_add (reader_bytes r) (word_of_nat n) = Some nb"
    using un by (simp add: checked_add_Some)
  moreover have "\<not> nb > reader_maximum r" using unb assms(2) by (simp add: word_less_nat_alt)
  ultimately show ?thesis using rd bs by (simp add: read_exact_def)
qed

text \<open>Soundness of each read: what was consumed is the encoding of what is returned.\<close>

lemma read_u8_Ok: "read_u8 ops r = Inr (b, r') \<Longrightarrow> consumed r [b] r'"
  using read_exact_Ok[of r 1] by (fastforce simp: read_u8_def result_simps length_Suc_conv)

lemma read_bool_Ok: "read_bool ops r = Inr (b, r') \<Longrightarrow> consumed r [u8_from_bool b] r'"
  using read_u8_Ok[of r] by (auto simp: read_bool_def result_simps u8_from_bool_def split: if_splits)

lemma read_u32_Ok: "read_u32 ops r = Inr (v, r') \<Longrightarrow> consumed r (u32_be v) r'"
  using read_exact_Ok[of r 4] by (force simp: read_u32_def result_simps words_from_be)

lemma read_u64_Ok: "read_u64 ops r = Inr (v, r') \<Longrightarrow> consumed r (u64_be v) r'"
  using read_exact_Ok[of r 8] by (force simp: read_u64_def result_simps words_from_be)

lemma read_string_Ok:
  assumes "read_string ops r maximum = Inr (s, r')"
  shows "consumed r (string_bytes s) r' \<and> s \<noteq> [] \<and> length s \<le> maximum \<and> utf8_valid s \<and> length s < 2 ^ 32"
proof -
  obtain len r1 bs where len: "read_u32 ops r = Inr (len, r1)" "len \<noteq> 0" "unat len \<le> maximum"
    and bs: "read_exact ops r1 (unat len) = Inr (bs, r')" "s = map char_of_byte bs" "utf8_valid s"
    using assms by (auto simp: read_string_def result_simps Let_def split: if_splits)
  have lt: "unat len < 2 ^ 32" using unat_less[of len] by simp
  have c: "length bs = unat len" "consumed r1 bs r'" using read_exact_Ok[OF bs(1)] lt by auto
  have "string_bytes s = u32_be len @ bs" using bs(2) c(1) by (simp add: string_bytes_def)
  then show ?thesis
    using consumed_trans[OF read_u32_Ok[OF len(1)] c(2)] bs len c(1) lt by (auto simp: unat_eq_0)
qed

lemma read_relative_path_Ok:
  assumes "read_relative_path ops r (max_path_bytes l) = Inr (p, r')"
  shows "consumed r (string_bytes p) r' \<and> path_ok l p"
proof -
  have "read_string ops r (max_path_bytes l) = Inr (p, r')" "validate_path p = Inr ()" "p \<noteq> ''.''"
    using assms by (auto simp: read_relative_path_def result_simps relative_path_new_Ok
        is_root_def split: if_splits)
  then show ?thesis using read_string_Ok by (simp add: path_ok_def)
qed

lemma read_symlink_target_Ok:
  assumes "read_symlink_target ops r link (max_path_bytes l) = Inr (t, r')"
  shows "consumed r (string_bytes t) r' \<and> kind_ok l link (Symlink t d)"
proof -
  have "read_string ops r (max_path_bytes l) = Inr (t, r')" "validate_symlink_text link t = Inr ()"
    using assms by (auto simp: read_symlink_target_def result_simps)
  then show ?thesis using read_string_Ok by simp
qed

lemma copy_exact_Ok:
  "copy_exact ops r n buffer_len cancelled out = Inr (out', r') \<Longrightarrow> 0 < buffer_len \<Longrightarrow> n < 2 ^ 64 \<Longrightarrow>
     \<exists>bs. out' = out @ bs \<and> length bs = n \<and> consumed r bs r'"
proof (induction n arbitrary: r out rule: less_induct)
  case (less n)
  show ?case
  proof (cases "n = 0")
    case True
    then show ?thesis using less.prems consumed_refl by (simp add: copy_exact.simps)
  next
    case False
    let ?k = "min n buffer_len"
    obtain bs r1 where rd: "read_exact ops r ?k = Inr (bs, r1)"
      and rest: "copy_exact ops r1 (n - ?k) buffer_len cancelled (out @ bs) = Inr (out', r')"
      using less.prems(1,2) False
      by (simp add: copy_exact.simps[of ops r n] split: if_splits sum.splits prod.splits)
    have k: "?k < 2 ^ 64" "n - ?k < n" "n - ?k < 2 ^ 64" using less.prems(2,3) False by auto
    obtain bs' where "out' = (out @ bs) @ bs'" "length bs' = n - ?k" "consumed r1 bs' r'"
      using less.IH[OF k(2) rest less.prems(2) k(3)] by blast
    then show ?thesis using read_exact_Ok[OF rd k(1)] consumed_trans[of r bs r1 bs' r'] by auto
  qed
qed

lemma read_kind_Ok:
  assumes "read_kind ops l cancelled r tag p = Inr (k, r')" "0 < read_buffer_bytes l"
  shows "consumed r (kind_bytes k) r' \<and> kind_tag k = tag \<and> kind_ok l p k"
proof -
  consider "tag = DIRECTORY_TAG" | "tag = FILE_TAG" "tag \<noteq> DIRECTORY_TAG"
    | "tag = SYMLINK_TAG" "tag \<noteq> DIRECTORY_TAG" "tag \<noteq> FILE_TAG"
    using assms(1) by (auto simp: read_kind_def split: if_splits)
  then show ?thesis
  proof cases
    case 1
    then show ?thesis using assms(1) consumed_refl by (auto simp: read_kind_def kind_bytes_def)
  next
    case 2
    then obtain x r1 len r2 c where f: "read_bool ops r = Inr (x, r1)" "read_u64 ops r1 = Inr (len, r2)"
      "len \<le> max_file_bytes l" "copy_exact ops r2 (unat len) (read_buffer_bytes l) cancelled [] = Inr (c, r')"
      "k = File x c"
      using assms(1) by (auto simp: read_kind_def result_simps not_less split: if_splits)
    have lt: "unat len < 2 ^ 64" using unat_less[of len] by simp
    obtain bs where "c = [] @ bs" "length bs = unat len" "consumed r2 bs r'"
      using copy_exact_Ok[OF f(4) assms(2) lt] by blast
    then show ?thesis
      using consumed_trans[OF read_bool_Ok[OF f(1)] consumed_trans[OF read_u64_Ok[OF f(2)]], of c r'] f 2
      by (simp add: kind_bytes_def word_le_nat_alt)
  next
    case 3
    then obtain d r1 t where f: "read_bool ops r = Inr (d, r1)"
      "read_symlink_target ops r1 p (max_path_bytes l) = Inr (t, r')" "k = Symlink t d"
      using assms(1) by (auto simp: read_kind_def result_simps split: if_splits)
    then show ?thesis
      using consumed_trans[OF read_bool_Ok[OF f(1)]] read_symlink_target_Ok[OF f(2), of d] 3
      by (auto simp: kind_bytes_def string_bytes_def)
  qed
qed

abbreviation placed :: "'r extract_state \<Rightarrow> place_state" where
  "placed st \<equiv> (xs_previous st, xs_root st, xs_staging st)"

lemma extract_entry_Ok:
  assumes "extract_entry env ops l roots cancelled st = Inr st'" "0 < read_buffer_bytes l"
  shows "\<exists>e. consumed (xs_reader st) (entry_bytes e) (xs_reader st') \<and> entry_ok l e \<and>
    place_entry env roots (placed st) e = Inr (placed st')"
proof -
  obtain tag r1 p r2 index oroot fs k r3 fs' where
    t: "read_u8 ops (xs_reader st) = Inr (tag, r1)" and
    p: "read_relative_path ops r1 (max_path_bytes l) = Inr (p, r2)" and
    ord: "\<forall>q. xs_previous st = Some q \<longrightarrow> compare_paths q p = Less" and
    adv: "advance_root roots (xs_root st) p = Inr (index, oroot)" and
    par: "prepare_entry_parent env (xs_staging st) (join_relative [] p) oroot = Inr fs" and
    k: "read_kind ops l cancelled r2 tag p = Inr (k, r3)" and
    cr: "create_entry fs (join_relative [] p) k = Inr fs'" and
    st': "st' = \<lparr>xs_reader = r3, xs_previous = Some p, xs_root = Some index, xs_staging = fs'\<rparr>"
    using assms(1)
    by (auto simp: extract_entry_def result_simps Let_def split: if_splits option.splits)
  note kk = read_kind_Ok[OF k assms(2)] and pp = read_relative_path_Ok[OF p]
  have "consumed (xs_reader st) ([tag] @ string_bytes p @ kind_bytes k) r3"
    using consumed_trans[OF read_u8_Ok[OF t] consumed_trans[of r1 "string_bytes p" r2 "kind_bytes k" r3]] pp kk
    by blast
  then have "consumed (xs_reader st) (entry_bytes (p, k)) (xs_reader st')"
    using kk st' by (simp add: entry_bytes_parts)
  moreover have "place_entry env roots (placed st) (p, k) = Inr (placed st')"
    using ord adv par cr st' by (auto simp: place_entry_Ok)
  ultimately show ?thesis using pp kk by (intro exI[of _ "(p, k)"]) (simp add: entry_ok_def)
qed

lemma extract_entries_Ok:
  assumes "extract_entries env ops l roots cancelled n st = Inr st'" "0 < read_buffer_bytes l"
  shows "\<exists>es. length es = n \<and> consumed (xs_reader st) (concat (map entry_bytes es)) (xs_reader st') \<and>
    (\<forall>e \<in> set es. entry_ok l e) \<and> try_fold (place_entry env roots) (placed st) es = Inr (placed st')"
  using assms
proof (induction n arbitrary: st)
  case 0
  then show ?case using consumed_refl by auto
next
  case (Suc n)
  then obtain st1 where st1: "extract_entry env ops l roots cancelled st = Inr st1"
    "extract_entries env ops l roots cancelled n st1 = Inr st'" by (auto simp: result_simps)
  obtain e where e: "consumed (xs_reader st) (entry_bytes e) (xs_reader st1)" "entry_ok l e"
    "place_entry env roots (placed st) e = Inr (placed st1)"
    using extract_entry_Ok[OF st1(1) Suc.prems(2)] by blast
  obtain es where es: "length es = n" "consumed (xs_reader st1) (concat (map entry_bytes es)) (xs_reader st')"
    "\<forall>e \<in> set es. entry_ok l e" "try_fold (place_entry env roots) (placed st1) es = Inr (placed st')"
    using Suc.IH[OF st1(2) Suc.prems(2)] by blast
  show ?case
    using consumed_trans[OF e(1) es(2)] e es by (intro exI[of _ "e # es"]) simp
qed

text \<open>What an accepted canonical stream is.\<close>

lemma extract_canonical_Ok:
  assumes "extract_canonical env blake3 ops inner d roots l cancelled = Inr (fs, inner')"
    "0 < read_buffer_bytes l"
  shows "\<exists>es prev current. remaining inner = canonical_bytes es \<and> remaining inner' = [] \<and> clean inner \<and>
    slack inner' = slack inner \<and> length es = unat (entry_count d) \<and> (\<forall>e \<in> set es. entry_ok l e) \<and>
    place_entries env roots es = Inr (prev, current, fs) \<and> roots_done current = length roots \<and>
    length (canonical_bytes es) \<le> unat (max_expanded_bytes l) \<and>
    digest d = digest_blake3 blake3 (canonical_bytes es) \<and>
    unat (expanded_size_bytes d) = length (canonical_bytes es)"
proof -
  obtain magic r0 st r where magic: "read_exact ops (reader_new inner (max_expanded_bytes l)) 8 = Inr (magic, r0)"
    "magic = BUNDLE_MAGIC" and
    ents: "extract_entries env ops l roots cancelled (unat (entry_count d))
      \<lparr>xs_reader = r0, xs_previous = None, xs_root = None, xs_staging = \<lparr>inside = [], outside = []\<rparr>\<rparr> = Inr st" and
    rdone: "roots_done (xs_root st) = length roots" and
    last: "read_optional_byte ops (xs_reader st) = Inr (None, r)" and
    fin: "reader_bytes r = expanded_size_bytes d"
      "digest_new Blake3 (blake3 (reader_hashed r)) (reader_bytes r) = digest d" and
    res: "fs = xs_staging st" "inner' = reader_inner r"
    using assms(1)
    by (auto simp: extract_canonical_def result_simps Let_def roots_done_def reader_finish_def
        split: if_splits option.splits)
  have r: "reader_hashed r = reader_hashed (xs_reader st)" "reader_bytes r = reader_bytes (xs_reader st)"
    "left (xs_reader st) = []" "remaining inner' = []" "clean (reader_inner (xs_reader st))"
    "inner' = reader_inner (xs_reader st)"
    using last byte_None[of "reader_inner (xs_reader st)"] res(2)
    by (auto simp: read_optional_byte_def left_def split: sum.splits option.splits prod.splits)
  obtain es where es: "length es = unat (entry_count d)"
    "consumed r0 (concat (map entry_bytes es)) (xs_reader st)" "\<forall>e \<in> set es. entry_ok l e"
    "try_fold (place_entry env roots) (None, None, \<lparr>inside = [], outside = []\<rparr>) es = Inr (placed st)"
    using extract_entries_Ok[OF ents assms(2)] by auto
  have "consumed (reader_new inner (max_expanded_bytes l)) (canonical_bytes es) (xs_reader st)"
    using consumed_trans[OF _ es(2)] read_exact_Ok[OF magic(1)] magic(2) by (simp add: canonical_bytes_def)
  then have c: "remaining inner = canonical_bytes es" "reader_hashed r = canonical_bytes es"
    "unat (reader_bytes r) = length (canonical_bytes es)" "unat (reader_bytes r) \<le> unat (max_expanded_bytes l)"
    "clean inner" "slack inner' = slack inner"
    using r by (auto simp: consumed_def reader_new_def left_def)
  then have "digest d = digest_blake3 blake3 (canonical_bytes es)"
    using fin(2) by (simp add: digest_blake3_def flip: c(3))
  then show ?thesis using c r es rdone fin(1) res by (intro exI[of _ es]) auto
qed

text \<open>Completeness: a reader that is fed an encoding reads it back.\<close>

definition feed :: "'r CanonicalReader \<Rightarrow> u8 list \<Rightarrow> bool" where
  "feed r bs \<longleftrightarrow> left r = bs \<and> unat (reader_bytes r) + length bs \<le> unat (reader_maximum r) \<and>
     clean (reader_inner r)"

lemma feed_consumed: "feed r (as @ bs) \<Longrightarrow> consumed r as r' \<Longrightarrow> feed r' bs"
  by (auto simp: feed_def consumed_def)

lemma read_exact_feed:
  assumes "feed r (as @ bs)"
  shows "\<exists>r'. read_exact ops r (length as) = Inr (as, r') \<and> feed r' bs"
proof -
  have "length as \<le> length (left r)" "unat (reader_bytes r) + length as \<le> unat (reader_maximum r)"
    "take (length as) (left r) = as"
    using assms by (auto simp: feed_def)
  then obtain r' where r': "read_exact ops r (length as) = Inr (as, r')"
    using read_exact_total[of "length as" r] by auto
  moreover have "length as < 2 ^ 64"
    using assms unat_less[of "reader_maximum r"] by (simp add: feed_def)
  ultimately show ?thesis using read_exact_Ok feed_consumed[OF assms] by blast
qed

lemma read_u8_feed: "feed r (b # bs) \<Longrightarrow> \<exists>r'. read_u8 ops r = Inr (b, r') \<and> feed r' bs"
  using read_exact_feed[of r "[b]" bs] by (auto simp: read_u8_def)

lemma read_bool_feed: "feed r (u8_from_bool b # bs) \<Longrightarrow> \<exists>r'. read_bool ops r = Inr (b, r') \<and> feed r' bs"
  using read_u8_feed[of r "u8_from_bool b" bs] by (cases b) (auto simp: read_bool_def u8_from_bool_def)

lemma read_u32_feed: "feed r (u32_be v @ bs) \<Longrightarrow> \<exists>r'. read_u32 ops r = Inr (v, r') \<and> feed r' bs"
  using read_exact_feed[of r "u32_be v" bs] by (auto simp: read_u32_def)

lemma read_u64_feed: "feed r (u64_be v @ bs) \<Longrightarrow> \<exists>r'. read_u64 ops r = Inr (v, r') \<and> feed r' bs"
  using read_exact_feed[of r "u64_be v" bs] by (auto simp: read_u64_def)

lemma read_string_feed:
  assumes "feed r (string_bytes s @ bs)" "s \<noteq> []" "length s \<le> maximum" "length s < 2 ^ 32" "utf8_valid s"
  shows "\<exists>r'. read_string ops r maximum = Inr (s, r') \<and> feed r' bs"
proof -
  have len: "unat (word_of_nat (length s) :: u32) = length s" using assms(4) by (simp add: unat_of_nat)
  obtain r1 where r1: "read_u32 ops r = Inr (word_of_nat (length s), r1)" "feed r1 (as_bytes s @ bs)"
    using read_u32_feed[of r "word_of_nat (length s)"] assms(1) by (auto simp: string_bytes_def)
  obtain r2 where r2: "read_exact ops r1 (length s) = Inr (as_bytes s, r2)" "feed r2 bs"
    using read_exact_feed[OF r1(2)] by auto
  have "(word_of_nat (length s) :: u32) \<noteq> 0" using len assms(2) by (metis length_0_conv unat_0)
  then show ?thesis using r1 r2 len assms by (simp add: read_string_def)
qed

lemma read_relative_path_feed:
  assumes "feed r (string_bytes p @ bs)" "path_ok l p"
  shows "\<exists>r'. read_relative_path ops r (max_path_bytes l) = Inr (p, r') \<and> feed r' bs"
proof -
  have "p \<noteq> []" using assms(2) by (auto simp: path_ok_def validate_path_def)
  then obtain r' where "read_string ops r (max_path_bytes l) = Inr (p, r')" "feed r' bs"
    using read_string_feed[OF assms(1)] assms(2) by (auto simp: path_ok_def)
  then show ?thesis
    using assms(2) by (simp add: read_relative_path_def path_ok_def relative_path_new_def lift_protocol_def is_root_def)
qed

lemma copy_exact_feed:
  "feed r (bs @ cs) \<Longrightarrow> 0 < buffer_len \<Longrightarrow>
     \<exists>r'. copy_exact ops r (length bs) buffer_len False out = Inr (out @ bs, r') \<and> feed r' cs"
proof (induction "length bs" arbitrary: r bs out rule: less_induct)
  case less
  show ?case
  proof (cases "bs = []")
    case True
    then show ?thesis using less.prems by (simp add: copy_exact.simps)
  next
    case False
    let ?k = "min (length bs) buffer_len"
    have len: "length (take ?k bs) = ?k" "length (drop ?k bs) = length bs - ?k" by simp_all
    have "feed r (take ?k bs @ drop ?k bs @ cs)"
      using less.prems(1) by (metis append.assoc append_take_drop_id)
    then obtain r1 where r1: "read_exact ops r ?k = Inr (take ?k bs, r1)" "feed r1 (drop ?k bs @ cs)"
      using read_exact_feed len(1) by metis
    have "length (drop ?k bs) < length bs" using False less.prems(2) by auto
    from less.hyps[OF this r1(2) less.prems(2), of "out @ take ?k bs"] obtain r' where
      "copy_exact ops r1 (length bs - ?k) buffer_len False (out @ take ?k bs) = Inr (out @ bs, r')" "feed r' cs"
      using len(2) by auto
    then show ?thesis
      using r1(1) False less.prems(2) by (simp add: copy_exact.simps[of ops r "length bs"])
  qed
qed

lemma read_kind_feed:
  assumes "feed r (kind_bytes k @ bs)" "kind_ok l p k" "0 < read_buffer_bytes l"
  shows "\<exists>r'. read_kind ops l False r (kind_tag k) p = Inr (k, r') \<and> feed r' bs"
proof (cases k)
  case Directory
  then show ?thesis using assms by (auto simp: read_kind_def kind_bytes_def)
next
  case (File x c)
  have small: "length c \<le> unat (max_file_bytes l)" using assms(2) File by simp
  then have len: "unat (word_of_nat (length c) :: u64) = length c"
    using unat_less[of "max_file_bytes l"] by (simp add: unat_of_nat)
  obtain r1 where r1: "read_bool ops r = Inr (x, r1)" "feed r1 (u64_be (word_of_nat (length c)) @ c @ bs)"
    using read_bool_feed[of r x] assms(1) File by (auto simp: kind_bytes_def)
  obtain r2 where r2: "read_u64 ops r1 = Inr (word_of_nat (length c), r2)" "feed r2 (c @ bs)"
    using read_u64_feed[OF r1(2)] by blast
  obtain r3 where r3: "copy_exact ops r2 (length c) (read_buffer_bytes l) False [] = Inr (c, r3)" "feed r3 bs"
    using copy_exact_feed[OF r2(2) assms(3), of "[]"] by auto
  have "\<not> word_of_nat (length c) > max_file_bytes l" using small len by (simp add: word_less_nat_alt)
  then show ?thesis using r1 r2 r3 len File by (simp add: read_kind_def tag_defs)
next
  case (Symlink t d)
  have ok: "validate_symlink_text p t = Inr ()" "utf8_valid t" "length t \<le> max_path_bytes l" "length t < 2 ^ 32"
    using assms(2) Symlink by simp_all
  then have "t \<noteq> []" by (auto simp: validate_symlink_text_def)
  obtain r1 where r1: "read_bool ops r = Inr (d, r1)" "feed r1 (string_bytes t @ bs)"
    using read_bool_feed[of r d] assms(1) Symlink by (auto simp: kind_bytes_def string_bytes_def)
  obtain r2 where "read_string ops r1 (max_path_bytes l) = Inr (t, r2)" "feed r2 bs"
    using read_string_feed[OF r1(2) \<open>t \<noteq> []\<close>] ok by blast
  then show ?thesis using r1 ok Symlink by (simp add: read_kind_def tag_defs read_symlink_target_def)
qed

lemma extract_entry_feed:
  assumes "feed (xs_reader st) (entry_bytes e @ bs)" "entry_ok l e" "0 < read_buffer_bytes l"
    "place_entry env roots (placed st) e = Inr tr"
  shows "\<exists>st'. extract_entry env ops l roots False st = Inr st' \<and> placed st' = tr \<and> feed (xs_reader st') bs"
proof -
  obtain p k where e: "e = (p, k)" by force
  have f: "feed (xs_reader st) (kind_tag k # string_bytes p @ kind_bytes k @ bs)"
    using assms(1) e by (simp add: entry_bytes_parts)
  obtain r1 where r1: "read_u8 ops (xs_reader st) = Inr (kind_tag k, r1)"
    "feed r1 (string_bytes p @ kind_bytes k @ bs)"
    using read_u8_feed[OF f] by blast
  obtain r2 where r2: "read_relative_path ops r1 (max_path_bytes l) = Inr (p, r2)" "feed r2 (kind_bytes k @ bs)"
    using read_relative_path_feed[OF r1(2)] assms(2) e by (auto simp: entry_ok_def)
  obtain r3 where r3: "read_kind ops l False r2 (kind_tag k) p = Inr (k, r3)" "feed r3 bs"
    using read_kind_feed[OF r2(2) _ assms(3)] assms(2) e by (auto simp: entry_ok_def)
  obtain i out' fs1 fs2 where pl: "\<forall>q. xs_previous st = Some q \<longrightarrow> compare_paths q p = Less"
    "advance_root roots (xs_root st) p = Inr (i, out')"
    "prepare_entry_parent env (xs_staging st) (join_relative [] p) out' = Inr fs1"
    "create_entry fs1 (join_relative [] p) k = Inr fs2" "tr = (Some p, Some i, fs2)"
    using assms(4) e by (auto simp: place_entry_Ok)
  then show ?thesis
    using r1 r2 r3 by (auto simp: extract_entry_def check_cancelled_def split: option.splits)
qed

lemma extract_entries_feed:
  assumes "feed (xs_reader st) (concat (map entry_bytes es) @ bs)" "\<forall>e \<in> set es. entry_ok l e"
    "0 < read_buffer_bytes l" "try_fold (place_entry env roots) (placed st) es = Inr tr"
  shows "\<exists>st'. extract_entries env ops l roots False (length es) st = Inr st' \<and> placed st' = tr \<and>
    feed (xs_reader st') bs"
  using assms
proof (induction es arbitrary: st)
  case (Cons e es)
  obtain tr1 where tr1: "place_entry env roots (placed st) e = Inr tr1"
    "try_fold (place_entry env roots) tr1 es = Inr tr"
    using Cons.prems(4) by (auto simp: result_simps)
  obtain st1 where st1: "extract_entry env ops l roots False st = Inr st1" "placed st1 = tr1"
    "feed (xs_reader st1) (concat (map entry_bytes es) @ bs)"
    using extract_entry_feed[of st e "concat (map entry_bytes es) @ bs", OF _ _ Cons.prems(3) tr1(1)] Cons.prems(1,2)
    by auto
  from Cons.IH[OF st1(3)] st1 tr1 Cons.prems show ?case by auto
qed auto

lemma magic_length: "length BUNDLE_MAGIC = 8"
  by (simp add: BUNDLE_MAGIC_def)

lemma extract_canonical_total:
  assumes "remaining inner = canonical_bytes es" "clean inner" "\<forall>e \<in> set es. entry_ok l e"
    "length es = unat (entry_count d)" "place_entries env roots es = Inr (prev, current, fs)"
    "roots_done current = length roots" "length (canonical_bytes es) \<le> unat (max_expanded_bytes l)"
    "digest d = digest_blake3 blake3 (canonical_bytes es)"
    "unat (expanded_size_bytes d) = length (canonical_bytes es)" "0 < read_buffer_bytes l"
  shows "\<exists>inner'. extract_canonical env blake3 ops inner d roots l False = Inr (fs, inner') \<and> clean inner'"
proof -
  let ?r = "reader_new inner (max_expanded_bytes l)"
  have f: "feed ?r (BUNDLE_MAGIC @ concat (map entry_bytes es) @ [])"
    using assms(1,2,7) by (simp add: feed_def reader_new_def left_def canonical_bytes_def)
  obtain r0 where r0: "read_exact ops ?r 8 = Inr (BUNDLE_MAGIC, r0)" "feed r0 (concat (map entry_bytes es) @ [])"
    using read_exact_feed[OF f] by (auto simp: magic_length)
  let ?st = "\<lparr>xs_reader = r0, xs_previous = None, xs_root = None, xs_staging = \<lparr>inside = [], outside = []\<rparr>\<rparr>"
  obtain st where st: "extract_entries env ops l roots False (length es) ?st = Inr st"
    "placed st = (prev, current, fs)" "feed (xs_reader st) []"
    using extract_entries_feed[where st = ?st and env = env and roots = roots and bs = "[]" and
      tr = "(prev, current, fs)", OF _ assms(3,10)] r0(2) assms(5) by auto
  have c: "consumed ?r (canonical_bytes es) (xs_reader st)"
  proof -
    obtain es' where es': "consumed r0 (concat (map entry_bytes es')) (xs_reader st)"
      using extract_entries_Ok[OF st(1) assms(10)] by auto
    then have "concat (map entry_bytes es') = concat (map entry_bytes es)"
      using r0(2) st(3) by (auto simp: consumed_def feed_def)
    moreover have "consumed ?r BUNDLE_MAGIC r0" using read_exact_Ok[OF r0(1)] by simp
    ultimately show ?thesis using consumed_trans es' by (metis canonical_bytes_def)
  qed
  have e: "op_read_byte ops (reader_inner (xs_reader st)) = Inr (None, reader_inner (xs_reader st))"
    using byte_end st(3) by (simp add: feed_def left_def)
  have "reader_hashed (xs_reader st) = canonical_bytes es" "unat (reader_bytes (xs_reader st)) = length (canonical_bytes es)"
    using c by (simp_all add: consumed_def reader_new_def)
  moreover from this(2) have "reader_bytes (xs_reader st) = expanded_size_bytes d"
    using assms(9) by (simp add: word_unat_eq_iff)
  ultimately have fin: "reader_finish blake3 (xs_reader st) = (digest d, expanded_size_bytes d)"
    using assms(8) by (simp add: reader_finish_def digest_blake3_def flip: assms(9))
  have "clean (reader_inner (xs_reader st))" using st(3) by (simp add: feed_def)
  then show ?thesis
    using r0(1) st e fin assms(4,6)
    by (auto simp: extract_canonical_def read_optional_byte_def Let_def roots_done_def split: option.splits)
qed

end

subsection \<open>The two sources\<close>

definition budget :: "CountingReader \<Rightarrow> nat" where
  "budget r = unat (counting_maximum r) - unat (counting_bytes r)"

definition advanced :: "nat \<Rightarrow> CountingReader \<Rightarrow> CountingReader" where
  "advanced n r = r\<lparr>counting_inner := drop n (counting_inner r), counting_bytes := counting_bytes r + word_of_nat n\<rparr>"

lemma advanced_add: "advanced m (advanced n r) = advanced (n + m) r"
  by (simp add: advanced_def add_ac)

lemma advanced_0 [simp]: "advanced 0 r = r"
  by (simp add: advanced_def)

lemma advanced_counts: "counting_inner (advanced n r) = drop n (counting_inner r)"
  by (simp add: advanced_def)

lemma unat_advance: "n \<le> budget r \<Longrightarrow> unat (counting_bytes r + word_of_nat n) = unat (counting_bytes r) + n"
  using unat_less[of "counting_maximum r"] by (cases "n = 0") (simp_all add: budget_def unat_word_ariths unat_of_nat)

lemma budget_advanced: "n \<le> budget r \<Longrightarrow> budget (advanced n r) = budget r - n"
  using unat_advance[of n r] by (simp add: advanced_def budget_def)

lemma counting_read_form:
  "counting_read r n =
     (if budget r = 0 \<and> n \<noteq> 0 \<and> counting_inner r \<noteq> [] then Inl OtherIo
      else let k = min (min (budget r) n) (length (counting_inner r)) in
        Inr (take k (counting_inner r), advanced k r))"
proof -
  have "saturating_sub (counting_maximum r) (counting_bytes r) = 0 \<longleftrightarrow> budget r = 0"
    using unat_saturating_sub[of "counting_maximum r" "counting_bytes r"] by (metis budget_def unat_0 word_unat_eq_iff)
  then show ?thesis
    by (auto simp: counting_read_def Let_def unat_saturating_sub advanced_def min_def simp flip: budget_def)
qed

lemma short_read:
  fixes b n len k :: nat
  assumes "k = min (min b n) len" "k \<noteq> n"
  shows "\<not> (n \<le> b \<and> n \<le> len)" "\<not> (n - k \<le> b - k \<and> n - k \<le> len - k)" "b - k < len - k \<longleftrightarrow> b < len"
proof -
  consider "k = b" "b < n" "b \<le> len" | "k = len" "len < n" "len \<le> b"
    using assms by (auto simp: min_def split: if_splits)
  then show "\<not> (n \<le> b \<and> n \<le> len)" "\<not> (n - k \<le> b - k \<and> n - k \<le> len - k)" "b - k < len - k \<longleftrightarrow> b < len"
    by (cases; linarith)+
qed

lemma counting_read_exact_form:
  "counting_read_exact r n =
     (if n \<le> budget r \<and> n \<le> length (counting_inner r) then Inr (take n (counting_inner r), advanced n r)
      else Inl (if budget r < length (counting_inner r) then OtherIo else UnexpectedEof))"
proof (induction n arbitrary: r rule: less_induct)
  case (less n)
  let ?k = "min (min (budget r) n) (length (counting_inner r))"
  show ?case
  proof (cases "n = 0 \<or> ?k = 0")
    case True
    then show ?thesis
      by (auto simp: counting_read_exact.simps[of r n] counting_read_form Let_def)
  next
    case False
    then have k: "0 < ?k" "?k \<le> n" "?k \<le> budget r" "?k \<le> length (counting_inner r)" by auto
    then have step: "counting_read_exact r n =
      and_then (counting_read_exact (advanced ?k r) (n - ?k)) (\<lambda>(more, r''). Ok (take ?k (counting_inner r) @ more, r''))"
      using False by (auto simp: counting_read_exact.simps[of r n] counting_read_form Let_def)
    have "n - ?k < n" using k by linarith
    note IH = less.IH[OF this, of "advanced ?k r", unfolded budget_advanced[OF k(3)]]
    have inner: "counting_inner (advanced ?k r) = drop ?k (counting_inner r)" by (simp add: advanced_def)
    show ?thesis
    proof (cases "?k = n")
      case True
      then show ?thesis
        using step IH k by (simp add: advanced_add)
    next
      case False
      note arith = short_read[OF refl False]
      have "counting_read_exact (advanced ?k r) (n - ?k) =
        Inl (if budget r < length (counting_inner r) then OtherIo else UnexpectedEof)"
        unfolding IH inner length_drop arith(3) if_not_P[OF arith(2)] by (rule refl)
      then show ?thesis using step arith(1) by simp
    qed
  qed
qed

interpretation counted: byte_source counting_ops
  "\<lambda>r. take (budget r) (counting_inner r)" "\<lambda>r. length (counting_inner r) \<le> budget r"
  "\<lambda>r. int (unat (counting_maximum r)) - int (unat (counting_bytes r)) - int (length (take (budget r) (counting_inner r)))"
proof
  fix r n bs r'
  assume "op_read_exact counting_ops r n = Inr (bs, r')"
  then have r': "n \<le> budget r" "n \<le> length (counting_inner r)" "bs = take n (counting_inner r)" "r' = advanced n r"
    by (auto simp: counting_ops_def counting_read_exact_form split: if_splits)
  have b: "budget r' = budget r - n" "counting_inner r' = drop n (counting_inner r)"
    using budget_advanced[OF r'(1)] r'(4) by (simp_all add: advanced_counts)
  have c: "counting_maximum r' = counting_maximum r" "unat (counting_bytes r') = unat (counting_bytes r) + n"
    using unat_advance[OF r'(1)] r'(4) by (simp_all add: advanced_def)
  have "take (budget r) (counting_inner r) = bs @ take (budget r') (counting_inner r')"
    using take_add[of n "budget r - n" "counting_inner r"] r' b by simp
  moreover have "length (counting_inner r) \<le> budget r \<longleftrightarrow> length (counting_inner r') \<le> budget r'"
    using r' b by (simp; linarith)
  moreover have "length bs = n" using r' by simp
  ultimately show "length bs = n \<and> take (budget r) (counting_inner r) = bs @ take (budget r') (counting_inner r') \<and>
      (length (counting_inner r) \<le> budget r \<longleftrightarrow> length (counting_inner r') \<le> budget r') \<and>
      int (unat (counting_maximum r')) - int (unat (counting_bytes r')) - int (length (take (budget r') (counting_inner r'))) =
      int (unat (counting_maximum r)) - int (unat (counting_bytes r)) - int (length (take (budget r) (counting_inner r)))"
    using c by simp
next
  fix r :: CountingReader and n
  assume "n \<le> length (take (budget r) (counting_inner r))"
  then show "\<exists>bs r'. op_read_exact counting_ops r n = Inr (bs, r')"
    by (simp add: counting_ops_def counting_read_exact_form)
next
  fix r r'
  assume "op_read_byte counting_ops r = Inr (None, r')"
  then show "r' = r \<and> take (budget r) (counting_inner r) = [] \<and> length (counting_inner r) \<le> budget r"
    by (auto simp: counting_ops_def counting_read_byte_def counting_read_form Let_def min_def
        split: if_splits list.splits)
next
  fix r :: CountingReader
  assume "length (counting_inner r) \<le> budget r" "take (budget r) (counting_inner r) = []"
  then show "op_read_byte counting_ops r = Inr (None, r)"
    by (auto simp: counting_ops_def counting_read_byte_def counting_read_form Let_def)
qed

interpretation slice: byte_source slice_ops "\<lambda>bs. bs" "\<lambda>_. True" "\<lambda>_. 0"
  by unfold_locales (auto simp: slice_ops_def split: if_splits list.splits)

end
