(* ===== verification/Bundle_Extract.thy ===== *)
theory Bundle_Extract
  imports Bundle
begin

text \<open>
  What extraction of a bundle guarantees: an accepted stream is the canonical layout of a list of
  entries that meets every declared bound, and a symlink-free bundle is written to the staging
  directory only.  The last section exhibits a bundle whose symlinks lead a write outside of it.
\<close>

section \<open>Accepted streams\<close>

lemma tree_ordered_distinct: "tree_ordered es \<Longrightarrow> distinct (map fst es)"
  unfolding tree_ordered_def by (induction es) (auto simp: compare_paths_ord)

lemma extract_bundle_checks:
  assumes "extract_bundle env blake3 zstd reader d stage output_roots l cancelled = Inr fs"
  obtains roots where "limits_validate l = Inr l" "blob_validate d = Inr ()"
    "validate_descriptor_limits d l = Inr ()" "check_empty_staging stage = Inr ()"
    "validate_output_roots output_roots = Inr roots" "0 < read_buffer_bytes l"
  using assms
  by (auto simp: extract_bundle_def result_simps limits_validate_def split: if_splits)

text \<open>The decoded stream behind the encoded one.\<close>

definition decodes_to :: "zstd_decoder \<Rightarrow> BlobDescriptor \<Rightarrow> u8 list \<Rightarrow> u8 list \<Rightarrow> bool" where
  "decodes_to zstd d reader bs \<longleftrightarrow>
     (case encoding d of
        Identity \<Rightarrow> reader = bs
      | ZstdV1 \<Rightarrow> \<exists>n. zstd (take (unat (encoded_size_bytes d)) reader) = Inr (bs, n) \<and>
          word_of_nat n = encoded_size_bytes d)"

lemma extract_bundle_entries:
  assumes "extract_bundle env blake3 zstd reader d stage output_roots l cancelled = Inr fs"
    "validate_output_roots output_roots = Inr roots"
  shows "\<exists>es prev current. decodes_to zstd d reader (canonical_bytes es) \<and>
    length es = unat (entry_count d) \<and> (\<forall>e \<in> set es. entry_ok l e) \<and>
    place_entries env roots es = Inr (prev, current, fs) \<and> roots_done current = length roots \<and>
    length (canonical_bytes es) \<le> unat (max_expanded_bytes l) \<and>
    digest d = digest_blake3 blake3 (canonical_bytes es) \<and>
    unat (expanded_size_bytes d) = length (canonical_bytes es)"
proof -
  have buf: "0 < read_buffer_bytes l" and blob: "blob_validate d = Inr ()"
    using extract_bundle_checks[OF assms(1)] by blast+
  show ?thesis
  proof (cases "encoding d")
    case Identity
    let ?r = "counting_new reader (encoded_size_bytes d)"
    obtain inner where x: "extract_canonical env blake3 counting_ops ?r d roots l cancelled = Inr (fs, inner)"
      using assms Identity
      by (auto simp: extract_bundle_def result_simps limits_validate_def split: if_splits)
    have "take (budget ?r) (counting_inner ?r) = counting_inner ?r" if "length (counting_inner ?r) \<le> budget ?r"
      using that by simp
    then show ?thesis
      using counted.extract_canonical_Ok[OF x buf] Identity
      by (auto simp: decodes_to_def counting_new_def)
  next
    case ZstdV1
    obtain decoded n rest where z: "zstd (take (unat (encoded_size_bytes d)) reader) = Inr (decoded, n)"
      "extract_canonical env blake3 slice_ops decoded d roots l cancelled = Inr (fs, rest)"
      "word_of_nat n = encoded_size_bytes d"
      using assms ZstdV1
      by (auto simp: extract_bundle_def result_simps limits_validate_def verify_complete_def
          split: if_splits sum.splits prod.splits)
    then show ?thesis
      using slice.extract_canonical_Ok[OF z(2) buf] ZstdV1 by (auto simp: decodes_to_def)
  qed
qed

text \<open>
  C6. Extraction accepts a stream only if it decodes to the canonical layout of a list of entries
  with unique paths in strict tree order, every path portable, within the path limit and below a
  declared output root, every root present, every file within the file limit and every symlink
  text contained; the number of entries, the expanded size and the content digest are those of the
  descriptor.
\<close>

theorem extract_bundle_sound:
  assumes "extract_bundle env blake3 zstd reader d stage output_roots l cancelled = Inr fs"
  shows "\<exists>es. decodes_to zstd d reader (canonical_bytes es) \<and> tree_ordered es \<and> distinct (map fst es) \<and>
    (\<forall>e \<in> set es. entry_ok l e \<and> (\<exists>r \<in> set output_roots. contains r (fst e))) \<and>
    set output_roots \<subseteq> fst ` set es \<and>
    length es = unat (entry_count d) \<and> length es \<le> unat (max_entries l) \<and>
    length (canonical_bytes es) = unat (expanded_size_bytes d) \<and>
    length (canonical_bytes es) \<le> unat (max_expanded_bytes l) \<and>
    digest d = digest_blake3 blake3 (canonical_bytes es)"
proof -
  obtain roots where roots: "validate_output_roots output_roots = Inr roots" "validate_descriptor_limits d l = Inr ()"
    using extract_bundle_checks[OF assms] by blast
  obtain es prev current where es: "decodes_to zstd d reader (canonical_bytes es)"
    "length es = unat (entry_count d)" "\<forall>e \<in> set es. entry_ok l e"
    "place_entries env roots es = Inr (prev, current, fs)" "roots_done current = length roots"
    "length (canonical_bytes es) \<le> unat (max_expanded_bytes l)"
    "digest d = digest_blake3 blake3 (canonical_bytes es)"
    "unat (expanded_size_bytes d) = length (canonical_bytes es)"
    using extract_bundle_entries[OF assms roots(1)] by blast
  note s = place_entries_structure[OF es(4), unfolded es(5)]
  have set: "set roots = set output_roots"
    using roots(1) by (auto simp: validate_output_roots_iff)
  have "distinct (map fst es)"
    using s tree_ordered_distinct by blast
  moreover have "length es \<le> unat (max_entries l)"
    using roots(2) es(2) by (auto simp: validate_descriptor_limits_def word_le_nat_alt not_less split: if_splits)
  moreover have "set roots \<subseteq> fst ` set es" using s by (auto simp: in_set_conv_nth)
  moreover have "\<forall>e \<in> set es. \<exists>r \<in> set roots. contains r (fst e)" using s by (metis nth_mem)
  ultimately show ?thesis using es s set by auto
qed

lemma validate_descriptor_limits_iff:
  "validate_descriptor_limits d l = Inr () \<longleftrightarrow>
     unat (encoded_size_bytes d) \<le> unat (max_encoded_bytes l) \<and>
     unat (expanded_size_bytes d) \<le> unat (max_expanded_bytes l) \<and>
     unat (entry_count d) \<le> unat (max_entries l) \<and>
     unat (expanded_size_bytes d) \<le> unat (encoded_size_bytes d) * unat (max_compression_ratio l)"
proof -
  have "unat (expanded_size_bytes d) \<le> 2 ^ 64 - 1" using unat_less[of "expanded_size_bytes d"] by simp
  then have "expanded_size_bytes d \<le> saturating_mul (encoded_size_bytes d) (max_compression_ratio l) \<longleftrightarrow>
      unat (expanded_size_bytes d) \<le> unat (encoded_size_bytes d) * unat (max_compression_ratio l)"
    unfolding word_le_nat_alt unat_saturating_mul by simp
  then show ?thesis
    by (auto simp: validate_descriptor_limits_def not_less word_le_nat_alt[symmetric])
qed

text \<open>
  The descriptor limits are exact in unbounded arithmetic: although the ratio check multiplies
  with saturation at 64 bits, a descriptor is accepted if and only if its sizes and entry count
  are within the limits and the expanded size is at most the encoded size times the ratio.
\<close>

theorem validate_descriptor_limits_exact:
  "validate_descriptor_limits d l = Inr () \<longleftrightarrow>
     unat (encoded_size_bytes d) \<le> unat (max_encoded_bytes l) \<and>
     unat (expanded_size_bytes d) \<le> unat (max_expanded_bytes l) \<and>
     unat (entry_count d) \<le> unat (max_entries l) \<and>
     unat (expanded_size_bytes d) \<le> unat (encoded_size_bytes d) * unat (max_compression_ratio l)"
  by (rule validate_descriptor_limits_iff)

section \<open>Placement through real directories\<close>

text \<open>A staging tree in which every entry lies in a directory.\<close>

definition dir_at :: "entries \<Rightarrow> string list \<Rightarrow> bool" where
  "dir_at fs q \<longleftrightarrow> q = [] \<or> map_of fs q = Some Directory"

definition tree_closed :: "entries \<Rightarrow> bool" where
  "tree_closed fs \<longleftrightarrow> map_of fs [] = None \<and> (\<forall>q n. map_of fs (q @ [n]) \<noteq> None \<longrightarrow> dir_at fs q)"

lemma tree_closed_Nil [simp]: "tree_closed []"
  by (simp add: tree_closed_def)

lemma dir_at_prefix: "tree_closed fs \<Longrightarrow> dir_at fs (q @ r) \<Longrightarrow> dir_at fs q"
proof (induction r rule: rev_induct)
  case (snoc n r)
  then have "map_of fs ((q @ r) @ [n]) \<noteq> None" by (auto simp: dir_at_def)
  then show ?case using snoc unfolding tree_closed_def by blast
qed simp

lemma walk_dirs:
  "tree_closed fs \<Longrightarrow> dir_at fs (d @ cs) \<Longrightarrow> walk fuel fs d (map Normal cs) = Inr (Inside (d @ cs))"
proof (induction cs arbitrary: d)
  case (Cons c cs)
  have "dir_at fs (d @ [c])" using dir_at_prefix[of fs "d @ [c]" cs] Cons.prems by simp
  then have "map_of fs (d @ [c]) = Some Directory" by (simp add: dir_at_def)
  then show ?case using Cons.IH[of "d @ [c]"] Cons.prems by simp
qed simp

lemma host_parent_dir:
  "tree_closed fs \<Longrightarrow> dir_at fs (butlast p) \<Longrightarrow> host_parent fs p = Inr (Inside (butlast p))"
  unfolding host_parent_def using walk_dirs[of fs "[]" "butlast p"] by simp

lemma symlink_metadata_dir:
  assumes "tree_closed fs" "dir_at fs q"
  shows "symlink_metadata env fs q = Inr Directory"
proof (cases "q = []")
  case False
  then have "dir_at fs (butlast q)" using dir_at_prefix[of fs "butlast q" "[last q]"] assms by simp
  then show ?thesis
    using False assms host_parent_dir by (simp add: symlink_metadata_def dir_at_def)
qed (simp add: symlink_metadata_def)

lemma create_entry_fresh:
  assumes "tree_closed (inside fs)" "dir_at (inside fs) (butlast q)" "q \<noteq> []" "map_of (inside fs) q = None"
  shows "create_entry fs q k = Inr (fs\<lparr>inside := (q, k) # inside fs\<rparr>)"
  using assms host_parent_dir[OF assms(1,2)]
  by (cases k) (simp_all add: create_entry_def file_target.simps)

lemma tree_closed_insert:
  assumes "tree_closed fs" "dir_at fs (butlast q)" "q \<noteq> []" "map_of fs q = None"
  shows "tree_closed ((q, k) # fs)"
proof -
  have keep: "dir_at fs r \<Longrightarrow> dir_at ((q, k) # fs) r" for r
    using assms(4) by (auto simp: dir_at_def)
  show ?thesis
    unfolding tree_closed_def
  proof (intro conjI allI impI)
    fix r n assume "map_of ((q, k) # fs) (r @ [n]) \<noteq> None"
    then consider "q = r @ [n]" | "map_of fs (r @ [n]) \<noteq> None" by (auto split: if_splits)
    then show "dir_at ((q, k) # fs) r"
      using keep assms(1,2) by cases (auto simp: tree_closed_def)
  qed (use assms in \<open>auto simp: tree_closed_def\<close>)
qed

lemma create_dir_all_snoc:
  "create_dir_all fs (p @ [n]) = and_then (create_dir_all fs p) (\<lambda>fs'. create_dir_step fs' (p @ [n]))"
proof -
  have u: "[1..<Suc (length (p @ [n]))] = [1..<Suc (length p)] @ [Suc (length p)]" by simp
  have c: "map (\<lambda>i. take i (p @ [n])) [1..<Suc (length p)] = map (\<lambda>i. take i p) [1..<Suc (length p)]"
    by (rule map_cong) auto
  show ?thesis unfolding create_dir_all_def u map_append c try_fold_append by simp
qed

lemma create_dir_all_ok:
  assumes "tree_closed fs" "\<forall>q. q \<noteq> [] \<and> prefix q p \<longrightarrow> map_of fs q \<in> {None, Some Directory}"
  shows "\<exists>fs'. create_dir_all fs p = Inr fs' \<and> tree_closed fs' \<and>
    (\<forall>q. map_of fs' q = (if q \<noteq> [] \<and> prefix q p then Some Directory else map_of fs q))"
  using assms(2)
proof (induction p rule: rev_induct)
  case Nil
  then show ?case using assms(1) by (simp add: create_dir_all_def)
next
  case (snoc n p)
  obtain fs' where fs': "create_dir_all fs p = Inr fs'" "tree_closed fs'"
    "\<And>q. map_of fs' q = (if q \<noteq> [] \<and> prefix q p then Some Directory else map_of fs q)"
    using snoc.IH snoc.prems by (metis prefix_snoc)
  have p: "dir_at fs' p" by (simp add: dir_at_def fs'(3))
  have "map_of fs' (p @ [n]) \<in> {None, Some Directory}" using snoc.prems by (simp add: fs'(3))
  then consider "map_of fs' (p @ [n]) = None" | "map_of fs' (p @ [n]) = Some Directory" by auto
  then show ?case
  proof cases
    case 1
    then have "create_dir_all fs (p @ [n]) = Inr ((p @ [n], Directory) # fs')"
      using fs'(1) by (simp add: create_dir_all_snoc create_dir_step_def)
    moreover have "tree_closed ((p @ [n], Directory) # fs')" using tree_closed_insert fs'(2) p 1 by simp
    ultimately show ?thesis by (auto simp: fs'(3) prefix_snoc)
  next
    case 2
    then have "create_dir_all fs (p @ [n]) = Inr fs'"
      using fs'(1) by (simp add: create_dir_all_snoc create_dir_step_def)
    then show ?thesis using fs'(2) 2 by (auto simp: fs'(3) prefix_snoc)
  qed
qed

subsection \<open>Tree-shaped bundles\<close>

abbreviation comps :: "RelativePath \<Rightarrow> string list" where
  "comps p \<equiv> split_on slash p"

lemma join_relative_comps [simp]: "join_relative [] p = comps p"
proof -
  have "foldl (\<lambda>r c. r @ [c]) xs ys = xs @ ys" for xs ys :: "string list"
    by (induction ys arbitrary: xs) auto
  then show ?thesis by (simp add: join_relative_def)
qed

text \<open>
  A tree-shaped list of entries: ordered, below the roots, with every root, and with an explicit
  directory entry for the parent of every entry that is not a root.
\<close>

definition covers :: "RelativePath list \<Rightarrow> entry list \<Rightarrow> bool" where
  "covers roots es \<longleftrightarrow> tree_ordered es \<and> set roots \<subseteq> fst ` set es \<and>
     (\<forall>e \<in> set es. \<exists>r \<in> set roots. contains r (fst e))"

definition has_parent :: "entry list \<Rightarrow> RelativePath \<Rightarrow> bool" where
  "has_parent es p \<longleftrightarrow> (\<exists>q. (q, Directory) \<in> set es \<and> comps q = butlast (comps p))"

definition tree_shaped :: "RelativePath list \<Rightarrow> entry list \<Rightarrow> bool" where
  "tree_shaped roots es \<longleftrightarrow> covers roots es \<and> (\<forall>e \<in> set es. fst e \<notin> set roots \<longrightarrow> has_parent es (fst e))"

text \<open>What the staging directory holds afterwards: the entries, and the directories above the roots.\<close>

definition staged :: "RelativePath list \<Rightarrow> entry list \<Rightarrow> string list \<Rightarrow> OutputKind option" where
  "staged roots es q =
     (case map_of (map (\<lambda>(p, k). (comps p, k)) es) q of
        Some k \<Rightarrow> Some k
      | None \<Rightarrow> if q \<noteq> [] \<and> (\<exists>r \<in> set roots. strict_prefix q (comps r)) then Some Directory else None)"

lemma map_of_comps_None:
  "map_of (map (\<lambda>(p, k). (comps p, k)) es) q = None \<longleftrightarrow> (\<forall>e \<in> set es. comps (fst e) \<noteq> q)"
  by (induction es) auto

lemma staged_snoc:
  assumes "\<forall>e \<in> set es. comps (fst e) \<noteq> comps p"
  shows "staged roots (es @ [(p, k)]) q = (if q = comps p then Some k else staged roots es q)"
  using assms map_of_comps_None[of es "comps p"]
  by (simp add: staged_def map_add_def split: option.split)

lemma staged_roots:
  "staged (rs @ [r]) es q =
     (case staged rs es q of Some k \<Rightarrow> Some k
      | None \<Rightarrow> if q \<noteq> [] \<and> strict_prefix q (comps r) then Some Directory else None)"
  by (auto simp: staged_def split: option.splits)

lemma staged_entry: "(p, k) \<in> set es \<Longrightarrow> tree_ordered es \<Longrightarrow> staged roots es (comps p) = Some k"
proof -
  assume "(p, k) \<in> set es" "tree_ordered es"
  then have "map_of (map (\<lambda>(p, k). (comps p, k)) es) (comps p) = Some k"
    using tree_ordered_distinct[of es]
    by (induction es) (auto simp: tree_ordered_def split_on_inject image_iff rev_image_eqI)
  then show ?thesis by (simp add: staged_def)
qed

lemma staged_None_or_dir:
  "\<forall>e \<in> set es. comps (fst e) \<noteq> q \<Longrightarrow> staged roots es q \<in> {None, Some Directory}"
  using map_of_comps_None[of es q] by (simp add: staged_def)

lemma disjoint_nth:
  assumes "disjoint_roots roots" "i < length roots" "j < length roots" "contains (roots ! i) (roots ! j)"
  shows "i = j"
proof -
  have "roots ! i = roots ! j" using assms unfolding disjoint_roots_def by (meson nth_mem)
  then show ?thesis using assms nth_eq_iff_index_eq unfolding disjoint_roots_def by blast
qed

lemma advance_root_next:
  assumes "disjoint_roots roots" "i < length roots" "n = i" "cur = (if n = 0 then None else Some (n - 1))"
  shows "advance_root roots cur (roots ! i) = Inr (i, True)"
proof (cases "i = 0")
  case True
  then show ?thesis using assms by (simp add: advance_root_def hd_conv_nth)
next
  case False
  then have "\<not> contains (roots ! (i - 1)) (roots ! i)"
    using disjoint_nth[OF assms(1) _ assms(2), of "i - 1"] assms(2) by force
  then show ?thesis using assms False by (auto simp: advance_root_def)
qed

text \<open>Which roots come before an entry in tree order.\<close>

lemma roots_before:
  assumes "disjoint_roots roots" "sorted (map comps roots)" "i < length roots" "contains (roots ! i) p"
  shows "j < length roots \<Longrightarrow> comps (roots ! j) < comps p \<longleftrightarrow> j < i \<or> j = i \<and> p \<noteq> roots ! i"
proof -
  assume j: "j < length roots"
  have mono: "a < b \<Longrightarrow> b < length roots \<Longrightarrow> comps (roots ! a) < comps (roots ! b)" for a b
    using assms(1,2) sorted_nth_mono[OF assms(2), of a b]
    by (auto simp: disjoint_roots_def nth_eq_iff_index_eq split_on_inject order_le_less)
  have le: "comps (roots ! i) \<le> comps p" using contains_trans_order[OF assms(4)] .
  consider "j < i" | "j = i" | "i < j" by linarith
  then show ?thesis
  proof cases
    case 1
    then show ?thesis using mono[OF 1 assms(3)] le by (simp add: less_le_trans)
  next
    case 2
    then show ?thesis using le by (auto simp: order_le_less split_on_inject)
  next
    case 3
    have "\<not> comps (roots ! j) \<le> comps p"
    proof
      assume "comps (roots ! j) \<le> comps p"
      then have "contains (roots ! i) (roots ! j)"
        using assms(4) mono[OF 3 j] prefix_between[of "comps (roots ! i)" "comps p" "comps (roots ! j)"]
        by (auto simp: contains_iff)
      then show False using disjoint_nth[OF assms(1,3) j] 3 by simp
    qed
    then show ?thesis using 3 by auto
  qed
qed

lemma take_eq_by_set:
  assumes "distinct xs" "n \<le> length xs" "m \<le> length xs" "\<And>j. j < length xs \<Longrightarrow> xs ! j \<in> set (take n xs) \<longleftrightarrow> j < m"
  shows "n = m"
proof -
  have "xs ! j \<in> set (take n xs) \<longleftrightarrow> j < n" if "j < length xs" for j
    using assms(1) that by (auto simp: in_set_conv_nth nth_eq_iff_index_eq)
  then have "j < n \<longleftrightarrow> j < m" if "j < length xs" for j using assms(4) that by blast
  then show ?thesis using assms(2,3) by (metis less_irrefl linorder_neqE_nat order_less_le_trans)
qed

text \<open>The state after a prefix of a tree-shaped list of entries.\<close>

definition placed_prefix :: "RelativePath list \<Rightarrow> entry list \<Rightarrow> nat \<Rightarrow> place_state \<Rightarrow> bool" where
  "placed_prefix roots es n st \<longleftrightarrow> n \<le> length roots \<and> fst ` set es \<inter> set roots = set (take n roots) \<and>
     (case st of (prev, cur, fs) \<Rightarrow> prev = (if es = [] then None else Some (fst (last es))) \<and>
        cur = (if n = 0 then None else Some (n - 1)) \<and> outside fs = [] \<and> tree_closed (inside fs) \<and>
        map_of (inside fs) = staged (take n roots) es)"

lemma staged_fresh:
  assumes "\<forall>e \<in> set es. comps (fst e) \<noteq> q" "\<forall>r \<in> set roots. \<not> strict_prefix q (comps r)"
  shows "staged roots es q = None"
  using assms map_of_comps_None[of es q] by (simp add: staged_def)

lemma strict_prefix_butlast: "xs \<noteq> [] \<Longrightarrow> strict_prefix q xs \<longleftrightarrow> prefix q (butlast xs)"
  by (metis append_butlast_last_id prefix_order.less_le prefix_snoc butlast_snoc not_Cons_self2 prefix_order.eq_iff
      prefixeq_butlast self_append_conv)

lemma placed_prefixD:
  assumes "placed_prefix roots es n (prev, cur, fs)"
  shows "n \<le> length roots" "fst ` set es \<inter> set roots = set (take n roots)" "outside fs = []"
    "cur = (if n = 0 then None else Some (n - 1))" "tree_closed (inside fs)"
    "map_of (inside fs) = staged (take n roots) es"
  using assms by (simp_all add: placed_prefix_def)

text \<open>An output root is placed with the missing directories above it.\<close>

lemma place_root:
  assumes roots: "disjoint_roots roots" "i < length roots" and st: "placed_prefix roots xs i (prev, cur, fs)"
    and prev: "\<And>q. prev = Some q \<Longrightarrow> compare_paths q (roots ! i) = Less"
    and below: "\<forall>e \<in> set xs. (\<exists>r \<in> set roots. contains r (fst e)) \<and> fst e \<noteq> roots ! i"
  shows "\<exists>st'. place_entry env roots (prev, cur, fs) (roots ! i, k) = Inr st' \<and>
    placed_prefix roots (xs @ [(roots ! i, k)]) (Suc i) st'"
proof -
  let ?p = "roots ! i"
  note st' = placed_prefixD[OF st]
  have above: "\<forall>e \<in> set xs. comps (fst e) \<noteq> q" if "prefix q (comps ?p)" for q
  proof
    fix e assume e: "e \<in> set xs"
    then obtain r where r: "r \<in> set roots" "contains r (fst e)" using below by blast
    show "comps (fst e) \<noteq> q"
    proof
      assume "comps (fst e) = q"
      then have "contains r ?p" "prefix (comps (fst e)) (comps ?p)"
        using r(2) that by (auto simp: contains_iff intro: prefix_order.trans)
      moreover from this(1) have "r = ?p" using roots r(1) by (auto simp: disjoint_roots_def)
      ultimately have "comps (fst e) = comps ?p" using r(2) by (auto simp: contains_iff intro: prefix_order.antisym)
      then have "fst e = ?p" by (simp add: split_on_inject)
      then show False using below e by blast
    qed
  qed
  have dirs: "\<forall>q. q \<noteq> [] \<and> prefix q (butlast (comps ?p)) \<longrightarrow> map_of (inside fs) q \<in> {None, Some Directory}"
    using above staged_None_or_dir st'(6) by (metis prefix_order.trans prefixeq_butlast)
  obtain es1 where es1: "create_dir_all (inside fs) (butlast (comps ?p)) = Inr es1" "tree_closed es1"
    "\<And>q. map_of es1 q = (if q \<noteq> [] \<and> prefix q (butlast (comps ?p)) then Some Directory else map_of (inside fs) q)"
    using create_dir_all_ok[OF st'(5) dirs] by blast
  have m1: "map_of es1 = staged (take (Suc i) roots) xs"
  proof
    fix q
    have "staged (take (Suc i) roots) xs q =
      (case staged (take i roots) xs q of Some k \<Rightarrow> Some k
       | None \<Rightarrow> if q \<noteq> [] \<and> prefix q (butlast (comps ?p)) then Some Directory else None)"
      using roots(2) by (simp add: take_Suc_conv_app_nth staged_roots strict_prefix_butlast)
    then show "map_of es1 q = staged (take (Suc i) roots) xs q"
      using dirs by (auto simp: es1(3) st'(6) split: option.splits)
  qed
  have "\<forall>r \<in> set (take (Suc i) roots). \<not> strict_prefix (comps ?p) (comps r)"
  proof
    fix r assume "r \<in> set (take (Suc i) roots)"
    then have "r \<in> set roots" by (rule in_set_takeD)
    then show "\<not> strict_prefix (comps ?p) (comps r)"
      using roots by (auto simp: disjoint_roots_def contains_iff strict_prefix_def)
  qed
  then have fresh: "map_of es1 (comps ?p) = None" using staged_fresh above m1 by simp
  have "dir_at es1 (butlast (comps ?p))" by (simp add: dir_at_def es1(3))
  then have made: "create_entry (fs\<lparr>inside := es1\<rparr>) (comps ?p) k = Inr (fs\<lparr>inside := (comps ?p, k) # es1\<rparr>)"
    and closed: "tree_closed ((comps ?p, k) # es1)"
    using create_entry_fresh[of "fs\<lparr>inside := es1\<rparr>"] tree_closed_insert es1(2) fresh by simp_all
  from made have "place_entry env roots (prev, cur, fs) (?p, k) = Inr (Some ?p, Some i, fs\<lparr>inside := (comps ?p, k) # es1\<rparr>)"
    using prev advance_root_next[OF roots refl st'(4)] es1(1)
    by (auto simp: place_entry_Ok prepare_entry_parent_def)
  moreover have "map_of ((comps ?p, k) # es1) = staged (take (Suc i) roots) (xs @ [(?p, k)])"
    using staged_snoc[of xs ?p] above by (auto simp: m1 fun_eq_iff)
  moreover have "fst ` set (xs @ [(?p, k)]) \<inter> set roots = set (take (Suc i) roots)"
    using st'(2) roots(2) by (auto simp: take_Suc_conv_app_nth)
  ultimately show ?thesis
    using roots(2) st'(3) closed by (auto simp: placed_prefix_def)
qed

text \<open>Any other entry is placed in the directory that an earlier entry has created.\<close>

lemma place_child:
  assumes roots: "disjoint_roots roots" "i < length roots" and st: "placed_prefix roots xs (Suc i) (prev, cur, fs)"
    and prev: "\<And>q. prev = Some q \<Longrightarrow> compare_paths q p = Less"
    and p: "contains (roots ! i) p" "p \<noteq> roots ! i" "\<forall>e \<in> set xs. fst e \<noteq> p"
    and parent: "(q, Directory) \<in> set xs" "comps q = butlast (comps p)" "tree_ordered xs"
  shows "\<exists>st'. place_entry env roots (prev, cur, fs) (p, k) = Inr st' \<and>
    placed_prefix roots (xs @ [(p, k)]) (Suc i) st'"
proof -
  note st' = placed_prefixD[OF st]
  have other: "p \<notin> set roots"
    using roots p disjoint_nth[of roots i] by (metis in_set_conv_nth)
  have "dir_at (inside fs) (butlast (comps p))"
    using staged_entry[OF parent(1,3)] parent(2) st'(6) by (simp add: dir_at_def)
  note dir = this symlink_metadata_dir[OF st'(5) this]
  have "\<forall>r \<in> set (take (Suc i) roots). \<not> strict_prefix (comps p) (comps r)"
  proof (intro ballI notI)
    fix r assume r: "r \<in> set (take (Suc i) roots)" "strict_prefix (comps p) (comps r)"
    then have "contains (roots ! i) r" using p(1) by (auto simp: contains_iff strict_prefix_def intro: prefix_order.trans)
    then have "r = roots ! i" using roots in_set_takeD[OF r(1)] by (auto simp: disjoint_roots_def)
    then show False using r(2) p(1) by (auto simp: contains_iff strict_prefix_def)
  qed
  moreover have ne: "\<forall>e \<in> set xs. comps (fst e) \<noteq> comps p" using p(3) by (simp add: split_on_inject)
  ultimately have fresh: "map_of (inside fs) (comps p) = None" using staged_fresh st'(6) by simp
  have made: "create_entry fs (comps p) k = Inr (fs\<lparr>inside := (comps p, k) # inside fs\<rparr>)"
    and closed: "tree_closed ((comps p, k) # inside fs)"
    using create_entry_fresh tree_closed_insert st'(5) dir(1) fresh by simp_all
  from made have "place_entry env roots (prev, cur, fs) (p, k) = Inr (Some p, Some i, fs\<lparr>inside := (comps p, k) # inside fs\<rparr>)"
    using prev p(1) st'(4) dir(2) by (auto simp: place_entry_Ok prepare_entry_parent_def advance_root_def)
  moreover have "map_of ((comps p, k) # inside fs) = staged (take (Suc i) roots) (xs @ [(p, k)])"
    using staged_snoc[OF ne] by (auto simp: st'(6) fun_eq_iff)
  ultimately show ?thesis
    using st' other closed by (auto simp: placed_prefix_def)
qed

lemma place_step:
  assumes roots: "disjoint_roots roots" "sorted (map comps roots)"
    and shape: "covers roots (xs @ (p, k) # ys)"
    and par: "p \<notin> set roots \<Longrightarrow> has_parent (xs @ (p, k) # ys) p"
    and st: "placed_prefix roots xs n (prev, cur, fs)"
  shows "\<exists>m st'. place_entry env roots (prev, cur, fs) (p, k) = Inr st' \<and> placed_prefix roots (xs @ [(p, k)]) m st'"
proof -
  let ?es = "xs @ (p, k) # ys"
  have ord: "tree_ordered ?es" and below: "\<exists>r \<in> set roots. contains r p" and all: "set roots \<subseteq> fst ` set ?es"
    using shape by (auto simp: covers_def)
  have lt: "comps (fst e) < comps p" if "e \<in> set xs" for e
    using ord that by (auto simp: tree_ordered_def sorted_wrt_append compare_paths_ord)
  have gt: "comps p < comps (fst e)" if "e \<in> set ys" for e
    using ord that by (auto simp: tree_ordered_def sorted_wrt_append compare_paths_ord)
  have earlier: "e \<in> set xs" if "e \<in> set ?es" "comps (fst e) < comps p" for e
    using that gt[of e] by (auto dest: order.asym)
  obtain i where i: "i < length roots" "contains (roots ! i) p" using below by (auto simp: in_set_conv_nth)
  note before = roots_before[OF roots i]
  have started: "roots ! j \<in> set (take n roots) \<longleftrightarrow> comps (roots ! j) < comps p" if "j < length roots" for j
  proof -
    have r: "roots ! j \<in> set roots" using that by simp
    then obtain e where e: "e \<in> set ?es" "fst e = roots ! j" using subsetD[OF all] by (metis imageE)
    have "roots ! j \<in> set (take n roots) \<longleftrightarrow> roots ! j \<in> fst ` set xs"
      using st r unfolding placed_prefix_def by blast
    also have "\<dots> \<longleftrightarrow> comps (roots ! j) < comps p"
    proof
      show "roots ! j \<in> fst ` set xs \<Longrightarrow> comps (roots ! j) < comps p" using lt by auto
      show "comps (roots ! j) < comps p \<Longrightarrow> roots ! j \<in> fst ` set xs"
        using earlier[OF e(1)] e(2) by (metis image_eqI)
    qed
    finally show ?thesis .
  qed
  have prev: "\<And>q. prev = Some q \<Longrightarrow> compare_paths q p = Less"
    using st lt[of "last xs"] by (auto simp: placed_prefix_def compare_paths_ord split: if_splits)
  have fresh: "\<forall>e \<in> set xs. fst e \<noteq> p" using lt by blast
  have dist: "distinct roots" using roots(1) by (simp add: disjoint_roots_def)
  show ?thesis
  proof (cases "p = roots ! i")
    case True
    have "n = i"
      using take_eq_by_set[OF dist, of n i] placed_prefixD(1)[OF st] i(1) started before True by simp
    then show ?thesis
      using place_root[OF roots(1) i(1), of xs prev cur fs env k] st prev True fresh shape
      by (auto simp: covers_def)
  next
    case False
    then have "n = Suc i"
      using take_eq_by_set[OF dist, of n "Suc i"] placed_prefixD(1)[OF st] i(1) started before
      by (simp add: less_Suc_eq)
    moreover have "p \<notin> set roots"
      using roots(1) i False disjoint_nth[of roots i] by (metis in_set_conv_nth)
    then obtain q where q: "(q, Directory) \<in> set ?es" "comps q = butlast (comps p)"
      using par unfolding has_parent_def by blast
    moreover have "comps q < comps p"
      using q(2) prefix_le[of "comps q" "comps p"] by (metis prefixeq_butlast order_le_less append_butlast_last_id
          split_on_nonempty not_Cons_self2 append_self_conv)
    then have "(q, Directory) \<in> set xs" using earlier[OF q(1)] by simp
    moreover have "tree_ordered xs" using ord by (simp add: tree_ordered_def sorted_wrt_append)
    ultimately show ?thesis
      using place_child[OF roots(1) i(1), of xs prev cur fs p q env k] st prev i(2) False fresh by blast
  qed
qed

text \<open>A tree-shaped list of entries is placed as a whole, and only inside the staging directory.\<close>

lemma placed_all:
  assumes "disjoint_roots roots" "set roots \<subseteq> fst ` set es" "placed_prefix roots es n (prev, cur, fs)"
  shows "roots_done cur = length roots \<and> outside fs = [] \<and> map_of (inside fs) = staged roots es"
proof -
  have "set (take n roots) = set roots" using placed_prefixD(2)[OF assms(3)] assms(2) by blast
  then have "length (take n roots) = length roots"
    using assms(1) by (metis disjoint_roots_def distinct_card distinct_take)
  then have "n = length roots" using placed_prefixD(1)[OF assms(3)] by simp
  then show ?thesis using placed_prefixD[OF assms(3)] by (auto simp: roots_done_def)
qed

lemma placed_empty: "placed_prefix roots [] 0 (None, None, \<lparr>inside = [], outside = []\<rparr>)"
  by (auto simp: placed_prefix_def staged_def fun_eq_iff)

lemma place_tree:
  assumes "disjoint_roots roots" "sorted (map comps roots)" "tree_shaped roots es"
  shows "\<exists>prev cur fs. place_entries env roots es = Inr (prev, cur, fs) \<and> roots_done cur = length roots \<and>
    outside fs = [] \<and> map_of (inside fs) = staged roots es"
proof -
  have "\<exists>n st. place_entries env roots xs = Inr st \<and> placed_prefix roots xs n st" if "es = xs @ ys" for xs ys
    using that
  proof (induction xs arbitrary: ys rule: rev_induct)
    case Nil
    then show ?case using placed_empty by auto
  next
    case (snoc e xs)
    obtain n prev cur fs where st: "place_entries env roots xs = Inr (prev, cur, fs)"
      "placed_prefix roots xs n (prev, cur, fs)"
      using snoc.IH[of "e # ys"] snoc.prems by auto
    obtain m st' where "place_entry env roots (prev, cur, fs) (fst e, snd e) = Inr st'"
      "placed_prefix roots (xs @ [(fst e, snd e)]) m st'"
      using place_step[OF assms(1,2) _ _ st(2), where env = env and p = "fst e" and k = "snd e" and ys = ys]
        assms(3) snoc.prems by (auto simp: tree_shaped_def)
    then show ?case using st(1) by (auto simp: try_fold_append)
  qed
  from this[of es "[]"] obtain n prev cur fs where st: "place_entries env roots es = Inr (prev, cur, fs)"
    "placed_prefix roots es n (prev, cur, fs)" by auto
  then show ?thesis using placed_all[OF assms(1) _ st(2)] assms(3) by (auto simp: tree_shaped_def covers_def)
qed

subsection \<open>Symlink-free bundles\<close>

definition symlink_free :: "entry list \<Rightarrow> bool" where
  "symlink_free es \<longleftrightarrow> (\<forall>e \<in> set es. case snd e of Symlink t d \<Rightarrow> False | _ \<Rightarrow> True)"

lemma symlink_freeD: "symlink_free es \<Longrightarrow> (p, Symlink t d) \<notin> set es"
  by (fastforce simp: symlink_free_def)

lemma map_of_comps_Some: "map_of (map (\<lambda>(p, k). (comps p, k)) es) q = Some k \<Longrightarrow> \<exists>p. (p, k) \<in> set es \<and> comps p = q"
  by (induction es) (auto split: if_splits)

lemma staged_symlink_free: "symlink_free es \<Longrightarrow> staged roots es q \<noteq> Some (Symlink t d)"
  using map_of_comps_Some[of es q] symlink_freeD[of es]
  by (auto simp: staged_def split: option.splits if_splits)

lemma walk_plain:
  assumes "\<And>q t d. map_of fs q \<noteq> Some (Symlink t d)" "walk fuel fs dir (map Normal cs) = Inr pl"
  shows "pl = Inside (dir @ cs)"
  using assms(2)
proof (induction cs arbitrary: dir)
  case (Cons c cs)
  from Cons.prems assms(1)[of "dir @ [c]"] have "walk fuel fs (dir @ [c]) (map Normal cs) = Inr pl"
    by (auto split: option.splits OutputKind.splits)
  then show ?case using Cons.IH by fastforce
qed simp

lemma symlink_metadata_plain:
  assumes "\<And>q t d. map_of fs q \<noteq> Some (Symlink t d)" "symlink_metadata env fs q = Inr Directory"
  shows "dir_at fs q"
proof (cases "q = []")
  case False
  obtain pl where pl: "host_parent fs q = Inr pl"
    using assms(2) False by (auto simp: symlink_metadata_def result_simps)
  then have "pl = Inside (butlast q)"
    using walk_plain[OF assms(1), where dir = "[]" and cs = "butlast q"] unfolding host_parent_def by simp
  then show ?thesis
    using assms(2) False pl by (auto simp: symlink_metadata_def dir_at_def split: option.splits)
qed (simp add: dir_at_def)

text \<open>In a symlink-free bundle an accepted entry has an explicit parent.\<close>

lemma plain_has_parent:
  assumes roots: "disjoint_roots roots" and p: "p \<notin> set roots" "r \<in> set roots" "contains r p"
    and st: "placed_prefix roots xs n (prev, cur, fs)" "symlink_free xs"
    and ok: "place_entry env roots (prev, cur, fs) (p, k) = Inr st'"
  shows "has_parent xs p"
proof -
  note m = placed_prefixD(6)[OF st(1)]
  obtain i out' fs1 where adv: "advance_root roots cur p = Inr (i, out')"
    "prepare_entry_parent env fs (comps p) out' = Inr fs1"
    using ok by (auto simp: place_entry_Ok)
  have "roots_done cur \<le> length roots" using placed_prefixD(1,4)[OF st(1)] by (auto simp: roots_done_def)
  then have "\<not> out'" using advance_root_Ok[OF adv(1)] p(1) by auto
  then have "symlink_metadata env (inside fs) (butlast (comps p)) = Inr Directory"
    using adv(2) by (auto simp: prepare_entry_parent_def Let_def split: sum.splits io_kind.splits OutputKind.splits)
  then have "dir_at (inside fs) (butlast (comps p))"
    using symlink_metadata_plain staged_symlink_free[OF st(2)] m by metis
  moreover have "strict_prefix (comps r) (comps p)"
    using p by (auto simp: contains_iff strict_prefix_def split_on_inject)
  then have pre: "prefix (comps r) (butlast (comps p))" by (simp add: strict_prefix_butlast)
  moreover have "\<not> strict_prefix (butlast (comps p)) (comps r')" if "r' \<in> set roots" for r'
  proof
    assume "strict_prefix (butlast (comps p)) (comps r')"
    then have "strict_prefix (comps r) (comps r')" using pre by (rule prefix_order.le_less_trans[rotated])
    then show False using roots p(2) that by (auto simp: disjoint_roots_def contains_iff strict_prefix_def)
  qed
  ultimately have "map_of (map (\<lambda>(p, k). (comps p, k)) xs) (butlast (comps p)) = Some Directory"
    using m by (auto simp: dir_at_def staged_def dest: in_set_takeD split: option.splits if_splits)
  then show ?thesis unfolding has_parent_def by (rule map_of_comps_Some)
qed

lemma plain_placed:
  assumes "disjoint_roots roots" "sorted (map comps roots)" "covers roots es" "symlink_free es"
    "place_entries env roots es = Inr (prev, cur, fs)"
  shows "outside fs = [] \<and> map_of (inside fs) = staged roots es"
proof -
  have "\<exists>n. placed_prefix roots xs n st" if "es = xs @ ys" "place_entries env roots xs = Inr st" for xs ys st
    using that
  proof (induction xs arbitrary: ys st rule: rev_induct)
    case Nil
    then show ?case using placed_empty by auto
  next
    case (snoc e xs)
    obtain prev cur fs where ok: "place_entries env roots xs = Inr (prev, cur, fs)"
      "place_entry env roots (prev, cur, fs) (fst e, snd e) = Inr st"
      using snoc.prems(2) by (auto simp: try_fold_append result_simps)
    obtain n where st: "placed_prefix roots xs n (prev, cur, fs)" using snoc.IH[OF _ ok(1)] snoc.prems(1) by auto
    have "symlink_free xs" using assms(4) snoc.prems(1) by (simp add: symlink_free_def)
    moreover obtain r where "r \<in> set roots" "contains r (fst e)"
      using assms(3) snoc.prems(1) by (auto simp: covers_def)
    ultimately have "fst e \<notin> set roots \<Longrightarrow> has_parent xs (fst e)"
      using plain_has_parent[OF assms(1) _ _ _ st _ ok(2)] by blast
    then have "fst e \<notin> set roots \<Longrightarrow> has_parent (xs @ (fst e, snd e) # ys) (fst e)"
      by (auto simp: has_parent_def)
    then show ?case
      using place_step[OF assms(1,2) _ _ st, where env = env and p = "fst e" and k = "snd e" and ys = ys]
        assms(3) snoc.prems(1) ok(2) by auto
  qed
  from this[of es "[]"] assms(5) obtain n where "placed_prefix roots es n (prev, cur, fs)" by auto
  then show ?thesis using placed_all[OF assms(1)] assms(3) by (auto simp: covers_def)
qed

lemma sorted_output_roots:
  assumes "validate_output_roots output_roots = Inr roots"
  shows "disjoint_roots roots" "sorted (map comps roots)" "set roots = set output_roots"
  using assms disjoint_roots_perm[of roots output_roots] by (auto simp: validate_output_roots_iff)

lemma staged_set: "set rs = set rs' \<Longrightarrow> staged rs es = staged rs' es"
  unfolding staged_def by (simp only:)

text \<open>
  C18. A bundle without symlinks is extracted faithfully and only into the staging directory: when
  it is accepted, nothing is written outside, and the staging directory holds exactly the entries
  of the bundle and the directories above the output roots.
\<close>

theorem extract_symlink_free_contained:
  assumes "extract_bundle env blake3 zstd reader d stage output_roots l cancelled = Inr fs"
  shows "\<exists>es. decodes_to zstd d reader (canonical_bytes es) \<and> (\<forall>e \<in> set es. entry_ok l e) \<and>
    (symlink_free es \<longrightarrow> outside fs = [] \<and> map_of (inside fs) = staged output_roots es)"
proof -
  obtain roots where roots: "validate_output_roots output_roots = Inr roots"
    using extract_bundle_checks[OF assms] by blast
  obtain es prev cur where es: "decodes_to zstd d reader (canonical_bytes es)" "\<forall>e \<in> set es. entry_ok l e"
    "place_entries env roots es = Inr (prev, cur, fs)" "roots_done cur = length roots"
    using extract_bundle_entries[OF assms roots] by blast
  note s = place_entries_structure[OF es(3), unfolded es(4)]
  have "covers roots es"
    unfolding covers_def using s by (metis in_set_conv_nth nth_mem subsetI)
  then have "symlink_free es \<longrightarrow> outside fs = [] \<and> map_of (inside fs) = staged roots es"
    using plain_placed[OF sorted_output_roots(1,2)[OF roots] _ _ es(3)] by blast
  then show ?thesis using es staged_set[OF sorted_output_roots(3)[OF roots]] by auto
qed

section \<open>Completeness\<close>

text \<open>What makes a list of entries an acceptable bundle for a descriptor.\<close>

definition describes :: "(u8 list \<Rightarrow> u8 list) \<Rightarrow> BlobDescriptor \<Rightarrow> entry list \<Rightarrow> bool" where
  "describes blake3 d es \<longleftrightarrow> length es = unat (entry_count d) \<and>
     length (canonical_bytes es) = unat (expanded_size_bytes d) \<and>
     digest d = digest_blake3 blake3 (canonical_bytes es)"

lemma extract_bundle_complete:
  assumes "limits_validate l = Inr l" "blob_validate d = Inr ()" "validate_descriptor_limits d l = Inr ()"
    "check_empty_staging stage = Inr ()" "validate_output_roots output_roots = Inr roots"
    "encoding d = Identity" "describes blake3 d es" "\<forall>e \<in> set es. entry_ok l e"
    "place_entries env roots es = Inr (prev, cur, fs)" "roots_done cur = length roots"
  shows "extract_bundle env blake3 zstd (canonical_bytes es) d stage output_roots l False = Inr fs"
proof -
  let ?r = "counting_new (canonical_bytes es) (encoded_size_bytes d)"
  have size: "encoded_size_bytes d = expanded_size_bytes d" using assms(2,6) by (auto simp: blob_validate_def split: if_splits)
  have buf: "0 < read_buffer_bytes l" using assms(1) by (auto simp: limits_validate_def split: if_splits)
  have len: "length (canonical_bytes es) = unat (expanded_size_bytes d)" using assms(7) by (simp add: describes_def)
  have b: "budget ?r = length (canonical_bytes es)" "counting_inner ?r = canonical_bytes es"
    using len size by (simp_all add: budget_def counting_new_def)
  have "length (canonical_bytes es) \<le> unat (max_expanded_bytes l)"
    using assms(3) len by (auto simp: validate_descriptor_limits_def not_less word_le_nat_alt split: if_splits)
  moreover have "take (budget ?r) (counting_inner ?r) = canonical_bytes es" "length (counting_inner ?r) \<le> budget ?r"
    using b by simp_all
  ultimately obtain inner where x: "extract_canonical env blake3 counting_ops ?r d roots l False = Inr (fs, inner)"
    using counted.extract_canonical_total[of ?r es l d env roots prev cur fs blake3] assms(7-10) buf
    unfolding describes_def by metis
  have "length (take (budget inner) (counting_inner inner)) = 0"
    "int (unat (counting_maximum inner)) - int (unat (counting_bytes inner)) - int (length (take (budget inner) (counting_inner inner))) =
     int (unat (counting_maximum ?r)) - int (unat (counting_bytes ?r)) - int (length (take (budget ?r) (counting_inner ?r)))"
    using counted.extract_canonical_Ok[OF x buf] by (metis list.size(3), metis)
  moreover have "int (unat (counting_maximum ?r)) = int (length (canonical_bytes es))" "int (unat (counting_bytes ?r)) = 0"
    "length (take (budget ?r) (counting_inner ?r)) = length (canonical_bytes es)"
    using len size b by (simp_all add: counting_new_def)
  ultimately have "int (unat (counting_maximum inner)) = int (unat (counting_bytes inner))" by linarith
  then have "counting_bytes inner = counting_maximum inner" by (metis of_nat_eq_iff word_unat_eq_iff)
  then have "verify_complete inner = Inr ()" by (simp add: verify_complete_def)
  then show ?thesis using assms x by (simp add: extract_bundle_def lift_protocol_def)
qed

lemma extract_bundle_complete_zstd:
  assumes "limits_validate l = Inr l" "blob_validate d = Inr ()" "validate_descriptor_limits d l = Inr ()"
    "check_empty_staging stage = Inr ()" "validate_output_roots output_roots = Inr roots"
    "encoding d = ZstdV1" "zstd (take (unat (encoded_size_bytes d)) reader) = Inr (canonical_bytes es, n)"
    "word_of_nat n = encoded_size_bytes d" "describes blake3 d es" "\<forall>e \<in> set es. entry_ok l e"
    "place_entries env roots es = Inr (prev, cur, fs)" "roots_done cur = length roots"
  shows "extract_bundle env blake3 zstd reader d stage output_roots l False = Inr fs"
proof -
  have buf: "0 < read_buffer_bytes l" using assms(1) by (auto simp: limits_validate_def split: if_splits)
  have "length (canonical_bytes es) \<le> unat (max_expanded_bytes l)"
    using assms(3,9) by (auto simp: validate_descriptor_limits_iff describes_def)
  then obtain inner where "extract_canonical env blake3 slice_ops (canonical_bytes es) d roots l False = Inr (fs, inner)"
    using slice.extract_canonical_total[of "canonical_bytes es" es l d env roots prev cur fs blake3] assms(9-12) buf
    unfolding describes_def by metis
  then show ?thesis using assms by (simp add: extract_bundle_def lift_protocol_def verify_complete_def)
qed

section \<open>A concrete bundle\<close>

definition test_limits :: BundleLimits where
  "test_limits = \<lparr>max_encoded_bytes = 4096, max_expanded_bytes = 4096, max_entries = 16, max_path_bytes = 64,
     max_file_bytes = 64, max_compression_ratio = 1, read_buffer_bytes = 4096\<rparr>"

definition empty_stage :: staging_dir where
  "empty_stage = \<lparr>staging_absolute = True, staging_real_directory = True, staging_entries = []\<rparr>"

definition describe :: "(u8 list \<Rightarrow> u8 list) \<Rightarrow> entry list \<Rightarrow> BlobDescriptor" where
  "describe blake3 es =
     (let bs = canonical_bytes es; n = word_of_nat (length bs) in
      \<lparr>digest = digest_blake3 blake3 bs, encoding = Identity, encoded_size_bytes = n, expanded_size_bytes = n,
       entry_count = word_of_nat (length es)\<rparr>)"

lemma extract_test_bundle:
  assumes "validate_output_roots output_roots = Inr roots" "\<forall>e \<in> set es. entry_ok test_limits e"
    "place_entries env roots es = Inr (prev, cur, fs)" "roots_done cur = length roots"
    "es \<noteq> []" "length es \<le> 16" "length (canonical_bytes es) \<le> 4096"
  shows "extract_bundle env blake3 zstd (canonical_bytes es) (describe blake3 es) empty_stage output_roots test_limits False
    = Inr fs"
proof -
  have n: "unat (word_of_nat (length (canonical_bytes es)) :: u64) = length (canonical_bytes es)"
    "unat (word_of_nat (length es) :: u64) = length es"
    using assms(6,7) by (simp_all add: unat_of_nat)
  have "length (canonical_bytes es) \<noteq> 0" by (simp add: canonical_bytes_def BUNDLE_MAGIC_def as_bytes_def)
  then have nz: "(word_of_nat (length (canonical_bytes es)) :: u64) \<noteq> 0" "(word_of_nat (length es) :: u64) \<noteq> 0"
    using n assms(5) by (metis unat_0, metis unat_0 length_0_conv)
  show ?thesis
  proof (rule extract_bundle_complete[OF _ _ _ _ assms(1) _ _ assms(2-4)])
    show "limits_validate test_limits = Inr test_limits" by (simp add: limits_validate_def test_limits_def)
    show "blob_validate (describe blake3 es) = Inr ()"
      using nz by (simp add: blob_validate_def describe_def Let_def digest_blake3_def digest_new_def)
    show "validate_descriptor_limits (describe blake3 es) test_limits = Inr ()"
      using n assms(6,7) by (simp add: validate_descriptor_limits_iff describe_def Let_def test_limits_def)
    show "check_empty_staging empty_stage = Inr ()" by (simp add: check_empty_staging_def empty_stage_def)
    show "encoding (describe blake3 es) = Identity" by (simp add: describe_def Let_def)
    show "describes blake3 (describe blake3 es) es" using n by (simp add: describes_def describe_def Let_def)
  qed
qed

lemmas entry_ok_simps = entry_ok_def path_ok_def test_limits_def validate_path_def MAX_CACHE_STRING_BYTES_def
  validate_symlink_text_def components_def component_of_def starts_with_def

definition plain_bundle :: "entry list" where
  "plain_bundle = [(''out'', Directory), (''out/run'', File True [104, 105])]"

definition no_env :: "string list \<Rightarrow> OutputKind option" where
  "no_env p = None"

lemma plain_bundle_extracts:
  "extract_bundle no_env blake3 zstd (canonical_bytes plain_bundle) (describe blake3 plain_bundle) empty_stage [''out'']
     test_limits False =
   Inr \<lparr>inside = [([''out'', ''run''], File True [104, 105]), ([''out''], Directory)], outside = []\<rparr>"
proof (rule extract_test_bundle)
  show "validate_output_roots [''out''] = Inr [''out'']" by code_simp
  show "\<forall>e \<in> set plain_bundle. entry_ok test_limits e" by (simp add: plain_bundle_def entry_ok_simps)
  show "place_entries no_env [''out''] plain_bundle = Inr (Some ''out/run'', Some 0,
    \<lparr>inside = [([''out'', ''run''], File True [104, 105]), ([''out''], Directory)], outside = []\<rparr>)" by code_simp
qed (code_simp, code_simp, code_simp, code_simp)

text \<open>A bundle in which a symlink that stays inside lexically is resolved through another symlink.\<close>

definition escaping_bundle :: "entry list" where
  "escaping_bundle =
     [(''r'', Directory), (''r/a'', Directory), (''r/a/b'', Directory), (''r/a/b/l'', Symlink ''../../..'' True),
      (''r/z'', Symlink ''a/b/l/..'' True), (''r/z/x/y'', File False [1])]"

definition outer_env :: "string list \<Rightarrow> OutputKind option" where
  "outer_env p = (if p = [''r'', ''z'', ''x''] then Some Directory else None)"

text \<open>
  C19. The lexical check of symlink texts and the check of the direct parent do not keep extraction
  inside the staging directory: this bundle passes every check and is accepted, whatever the hash
  function, and its last entry is written below a directory beside the staging directory.
\<close>

theorem extract_escapes_staging:
  "\<exists>fs. extract_bundle outer_env blake3 zstd (canonical_bytes escaping_bundle) (describe blake3 escaping_bundle)
      empty_stage [''r''] test_limits False = Inr fs \<and>
    outside fs = [([''r'', ''z'', ''x'', ''y''], File False [1])]"
proof -
  let ?fs = "\<lparr>inside = [([''r'', ''z''], Symlink ''a/b/l/..'' True), ([''r'', ''a'', ''b'', ''l''], Symlink ''../../..'' True),
      ([''r'', ''a'', ''b''], Directory), ([''r'', ''a''], Directory), ([''r''], Directory)],
    outside = [([''r'', ''z'', ''x'', ''y''], File False [1])]\<rparr>"
  have "extract_bundle outer_env blake3 zstd (canonical_bytes escaping_bundle) (describe blake3 escaping_bundle)
      empty_stage [''r''] test_limits False = Inr ?fs"
  proof (rule extract_test_bundle)
    show "validate_output_roots [''r''] = Inr [''r'']" by code_simp
    show "\<forall>e \<in> set escaping_bundle. entry_ok test_limits e" by (simp add: escaping_bundle_def entry_ok_simps)
    show "place_entries outer_env [''r''] escaping_bundle = Inr (Some ''r/z/x/y'', Some 0, ?fs)" by code_simp
  qed (code_simp, code_simp, code_simp, code_simp)
  then show ?thesis by (rule exI[where x = ?fs, OF conjI]) simp
qed

definition no_zstd :: zstd_decoder where
  "no_zstd bs = Inl OtherIo"

definition zero_hash :: "u8 list \<Rightarrow> u8 list" where
  "zero_hash bs = replicate 32 0"

theorem extract_bundle_sound_witness:
  "\<exists>es. canonical_bytes plain_bundle = canonical_bytes es \<and> tree_ordered es \<and> length es = 2 \<and> ''out'' \<in> fst ` set es"
proof -
  have "unat (entry_count (describe zero_hash plain_bundle)) = 2"
    "encoding (describe zero_hash plain_bundle) = Identity"
    by (simp_all add: describe_def plain_bundle_def Let_def)
  then show ?thesis
    using extract_bundle_sound[OF plain_bundle_extracts[of zero_hash no_zstd]] by (auto simp: decodes_to_def)
qed

theorem extract_symlink_free_contained_witness:
  "\<exists>es. canonical_bytes plain_bundle = canonical_bytes es \<and>
     (symlink_free es \<longrightarrow> staged [''out''] es [''out'', ''run''] = Some (File True [104, 105]))"
proof -
  have "encoding (describe zero_hash plain_bundle) = Identity" by (simp add: describe_def Let_def)
  then obtain es where "canonical_bytes plain_bundle = canonical_bytes es"
    "symlink_free es \<longrightarrow> map_of [([''out'', ''run''], File True [104, 105]), ([''out''], Directory)] = staged [''out''] es"
    using extract_symlink_free_contained[OF plain_bundle_extracts[of zero_hash no_zstd]] by (auto simp: decodes_to_def)
  then show ?thesis by (metis map_of_Cons_code(2))
qed

section \<open>The digest identifies the tree\<close>

lemma u8_from_bool_inject [simp]: "u8_from_bool x = u8_from_bool y \<longleftrightarrow> x = y"
  by (auto simp: u8_from_bool_def)

lemma kind_bytes_inject:
  assumes "kind_ok l p k" "kind_ok l' p k'" "kind_tag k = kind_tag k'" "kind_bytes k @ s = kind_bytes k' @ t"
  shows "k = k' \<and> s = t"
proof (cases k)
  case Directory
  then show ?thesis using assms by (cases k') (auto simp: tag_defs kind_bytes_def)
next
  case (File x c)
  then obtain y c' where k': "k' = File y c'" using assms(3) by (cases k') (auto simp: tag_defs)
  have len: "length c < 2 ^ 64" "length c' < 2 ^ 64"
    using assms(1,2) File k' unat_less[of "max_file_bytes l"] unat_less[of "max_file_bytes l'"] by auto
  have eq: "x = y" "u64_be (word_of_nat (length c)) = u64_be (word_of_nat (length c'))" "c @ s = c' @ t"
    using assms(4) File k' by (auto simp: kind_bytes_def)
  then have "(word_of_nat (length c) :: u64) = word_of_nat (length c')" by simp
  from arg_cong[OF this, of unat] have "length c = length c'" using len by (simp add: unat_of_nat)
  then show ?thesis using eq File k' by simp
next
  case (Symlink g d)
  then obtain g' d' where k': "k' = Symlink g' d'" using assms(3) by (cases k') (auto simp: tag_defs)
  have "d = d'" "string_bytes g @ s = string_bytes g' @ t"
    using assms(4) Symlink k' by (auto simp: kind_bytes_def string_bytes_def)
  then show ?thesis using self_delimitingD[OF sd_string, of g g' s t] assms(1,2) Symlink k' by simp
qed

lemma sd_entry: "self_delimiting (entry_ok l) entry_bytes"
  unfolding self_delimiting_def
proof (intro allI impI)
  fix e e' s t assume ok: "entry_ok l e" "entry_ok l e'" and eq: "entry_bytes e @ s = entry_bytes e' @ t"
  obtain p k p' k' where e: "e = (p, k)" "e' = (p', k')" by force
  have tag: "kind_tag k = kind_tag k'"
    and "string_bytes p @ kind_bytes k @ s = string_bytes p' @ kind_bytes k' @ t"
    using eq e by (simp_all add: entry_bytes_parts)
  then have p: "p = p'" "kind_bytes k @ s = kind_bytes k' @ t"
    using self_delimitingD[OF sd_string, of p p'] ok e by (auto simp: entry_ok_def path_ok_def)
  then show "e = e' \<and> s = t"
    using kind_bytes_inject[OF _ _ tag p(2), of l p l] ok e by (simp add: entry_ok_def)
qed

lemma sd_concat:
  assumes "self_delimiting P f" "\<And>x. f x \<noteq> []" "\<forall>x \<in> set xs. P x" "\<forall>y \<in> set ys. P y"
    "concat (map f xs) = concat (map f ys)"
  shows "xs = ys"
  using assms(3-5)
proof (induction xs arbitrary: ys)
  case Nil
  then show ?case using assms(2) by (cases ys) auto
next
  case (Cons x xs)
  then obtain y zs where ys: "ys = y # zs" using assms(2)[of x] by (cases ys) auto
  have "x = y \<and> concat (map f xs) = concat (map f zs)"
    by (rule self_delimitingD[OF assms(1)]) (use Cons.prems ys in simp_all)
  then show ?case using Cons.IH[of zs] Cons.prems(1,2) ys by simp
qed

text \<open>
  C20. The canonical layout determines the tree: two lists of acceptable entries with the same
  canonical bytes are equal, so bundles with different trees have different streams and the content
  digest identifies the tree up to collisions of the hash function.
\<close>

theorem canonical_bytes_injective:
  assumes "\<forall>e \<in> set es. entry_ok l e" "\<forall>e \<in> set es'. entry_ok l e" "canonical_bytes es = canonical_bytes es'"
  shows "es = es'"
proof (rule sd_concat[OF sd_entry[of l] _ assms(1,2)])
  show "entry_bytes e \<noteq> []" for e by (cases e) (simp add: entry_bytes_parts)
  show "concat (map entry_bytes es) = concat (map entry_bytes es')" using assms(3) by (simp add: canonical_bytes_def)
qed

theorem canonical_bytes_injective_witness:
  "canonical_bytes plain_bundle \<noteq> canonical_bytes escaping_bundle"
proof
  have "\<forall>e \<in> set plain_bundle. entry_ok test_limits e" "\<forall>e \<in> set escaping_bundle. entry_ok test_limits e"
    by (simp_all add: plain_bundle_def escaping_bundle_def entry_ok_simps)
  moreover assume "canonical_bytes plain_bundle = canonical_bytes escaping_bundle"
  ultimately have "plain_bundle = escaping_bundle" by (rule canonical_bytes_injective)
  then show False by (simp add: plain_bundle_def escaping_bundle_def)
qed

end
