(* ===== verification/Bundle_Pack.thy ===== *)
theory Bundle_Pack
  imports Bundle_Extract
begin

text \<open>
  Packing of output trees (\<^verbatim>\<open>octa-cache/src/bundle/pack.rs\<close>): inspection of entries, the traversal with
  an explicit stack and an entry budget, the summary of the observed metadata, the bounded hashing
  writer, and the stable copy of file contents.  The host is a record of the file-system calls the
  code makes, on a Unix host whose tree does not change while it is packed; a path is the list of
  its names below the file-system root.
\<close>

section \<open>The host\<close>

datatype file_type = RegularFile | DirectoryFile | SymlinkFile | SpecialFile

record Metadata =
  m_type :: file_type
  m_len :: u64
  m_mode :: u32
  m_dev :: u64
  m_ino :: u64
  m_modified :: "(io_kind, bool \<times> u64 \<times> u32) result"
  m_ctime :: u64
  m_ctime_nsec :: u64

type_synonym path = "string list"

record host =
  host_symlink_metadata :: "path \<Rightarrow> (io_kind, Metadata) result"
  host_metadata :: "path \<Rightarrow> (io_kind, Metadata) result"
  host_read_link :: "path \<Rightarrow> (io_kind, string) result"
  host_canonicalize :: "path \<Rightarrow> string \<Rightarrow> (io_kind, path) result"
  host_read_dir :: "path \<Rightarrow> (io_kind, string list) result"
  host_open :: "path \<Rightarrow> (io_kind, Metadata \<times> u8 list) result"

definition show_path :: "path \<Rightarrow> string" where
  "show_path p = concat (map (\<lambda>name. slash # name) p)"

definition lift_io :: "string \<Rightarrow> path \<Rightarrow> (io_kind, 'a) result \<Rightarrow> (CacheError, 'a) result" where
  "lift_io context p r = (case r of Inl e \<Rightarrow> Err (Io context (show_path p) e) | Inr x \<Rightarrow> Ok x)"

lemma lift_io_Ok [result_simps]: "lift_io context p r = Inr x \<longleftrightarrow> r = Inr x"
  by (simp add: lift_io_def split: sum.splits)

definition executable :: "Metadata \<Rightarrow> bool" where
  "executable m \<longleftrightarrow> and (m_mode m) 73 \<noteq> 0"

record EntryKey =
  key_identity :: "u64 \<times> u64"
  key_length :: u64
  key_modified :: "bool \<times> u64 \<times> u32"
  key_change :: "u64 \<times> u64"

definition entry_key_new :: "path \<Rightarrow> Metadata \<Rightarrow> (CacheError, EntryKey) result" where
  "entry_key_new p m =
     and_then (lift_io ''read filesystem entry modification time'' p (m_modified m)) (\<lambda>modified.
       Ok \<lparr>key_identity = (m_dev m, m_ino m), key_length = m_len m, key_modified = modified,
           key_change = (m_ctime m, m_ctime_nsec m)\<rparr>)"

definition update_fingerprint :: "EntryKey \<Rightarrow> u8 list" where
  "update_fingerprint k =
     [1] @ u64_be (fst (key_identity k)) @ u64_be (snd (key_identity k)) @ u64_be (key_length k) @
     (case key_modified k of (before, secs, nanos) \<Rightarrow> [u8_from_bool before] @ u64_be secs @ u32_be nanos) @
     u64_be (fst (key_change k)) @ u64_be (snd (key_change k))"

definition safe_symlink_target :: "host \<Rightarrow> path \<Rightarrow> path \<Rightarrow> string \<Rightarrow> (CacheError, string) result" where
  "safe_symlink_target h workspace link target =
     (if \<not> utf8_valid target then Err (PathInvalid target ''portable symlink targets must be UTF-8'')
      else
        and_then (portable_relative (show_path workspace) (show_path link)) (\<lambda>relative_link.
        case validate_symlink_text relative_link target of
          Inl reason \<Rightarrow> Err (PathInvalid (show_path link) reason)
        | Inr _ \<Rightarrow>
            and_then (lift_io ''resolve cache symlink'' link (host_canonicalize h (butlast link) target)) (\<lambda>resolved.
            if \<not> starts_with resolved workspace
            then Err (PathInvalid (show_path link) ''symlink target resolves outside the workspace'')
            else Ok target)))"

section \<open>Inspection\<close>

datatype EntryKind = DirectoryEntry | FileEntry u64 bool | SymlinkEntry string bool

record OutputEntry =
  oe_path :: RelativePath
  oe_source :: path
  discovered :: EntryKey
  oe_kind :: EntryKind

definition inspect_output_entry :: "host \<Rightarrow> path \<Rightarrow> BundleLimits \<Rightarrow> path \<Rightarrow> (CacheError, OutputEntry) result" where
  "inspect_output_entry h workspace limits p =
     and_then (lift_io ''inspect declared output'' p (host_symlink_metadata h p)) (\<lambda>metadata.
     and_then (portable_relative (show_path workspace) (show_path p)) (\<lambda>relative.
     if length relative > max_path_bytes limits
     then Err (Limit (''output path exceeds '' @ decimal (max_path_bytes limits) @ '' UTF-8 bytes''))
     else
       and_then (entry_key_new p metadata) (\<lambda>key.
       and_then
         (case m_type metadata of
            SymlinkFile \<Rightarrow>
              and_then (lift_io ''read output symlink'' p (host_read_link h p)) (\<lambda>link.
              and_then (safe_symlink_target h workspace p link) (\<lambda>target.
              and_then (lift_io ''inspect output symlink target'' p (host_metadata h p)) (\<lambda>followed.
                Ok (SymlinkEntry target (m_type followed = DirectoryFile)))))
          | DirectoryFile \<Rightarrow> Ok DirectoryEntry
          | RegularFile \<Rightarrow>
              if m_len metadata > max_file_bytes limits
              then Err (Limit (''output file '' @ quoted relative @ '' exceeds '' @
                     decimal (unat (max_file_bytes limits)) @ '' bytes''))
              else Ok (FileEntry (m_len metadata) (executable metadata))
          | SpecialFile \<Rightarrow>
              Err (UnsupportedEntry (show_path p) ''only regular files, directories, and symlinks can be bundled''))
         (\<lambda>kind. Ok \<lparr>oe_path = relative, oe_source = p, discovered = key, oe_kind = kind\<rparr>))))"

definition push_child :: "path \<Rightarrow> nat \<Rightarrow> string list \<Rightarrow> string \<Rightarrow> (CacheError, string list) result" where
  "push_child p maximum children name =
     (if length children \<ge> maximum
      then Err (Limit (''output directory '' @ quoted (show_path p) @ '' exceeds the remaining bundle entry limit''))
      else if \<not> utf8_valid name
      then Err (PathInvalid (show_path (p @ [name])) ''portable cache paths must be UTF-8'')
      else Ok (children @ [name]))"

definition read_sorted_children :: "host \<Rightarrow> path \<Rightarrow> nat \<Rightarrow> (CacheError, path list) result" where
  "read_sorted_children h p maximum =
     and_then (lift_io ''read output directory'' p (host_read_dir h p)) (\<lambda>names.
     and_then (try_fold (push_child p maximum) [] names) (\<lambda>children.
       Ok (map (\<lambda>name. p @ [name]) (sort_by ord_cmp children))))"

definition validate_stable_entry :: "host \<Rightarrow> OutputEntry \<Rightarrow> (CacheError, unit) result" where
  "validate_stable_entry h e =
     and_then (lift_io ''reinspect output while bundling'' (oe_source e) (host_symlink_metadata h (oe_source e))) (\<lambda>metadata.
     and_then
       (case oe_kind e of
          DirectoryEntry \<Rightarrow> Ok (m_type metadata = DirectoryFile)
        | FileEntry len x \<Rightarrow> Ok (m_type metadata = RegularFile)
        | SymlinkEntry target directory \<Rightarrow>
            if m_type metadata \<noteq> SymlinkFile then Ok False
            else
              and_then (lift_io ''reinspect output symlink'' (oe_source e) (host_read_link h (oe_source e))) (\<lambda>current_target.
              and_then (lift_io ''reinspect output symlink target'' (oe_source e) (host_metadata h (oe_source e))) (\<lambda>followed.
                Ok (current_target = target \<and> (m_type followed = DirectoryFile) = directory))))
       (\<lambda>expected_kind_matches.
     if \<not> expected_kind_matches then Err (UnstableFile (show_path (oe_source e)))
     else and_then (entry_key_new (oe_source e) metadata) (\<lambda>key.
       if key \<noteq> discovered e then Err (UnstableFile (show_path (oe_source e))) else Ok ())))"

section \<open>Traversal\<close>

text \<open>
  A frame of the traversal stack.  The counters are natural numbers: they start at the number of
  roots and are checked against the 64-bit entry limit before they grow.
\<close>

datatype Frame = Enter path | ResumeDirectory OutputEntry "path list" nat nat

lemma push_children_length:
  "try_fold (push_child p maximum) acc names = Inr children \<Longrightarrow> length acc \<le> maximum \<Longrightarrow> length children \<le> maximum"
  by (induction names arbitrary: acc) (auto simp: push_child_def result_simps split: if_splits)

lemma sort_by_ord: "sort_by ord_cmp xs = sort xs"
  using sort_by_key[of ord_cmp "\<lambda>x. x"] by simp

lemma read_sorted_children_length: "read_sorted_children h p maximum = Inr cs \<Longrightarrow> length cs \<le> maximum"
  using push_children_length[of p maximum "[]"] by (auto simp: read_sorted_children_def result_simps sort_by_ord)

lemma and_then_cong [fundef_cong]:
  "m = m' \<Longrightarrow> (\<And>x. m' = Inr x \<Longrightarrow> f x = g x) \<Longrightarrow> and_then m f = and_then m' g"
  by (cases m') auto

fun frame_weight :: "Frame \<Rightarrow> nat" where
  "frame_weight (Enter p) = 2"
| "frame_weight (ResumeDirectory e cs next_child limit) = 3 * (length cs - next_child) + 1"

function visit_loop ::
    "host \<Rightarrow> path \<Rightarrow> BundleLimits \<Rightarrow> bool \<Rightarrow> ('s \<Rightarrow> OutputEntry \<Rightarrow> (CacheError, 's) result) \<Rightarrow>
     nat \<Rightarrow> nat \<Rightarrow> Frame list \<Rightarrow> 's \<Rightarrow> (CacheError, nat \<times> 's) result" where
  "visit_loop h workspace limits cancelled visit entries scheduled [] s = Ok (entries, s)"
| "visit_loop h workspace limits cancelled visit entries scheduled (Enter p # stack) s =
     and_then (check_cancelled cancelled) (\<lambda>_.
     and_then (inspect_output_entry h workspace limits p) (\<lambda>e.
     and_then (visit s e) (\<lambda>s'.
     if oe_kind e = DirectoryEntry then
       let child_limit = unat (max_entries limits) - scheduled in
       and_then (read_sorted_children h p child_limit) (\<lambda>children.
         visit_loop h workspace limits cancelled visit (entries + 1) (scheduled + length children)
           (ResumeDirectory e children 0 child_limit # stack) s')
     else
       and_then (validate_stable_entry h e) (\<lambda>_.
         visit_loop h workspace limits cancelled visit (entries + 1) scheduled stack s'))))"
| "visit_loop h workspace limits cancelled visit entries scheduled
     (ResumeDirectory e children next_child child_limit # stack) s =
     (if next_child < length children then
        visit_loop h workspace limits cancelled visit entries scheduled
          (Enter (children ! next_child) # ResumeDirectory e children (next_child + 1) child_limit # stack) s
      else
        and_then (read_sorted_children h (oe_source e) child_limit) (\<lambda>again.
        if again \<noteq> children then Err (UnstableFile (show_path (oe_source e)))
        else and_then (validate_stable_entry h e) (\<lambda>_.
          visit_loop h workspace limits cancelled visit entries scheduled stack s)))"
  by pat_completeness auto
termination
  by (relation "measure (\<lambda>(h, workspace, limits, cancelled, visit, entries, scheduled, stack, s).
      3 * (unat (max_entries limits) - scheduled) + sum_list (map frame_weight stack))")
    (auto dest: read_sorted_children_length)

definition visit_output_tree ::
    "host \<Rightarrow> path \<Rightarrow> RelativePath list \<Rightarrow> BundleLimits \<Rightarrow> bool \<Rightarrow>
     ('s \<Rightarrow> OutputEntry \<Rightarrow> (CacheError, 's) result) \<Rightarrow> 's \<Rightarrow> (CacheError, nat \<times> 's) result" where
  "visit_output_tree h workspace roots limits cancelled visit s =
     (if length roots > unat (max_entries limits)
      then Err (Limit (''output bundle contains more than '' @ decimal (unat (max_entries limits)) @ '' entries''))
      else visit_loop h workspace limits cancelled visit 0 (length roots)
        (map (\<lambda>root. Enter (join_relative workspace root)) roots) s)"

section \<open>The summary of observed metadata\<close>

record TreeSummaryBuilder =
  summary_entries :: u64
  summary_hasher :: "u8 list"

record TreeSummary =
  tree_entries :: u64
  fingerprint :: "u8 list"

definition summary_new :: TreeSummaryBuilder where
  "summary_new = \<lparr>summary_entries = 0, summary_hasher = []\<rparr>"

definition observe :: "TreeSummaryBuilder \<Rightarrow> OutputEntry \<Rightarrow> TreeSummaryBuilder" where
  "observe b e =
     b\<lparr>summary_entries := summary_entries b + 1,
       summary_hasher := summary_hasher b @ u32_be (word_of_nat (length (oe_path e))) @ as_bytes (oe_path e) @
         (case oe_kind e of
            DirectoryEntry \<Rightarrow> [DIRECTORY_TAG]
          | FileEntry len x \<Rightarrow> [FILE_TAG, u8_from_bool x] @ u64_be len
          | SymlinkEntry target directory \<Rightarrow> [SYMLINK_TAG, u8_from_bool directory] @
              u32_be (word_of_nat (length target)) @ as_bytes target) @
         update_fingerprint (discovered e)\<rparr>"

definition summary_finish :: "(u8 list \<Rightarrow> u8 list) \<Rightarrow> TreeSummaryBuilder \<Rightarrow> TreeSummary" where
  "summary_finish blake3 b = \<lparr>tree_entries = summary_entries b, fingerprint = blake3 (summary_hasher b)\<rparr>"

definition summarize_output_tree ::
    "(u8 list \<Rightarrow> u8 list) \<Rightarrow> host \<Rightarrow> path \<Rightarrow> RelativePath list \<Rightarrow> BundleLimits \<Rightarrow> bool \<Rightarrow> (CacheError, TreeSummary) result" where
  "summarize_output_tree blake3 h workspace roots limits cancelled =
     and_then (visit_output_tree h workspace roots limits cancelled (\<lambda>b e. Ok (observe b e)) summary_new) (\<lambda>(_, b).
       Ok (summary_finish blake3 b))"

section \<open>Writers\<close>

record CountingWriter =
  cw_inner :: "u8 list"
  cw_bytes :: u64
  cw_maximum :: u64

definition counting_writer_new :: "u64 \<Rightarrow> CountingWriter" where
  "counting_writer_new maximum = \<lparr>cw_inner = [], cw_bytes = 0, cw_maximum = maximum\<rparr>"

text \<open>The sink behind it is in memory and takes a whole buffer.\<close>

definition counting_write :: "CountingWriter \<Rightarrow> u8 list \<Rightarrow> (io_kind, CountingWriter) result" where
  "counting_write w buffer =
     (let remaining = saturating_sub (cw_maximum w) (cw_bytes w) in
      if word_of_nat (length buffer) > remaining then Err OtherIo
      else Ok (w\<lparr>cw_inner := cw_inner w @ buffer, cw_bytes := cw_bytes w + word_of_nat (length buffer)\<rparr>))"

text \<open>The input side of the Zstandard encoder collects the bytes it is to encode.\<close>

definition encoder_write :: "u8 list \<Rightarrow> u8 list \<Rightarrow> (io_kind, u8 list) result" where
  "encoder_write w buffer = Ok (w @ buffer)"

record 'w CanonicalWriter =
  writer_inner :: 'w
  writer_hashed :: "u8 list"
  writer_bytes :: u64
  writer_maximum :: u64

definition writer_new :: "'w \<Rightarrow> u64 \<Rightarrow> 'w CanonicalWriter" where
  "writer_new inner maximum =
     \<lparr>writer_inner = inner, writer_hashed = [], writer_bytes = 0, writer_maximum = maximum\<rparr>"

definition writer_write ::
    "('w \<Rightarrow> u8 list \<Rightarrow> (io_kind, 'w) result) \<Rightarrow> 'w CanonicalWriter \<Rightarrow> u8 list \<Rightarrow> (CacheError, 'w CanonicalWriter) result" where
  "writer_write write_inner w buffer =
     (case checked_add (writer_bytes w) (word_of_nat (length buffer)) of
        None \<Rightarrow> Err (Stream OtherIo)
      | Some next_bytes \<Rightarrow>
          if next_bytes > writer_maximum w then Err (Stream OtherIo)
          else case write_inner (writer_inner w) buffer of
            Inl e \<Rightarrow> Err (Stream e)
          | Inr inner \<Rightarrow>
              Ok (w\<lparr>writer_inner := inner, writer_hashed := writer_hashed w @ buffer, writer_bytes := next_bytes\<rparr>))"

definition writer_finish :: "(u8 list \<Rightarrow> u8 list) \<Rightarrow> 'w CanonicalWriter \<Rightarrow> Digest \<times> u64" where
  "writer_finish blake3 w = (digest_new Blake3 (blake3 (writer_hashed w)) (writer_bytes w), writer_bytes w)"

function chunks_of :: "nat \<Rightarrow> u8 list \<Rightarrow> u8 list list" where
  "chunks_of n bs = (if n = 0 \<or> bs = [] then [] else take n bs # chunks_of n (drop n bs))"
  by pat_completeness auto
termination
  by (relation "measure (\<lambda>(n, bs). length bs)") auto

declare chunks_of.simps [simp del]

definition copy_stable_file ::
    "host \<Rightarrow> ('w \<Rightarrow> u8 list \<Rightarrow> (io_kind, 'w) result) \<Rightarrow> OutputEntry \<Rightarrow> u64 \<Rightarrow> nat \<Rightarrow> bool \<Rightarrow> 'w CanonicalWriter
     \<Rightarrow> (CacheError, 'w CanonicalWriter) result" where
  "copy_stable_file h write_inner e expected_length buffer_len cancelled w =
     (let source = oe_source e; unstable = UnstableFile (show_path source) in
      and_then (lift_io ''inspect output before bundling'' source (host_symlink_metadata h source)) (\<lambda>before.
      if m_type before \<noteq> RegularFile \<or> m_len before \<noteq> expected_length then Err unstable
      else
        and_then (entry_key_new source before) (\<lambda>before_key.
        if before_key \<noteq> discovered e then Err unstable
        else
          and_then (lift_io ''open output for bundling'' source (host_open h source)) (\<lambda>(opened, content).
          and_then (entry_key_new source opened) (\<lambda>opened_key.
          if opened_key \<noteq> before_key then Err unstable
          else
            and_then (check_cancelled cancelled) (\<lambda>_.
            and_then (try_fold (writer_write write_inner) w (chunks_of buffer_len content)) (\<lambda>w'.
            and_then (lift_io ''inspect output after bundling'' source (host_symlink_metadata h source)) (\<lambda>after.
            and_then (entry_key_new source after) (\<lambda>after_key.
            if word_of_nat (length content) \<noteq> expected_length \<or> m_type after \<noteq> RegularFile \<or>
               after_key \<noteq> before_key \<or> opened_key \<noteq> before_key
            then Err unstable else Ok w')))))))))"

fun entry_tag :: "EntryKind \<Rightarrow> u8" where
  "entry_tag DirectoryEntry = DIRECTORY_TAG"
| "entry_tag (FileEntry len x) = FILE_TAG"
| "entry_tag (SymlinkEntry target directory) = SYMLINK_TAG"

definition write_entry ::
    "host \<Rightarrow> ('w \<Rightarrow> u8 list \<Rightarrow> (io_kind, 'w) result) \<Rightarrow> BundleLimits \<Rightarrow> bool \<Rightarrow>
     TreeSummaryBuilder \<times> 'w CanonicalWriter \<Rightarrow> OutputEntry \<Rightarrow>
     (CacheError, TreeSummaryBuilder \<times> 'w CanonicalWriter) result" where
  "write_entry h write_inner limits cancelled st e =
     (let write = writer_write write_inner; summary = observe (fst st) e in
      and_then (try_fold write (snd st)
        [[entry_tag (oe_kind e)], u32_be (word_of_nat (length (oe_path e))), as_bytes (oe_path e)]) (\<lambda>w.
      and_then
        (case oe_kind e of
           DirectoryEntry \<Rightarrow> Ok w
         | FileEntry len x \<Rightarrow>
             and_then (try_fold write w [[u8_from_bool x], u64_be len]) (\<lambda>w.
               copy_stable_file h write_inner e len (read_buffer_bytes limits) cancelled w)
         | SymlinkEntry target directory \<Rightarrow>
             try_fold write w [[u8_from_bool directory], u32_be (word_of_nat (length target)), as_bytes target])
        (\<lambda>w. Ok (summary, w))))"

definition write_canonical ::
    "(u8 list \<Rightarrow> u8 list) \<Rightarrow> host \<Rightarrow> ('w \<Rightarrow> u8 list \<Rightarrow> (io_kind, 'w) result) \<Rightarrow> 'w \<Rightarrow> path \<Rightarrow> RelativePath list \<Rightarrow>
     BundleLimits \<Rightarrow> bool \<Rightarrow> (CacheError, 'w \<times> Digest \<times> u64 \<times> u64) result" where
  "write_canonical blake3 h write_inner inner workspace roots limits cancelled =
     and_then (writer_write write_inner (writer_new inner (max_expanded_bytes limits)) BUNDLE_MAGIC) (\<lambda>w.
     and_then (visit_output_tree h workspace roots limits cancelled (write_entry h write_inner limits cancelled)
         (summary_new, w)) (\<lambda>(_, summary, w').
     let written = summary_finish blake3 summary; (digest, expanded) = writer_finish blake3 w' in
     and_then (summarize_output_tree blake3 h workspace roots limits cancelled) (\<lambda>again.
     if again \<noteq> written then Err (UnstableFile (show_path workspace))
     else Ok (writer_inner w', digest, expanded, tree_entries written))))"

definition descriptor :: "Digest \<Rightarrow> BlobEncoding \<Rightarrow> u64 \<Rightarrow> u64 \<Rightarrow> u64 \<Rightarrow> BlobDescriptor" where
  "descriptor dig enc encoded expanded n_entries =
     \<lparr>digest = dig, encoding = enc, encoded_size_bytes = encoded, expanded_size_bytes = expanded, entry_count = n_entries\<rparr>"

text \<open>
  The Zstandard encoder is a parameter: the encoded form of a whole input at a level.  The workspace
  is canonical, as \<open>dunce::canonicalize\<close> returns it.
\<close>

type_synonym zstd_encoder = "int \<Rightarrow> u8 list \<Rightarrow> (io_kind, u8 list) result"

definition pack_bundle ::
    "(u8 list \<Rightarrow> u8 list) \<Rightarrow> zstd_encoder \<Rightarrow> host \<Rightarrow> path \<Rightarrow> RelativePath list \<Rightarrow> BundleEncoding \<Rightarrow> BundleLimits \<Rightarrow> bool
     \<Rightarrow> (CacheError, u8 list \<times> BlobDescriptor) result" where
  "pack_bundle blake3 zstd h workspace output_roots enc0 limits0 cancelled =
     and_then (limits_validate limits0) (\<lambda>limits.
     and_then (bundle_encoding_validate enc0) (\<lambda>enc.
     and_then (check_cancelled cancelled) (\<lambda>_.
     and_then (validate_output_roots output_roots) (\<lambda>roots.
     let sink = counting_writer_new (max_encoded_bytes limits) in
     case enc of
       IdentityBundle \<Rightarrow>
         and_then (write_canonical blake3 h counting_write sink workspace roots limits cancelled)
           (\<lambda>(encoded, digest, expanded, n_entries).
           Ok (cw_inner encoded, descriptor digest (encoding_protocol enc) (cw_bytes encoded) expanded n_entries))
     | ZstdBundle level \<Rightarrow>
         and_then (write_canonical blake3 h encoder_write [] workspace roots limits cancelled)
           (\<lambda>(plain, digest, expanded, n_entries).
         case and_then (zstd level plain) (counting_write sink) of
           Inl e \<Rightarrow> Err (Stream e)
         | Inr encoded \<Rightarrow>
             Ok (cw_inner encoded, descriptor digest (encoding_protocol enc) (cw_bytes encoded) expanded n_entries))))))"

definition inspect_outputs ::
    "(u8 list \<Rightarrow> u8 list) \<Rightarrow> zstd_encoder \<Rightarrow> host \<Rightarrow> path \<Rightarrow> RelativePath list \<Rightarrow> BundleLimits \<Rightarrow> bool
     \<Rightarrow> (CacheError, BlobDescriptor) result" where
  "inspect_outputs blake3 zstd h workspace output_roots limits cancelled =
     and_then (pack_bundle blake3 zstd h workspace output_roots IdentityBundle limits cancelled) (\<lambda>(_, d). Ok d)"

section \<open>Sinks\<close>

text \<open>What the canonical writer relies on of the sink behind it: a successful write appends the buffer.\<close>

locale byte_sink =
  fixes write_inner :: "'w \<Rightarrow> u8 list \<Rightarrow> (io_kind, 'w) result"
    and taken :: "'w \<Rightarrow> u8 list"
    and wf_sink :: "'w \<Rightarrow> bool"
  assumes write_Ok: "wf_sink w \<Longrightarrow> length b < 2 ^ 64 \<Longrightarrow> write_inner w b = Inr w' \<Longrightarrow>
    wf_sink w' \<and> taken w' = taken w @ b"
begin

definition writer_ok :: "'w CanonicalWriter \<Rightarrow> bool" where
  "writer_ok w \<longleftrightarrow> wf_sink (writer_inner w) \<and> taken (writer_inner w) = writer_hashed w \<and>
     unat (writer_bytes w) = length (writer_hashed w) \<and> writer_bytes w \<le> writer_maximum w"

lemma writer_write_Ok:
  assumes "writer_ok w" "length b < 2 ^ 64" "writer_write write_inner w b = Inr w'"
  shows "writer_ok w' \<and> writer_hashed w' = writer_hashed w @ b \<and> writer_maximum w' = writer_maximum w"
proof -
  obtain n inner where w': "checked_add (writer_bytes w) (word_of_nat (length b)) = Some n" "n \<le> writer_maximum w"
    "write_inner (writer_inner w) b = Inr inner"
    "w' = w\<lparr>writer_inner := inner, writer_hashed := writer_hashed w @ b, writer_bytes := n\<rparr>"
    using assms(3) by (auto simp: writer_write_def not_less split: option.splits if_splits sum.splits)
  have "unat n = unat (writer_bytes w) + length b"
    using w'(1) assms(2) by (simp add: checked_add_Some unat_of_nat)
  then show ?thesis using write_Ok[OF _ assms(2) w'(3)] assms(1) w' by (simp add: writer_ok_def)
qed

lemma writer_fold_Ok:
  assumes "writer_ok w" "\<forall>b \<in> set bs. length b < 2 ^ 64" "try_fold (writer_write write_inner) w bs = Inr w'"
  shows "writer_ok w' \<and> writer_hashed w' = writer_hashed w @ concat bs \<and> writer_maximum w' = writer_maximum w"
  using assms
proof (induction bs arbitrary: w)
  case (Cons b bs)
  obtain w1 where w1: "writer_write write_inner w b = Inr w1" "try_fold (writer_write write_inner) w1 bs = Inr w'"
    using Cons.prems(3) by (auto simp: result_simps)
  show ?case using Cons.IH[OF _ _ w1(2)] writer_write_Ok[OF Cons.prems(1) _ w1(1)] Cons.prems(2) by simp
qed simp

end

lemma concat_chunks_of: "0 < n \<Longrightarrow> concat (chunks_of n bs) = bs"
  by (induction n bs rule: chunks_of.induct) (subst chunks_of.simps, auto)

lemma length_chunks_of: "b \<in> set (chunks_of n bs) \<Longrightarrow> length b \<le> n"
  by (induction n bs rule: chunks_of.induct) (subst (asm) (2) chunks_of.simps, auto split: if_splits)

text \<open>The entry that is written for an inspected entry of the host.\<close>

definition entry_kind :: "host \<Rightarrow> OutputEntry \<Rightarrow> OutputKind" where
  "entry_kind h e =
     (case oe_kind e of
        DirectoryEntry \<Rightarrow> Directory
      | FileEntry len x \<Rightarrow> File x (case host_open h (oe_source e) of Inr (_, c) \<Rightarrow> c | Inl _ \<Rightarrow> [])
      | SymlinkEntry target directory \<Rightarrow> Symlink target directory)"

definition packed_entry :: "host \<Rightarrow> OutputEntry \<Rightarrow> entry" where
  "packed_entry h e = (oe_path e, entry_kind h e)"

definition small_entry :: "OutputEntry \<Rightarrow> bool" where
  "small_entry e \<longleftrightarrow> length (oe_path e) < 2 ^ 32 \<and>
     (case oe_kind e of SymlinkEntry target directory \<Rightarrow> length target < 2 ^ 32 | _ \<Rightarrow> True)"

definition file_sized :: "host \<Rightarrow> OutputEntry \<Rightarrow> bool" where
  "file_sized h e \<longleftrightarrow>
     (\<forall>len x c. oe_kind e = FileEntry len x \<longrightarrow> entry_kind h e = File x c \<longrightarrow> word_of_nat (length c) = len)"

context byte_sink
begin

lemma copy_stable_file_Ok:
  assumes "writer_ok w" "0 < n" "n < 2 ^ 64" "copy_stable_file h write_inner e len n cancelled w = Inr w'"
  shows "\<exists>m c. host_open h (oe_source e) = Inr (m, c) \<and> word_of_nat (length c) = len \<and> writer_ok w' \<and>
    writer_hashed w' = writer_hashed w @ c \<and> writer_maximum w' = writer_maximum w"
proof -
  obtain m c where c: "host_open h (oe_source e) = Inr (m, c)" "word_of_nat (length c) = len"
    "try_fold (writer_write write_inner) w (chunks_of n c) = Inr w'"
    using assms(4) by (auto simp: copy_stable_file_def Let_def result_simps split: if_splits)
  have "\<forall>b \<in> set (chunks_of n c). length b < 2 ^ 64"
    using length_chunks_of assms(3) by (meson order_le_less_trans)
  then show ?thesis using writer_fold_Ok[OF assms(1) _ c(3)] c concat_chunks_of[OF assms(2)] by simp
qed

lemma write_entry_Ok:
  assumes "writer_ok w" "0 < read_buffer_bytes l" "read_buffer_bytes l < 2 ^ 64" "small_entry e"
    "write_entry h write_inner l cancelled (b, w) e = Inr (b', w')"
  shows "b' = observe b e \<and> writer_ok w' \<and> writer_hashed w' = writer_hashed w @ entry_bytes (packed_entry h e) \<and>
    writer_maximum w' = writer_maximum w \<and> file_sized h e"
proof -
  let ?head = "[[entry_tag (oe_kind e)], u32_be (word_of_nat (length (oe_path e))), as_bytes (oe_path e)]"
  obtain w1 where w1: "try_fold (writer_write write_inner) w ?head = Inr w1"
    using assms(5) by (auto simp: write_entry_def Let_def result_simps)
  have "writer_ok w1 \<and> writer_hashed w1 = writer_hashed w @ concat ?head \<and> writer_maximum w1 = writer_maximum w"
    by (rule writer_fold_Ok[OF assms(1) _ w1]) (use assms(4) in \<open>auto simp: small_entry_def\<close>)
  then have w1': "writer_ok w1" "writer_hashed w1 = writer_hashed w @ entry_tag (oe_kind e) # string_bytes (oe_path e)"
    "writer_maximum w1 = writer_maximum w"
    by (simp_all add: string_bytes_def)
  show ?thesis
  proof (cases "oe_kind e")
    case DirectoryEntry
    then have "w' = w1" "b' = observe b e" using assms(5) w1 by (auto simp: write_entry_def Let_def)
    then show ?thesis
      using w1' DirectoryEntry by (simp add: packed_entry_def entry_kind_def entry_bytes_parts kind_bytes_def file_sized_def)
  next
    case (FileEntry len x)
    let ?mid = "[[u8_from_bool x], u64_be len]"
    obtain w2 where w2: "try_fold (writer_write write_inner) w1 ?mid = Inr w2"
      "copy_stable_file h write_inner e len (read_buffer_bytes l) cancelled w2 = Inr w'" "b' = observe b e"
      using assms(5) w1 FileEntry by (auto simp: write_entry_def Let_def result_simps simp del: try_fold.simps)
    have w2': "writer_ok w2 \<and> writer_hashed w2 = writer_hashed w1 @ concat ?mid \<and> writer_maximum w2 = writer_maximum w1"
      by (rule writer_fold_Ok[OF w1'(1) _ w2(1)]) simp
    obtain m c where c: "host_open h (oe_source e) = Inr (m, c)" "word_of_nat (length c) = len" "writer_ok w'"
      "writer_hashed w' = writer_hashed w2 @ c" "writer_maximum w' = writer_maximum w2"
      using copy_stable_file_Ok[OF _ assms(2,3) w2(2)] w2' by blast
    have "entry_kind h e = File x c" using FileEntry c(1) by (simp add: entry_kind_def)
    then show ?thesis
      using w1' w2(3) w2' c FileEntry by (simp add: packed_entry_def entry_bytes_parts kind_bytes_def file_sized_def)
  next
    case (SymlinkEntry t d)
    let ?tail = "[[u8_from_bool d], u32_be (word_of_nat (length t)), as_bytes t]"
    have w2: "try_fold (writer_write write_inner) w1 ?tail = Inr w'" "b' = observe b e"
      using assms(5) w1 SymlinkEntry by (auto simp: write_entry_def Let_def result_simps simp del: try_fold.simps)
    have "writer_ok w' \<and> writer_hashed w' = writer_hashed w1 @ concat ?tail \<and> writer_maximum w' = writer_maximum w1"
      by (rule writer_fold_Ok[OF w1'(1) _ w2(1)]) (use assms(4) SymlinkEntry in \<open>auto simp: small_entry_def\<close>)
    then show ?thesis
      using w1' w2(2) SymlinkEntry
      by (simp add: packed_entry_def entry_kind_def entry_bytes_parts kind_bytes_def string_bytes_def file_sized_def)
  qed
qed

lemma write_entries_Ok:
  assumes "writer_ok w" "0 < read_buffer_bytes l" "read_buffer_bytes l < 2 ^ 64" "\<forall>e \<in> set es. small_entry e"
    "try_fold (write_entry h write_inner l cancelled) (b, w) es = Inr (b', w')"
  shows "b' = foldl observe b es \<and> writer_ok w' \<and> (\<forall>e \<in> set es. file_sized h e) \<and>
    writer_hashed w' = writer_hashed w @ concat (map (entry_bytes \<circ> packed_entry h) es) \<and>
    writer_maximum w' = writer_maximum w"
  using assms(1,4,5)
proof (induction es arbitrary: b w)
  case (Cons e es)
  obtain b1 w1 where st: "write_entry h write_inner l cancelled (b, w) e = Inr (b1, w1)"
    "try_fold (write_entry h write_inner l cancelled) (b1, w1) es = Inr (b', w')"
    using Cons.prems(3) by (auto simp: result_simps)
  have "small_entry e" using Cons.prems(2) by simp
  note e = write_entry_Ok[OF Cons.prems(1) assms(2,3) this st(1)]
  show ?case using Cons.IH[OF _ _ st(2)] e Cons.prems(2) by simp
qed simp

end

text \<open>The two sinks of packing.\<close>

interpretation counted_sink: byte_sink counting_write cw_inner
  "\<lambda>w. unat (cw_bytes w) = length (cw_inner w) \<and> cw_bytes w \<le> cw_maximum w \<and> cw_maximum w = maximum"
  for maximum :: u64
proof
  fix w b w'
  assume wf: "unat (cw_bytes w) = length (cw_inner w) \<and> cw_bytes w \<le> cw_maximum w \<and> cw_maximum w = maximum"
    "length b < 2 ^ 64"
    and ok: "counting_write w b = Inr w'"
  have w': "w' = w\<lparr>cw_inner := cw_inner w @ b, cw_bytes := cw_bytes w + word_of_nat (length b)\<rparr>"
    "\<not> saturating_sub (cw_maximum w) (cw_bytes w) < word_of_nat (length b)"
    using ok by (auto simp: counting_write_def Let_def split: if_splits)
  have "unat (cw_bytes w) \<le> unat (cw_maximum w)" using wf(1) unfolding word_le_nat_alt by blast
  moreover have "length b \<le> unat (cw_maximum w) - unat (cw_bytes w)"
    using w'(2) wf(2) by (simp add: word_less_nat_alt unat_saturating_sub unat_of_nat)
  ultimately have le: "unat (cw_bytes w) + length b \<le> unat (cw_maximum w)" by linarith
  then have "unat (cw_bytes w) + length b < 2 ^ 64" using unat_less[of "cw_maximum w"] by simp
  then have "unat (cw_bytes w + word_of_nat (length b)) = unat (cw_bytes w) + length b"
    by (simp add: unat_word_ariths unat_of_nat)
  then show "(unat (cw_bytes w') = length (cw_inner w') \<and> cw_bytes w' \<le> cw_maximum w' \<and> cw_maximum w' = maximum) \<and>
      cw_inner w' = cw_inner w @ b"
    using w'(1) wf le by (simp add: word_le_nat_alt)
qed

interpretation encoder_sink: byte_sink encoder_write "\<lambda>w. w" "\<lambda>_. True"
  by unfold_locales (auto simp: encoder_write_def)

section \<open>The traversal is the sorted pre-order\<close>

text \<open>The entries of the tree at a path: an entry, then its children in the order of their names.\<close>

inductive preorder :: "host \<Rightarrow> path \<Rightarrow> BundleLimits \<Rightarrow> path \<Rightarrow> OutputEntry list \<Rightarrow> bool"
  for h :: host and workspace :: path and l :: BundleLimits where
  preorder_leaf: "inspect_output_entry h workspace l p = Inr e \<Longrightarrow> oe_kind e \<noteq> DirectoryEntry \<Longrightarrow>
    preorder h workspace l p [e]"
| preorder_dir: "inspect_output_entry h workspace l p = Inr e \<Longrightarrow> oe_kind e = DirectoryEntry \<Longrightarrow>
    host_read_dir h p = Inr names \<Longrightarrow>
    list_all2 (preorder h workspace l) (map (\<lambda>n. p @ [n]) (sort names)) ess \<Longrightarrow>
    preorder h workspace l p (e # concat ess)"

fun stack_yields :: "host \<Rightarrow> path \<Rightarrow> BundleLimits \<Rightarrow> Frame list \<Rightarrow> OutputEntry list \<Rightarrow> bool" where
  "stack_yields h workspace l [] es \<longleftrightarrow> es = []"
| "stack_yields h workspace l (Enter p # stack) es \<longleftrightarrow>
     (\<exists>a b. es = a @ b \<and> preorder h workspace l p a \<and> stack_yields h workspace l stack b)"
| "stack_yields h workspace l (ResumeDirectory e cs n limit # stack) es \<longleftrightarrow>
     (\<exists>ess b. es = concat ess @ b \<and> list_all2 (preorder h workspace l) (drop n cs) ess \<and>
        stack_yields h workspace l stack b)"

lemma push_children: "try_fold (push_child p maximum) acc names = Inr cs \<Longrightarrow> cs = acc @ names"
  by (induction names arbitrary: acc) (fastforce simp: push_child_def result_simps split: if_splits)+

lemma read_sorted_children_Ok:
  "read_sorted_children h p maximum = Inr cs \<Longrightarrow>
     \<exists>names. host_read_dir h p = Inr names \<and> cs = map (\<lambda>n. p @ [n]) (sort names)"
  using push_children[of p maximum "[]"] by (auto simp: read_sorted_children_def result_simps sort_by_ord)

lemma visit_loop_Ok:
  assumes "visit_loop h workspace l cancelled visit n scheduled stack s = Inr (n', s')"
  shows "\<exists>es. stack_yields h workspace l stack es \<and> try_fold visit s es = Inr s' \<and> n' = n + length es"
  using assms
proof (induction h workspace l cancelled visit n scheduled stack s arbitrary: n' s' rule: visit_loop.induct)
  case (1 h workspace l cancelled visit entries scheduled s)
  then show ?case by simp
next
  case (2 h workspace l cancelled visit entries scheduled p stack s)
  obtain e s1 where e: "check_cancelled cancelled = Inr ()" "inspect_output_entry h workspace l p = Inr e"
    "visit s e = Inr s1"
    using 2(3) by (auto simp: result_simps)
  show ?case
  proof (cases "oe_kind e = DirectoryEntry")
    case True
    let ?limit = "unat (max_entries l) - scheduled"
    obtain cs where cs: "read_sorted_children h p ?limit = Inr cs"
      "visit_loop h workspace l cancelled visit (entries + 1) (scheduled + length cs)
        (ResumeDirectory e cs 0 ?limit # stack) s1 = Inr (n', s')"
      using 2(3) e True by (auto simp: result_simps Let_def)
    obtain names where names: "host_read_dir h p = Inr names" "cs = map (\<lambda>n. p @ [n]) (sort names)"
      using read_sorted_children_Ok[OF cs(1)] by blast
    obtain ess b where es: "list_all2 (preorder h workspace l) cs ess" "stack_yields h workspace l stack b"
      "try_fold visit s1 (concat ess @ b) = Inr s'" "n' = entries + 1 + length (concat ess @ b)"
      using 2(1)[OF e(1) e(2) e(3) True refl cs(1) cs(2)] by auto
    have "preorder h workspace l p (e # concat ess)"
      using preorder_dir[OF e(2) True names(1)] es(1) names(2) by simp
    then have "stack_yields h workspace l (Enter p # stack) (e # concat ess @ b)"
      using es(2) by (metis append_Cons stack_yields.simps(2))
    moreover have "try_fold visit s (e # concat ess @ b) = Inr s'" using e(3) es(3) by simp
    moreover have "n' = entries + length (e # concat ess @ b)" using es(4) by simp
    ultimately show ?thesis by blast
  next
    case False
    have "validate_stable_entry h e = Inr ()"
      "visit_loop h workspace l cancelled visit (entries + 1) scheduled stack s1 = Inr (n', s')"
      using 2(3) e False by (auto simp: result_simps)
    then obtain b where b: "stack_yields h workspace l stack b" "try_fold visit s1 b = Inr s'" "n' = entries + 1 + length b"
      using 2(2)[OF e(1) e(2) e(3) False] by auto
    then have "stack_yields h workspace l (Enter p # stack) (e # b)"
      using preorder_leaf[OF e(2) False] by (metis append_Cons append_Nil stack_yields.simps(2))
    moreover have "try_fold visit s (e # b) = Inr s'" "n' = entries + length (e # b)" using e(3) b by simp_all
    ultimately show ?thesis by blast
  qed
next
  case (3 h workspace l cancelled visit entries scheduled e cs k limit stack s)
  show ?case
  proof (cases "k < length cs")
    case True
    then obtain a ess b where "preorder h workspace l (cs ! k) a" "list_all2 (preorder h workspace l) (drop (k + 1) cs) ess"
      "stack_yields h workspace l stack b" and t: "try_fold visit s (a @ concat ess @ b) = Inr s'"
      "n' = entries + length (a @ concat ess @ b)"
      using 3(1)[OF True] 3(3) by auto
    moreover have "drop k cs = cs ! k # drop (k + 1) cs" using True by (simp add: Cons_nth_drop_Suc)
    ultimately have "stack_yields h workspace l (ResumeDirectory e cs k limit # stack) (concat (a # ess) @ b)"
      by (metis list_all2_Cons stack_yields.simps(3))
    moreover have "try_fold visit s (concat (a # ess) @ b) = Inr s'" "n' = entries + length (concat (a # ess) @ b)"
      using t by simp_all
    ultimately show ?thesis by blast
  next
    case False
    obtain again where "read_sorted_children h (oe_source e) limit = Inr again" "again = cs"
      "validate_stable_entry h e = Inr ()"
      "visit_loop h workspace l cancelled visit entries scheduled stack s = Inr (n', s')"
      using 3(3) False by (auto simp: result_simps split: if_splits)
    then obtain b where "stack_yields h workspace l stack b" "try_fold visit s b = Inr s'" "n' = entries + length b"
      using 3(2)[OF False] by auto
    moreover from this(1) have "stack_yields h workspace l (ResumeDirectory e cs k limit # stack) b"
      using False by (auto intro!: exI[of _ "[]"])
    ultimately show ?thesis by blast
  qed
qed

text \<open>The entry budget: every scheduled path is counted before it is visited.\<close>

fun pending :: "Frame \<Rightarrow> nat" where
  "pending (Enter p) = 1"
| "pending (ResumeDirectory e cs n limit) = length cs - n"

lemma visit_loop_budget:
  assumes "visit_loop h workspace l cancelled visit n scheduled stack s = Inr (n', s')"
    "n + sum_list (map pending stack) \<le> scheduled" "scheduled \<le> unat (max_entries l)"
  shows "n' \<le> unat (max_entries l)"
  using assms
proof (induction h workspace l cancelled visit n scheduled stack s arbitrary: n' s' rule: visit_loop.induct)
  case (2 h workspace l cancelled visit entries scheduled p stack s)
  obtain e s1 where e: "check_cancelled cancelled = Inr ()" "inspect_output_entry h workspace l p = Inr e"
    "visit s e = Inr s1"
    using 2(3) by (auto simp: result_simps)
  show ?case
  proof (cases "oe_kind e = DirectoryEntry")
    case True
    let ?limit = "unat (max_entries l) - scheduled"
    obtain cs where cs: "read_sorted_children h p ?limit = Inr cs"
      "visit_loop h workspace l cancelled visit (entries + 1) (scheduled + length cs)
        (ResumeDirectory e cs 0 ?limit # stack) s1 = Inr (n', s')"
      using 2(3) e True by (auto simp: result_simps Let_def)
    show ?thesis
      using 2(1)[OF e(1) e(2) e(3) True refl cs(1) cs(2)] read_sorted_children_length[OF cs(1)] 2(4,5) by simp
  next
    case False
    have "validate_stable_entry h e = Inr ()"
      "visit_loop h workspace l cancelled visit (entries + 1) scheduled stack s1 = Inr (n', s')"
      using 2(3) e False by (auto simp: result_simps)
    then show ?thesis using 2(2)[OF e(1) e(2) e(3) False] 2(4,5) by simp
  qed
next
  case (3 h workspace l cancelled visit entries scheduled e cs k limit stack s)
  show ?case
  proof (cases "k < length cs")
    case True
    then show ?thesis using 3(1)[OF True] 3(3-5) by simp
  next
    case False
    obtain again where "read_sorted_children h (oe_source e) limit = Inr again" "again = cs"
      "validate_stable_entry h e = Inr ()"
      "visit_loop h workspace l cancelled visit entries scheduled stack s = Inr (n', s')"
      using 3(3) False by (auto simp: result_simps split: if_splits)
    then show ?thesis using 3(2)[OF False] 3(4,5) False by simp
  qed
qed simp

section \<open>The shape of a packed tree\<close>

text \<open>What a Unix host guarantees of names: those of a directory are distinct and single components.\<close>

definition proper_name :: "string \<Rightarrow> bool" where
  "proper_name n \<longleftrightarrow> n \<noteq> [] \<and> slash \<notin> set n \<and> n \<noteq> ''.'' \<and> n \<noteq> ''..''"

definition unix_host :: "host \<Rightarrow> bool" where
  "unix_host h \<longleftrightarrow> (\<forall>p names. host_read_dir h p = Inr names \<longrightarrow> distinct names \<and> (\<forall>n \<in> set names. proper_name n))"

lemma split_show_path: "\<forall>n \<in> set p. slash \<notin> set n \<Longrightarrow> split_on slash (show_path p) = [] # p"
proof (induction p)
  case (Cons n p)
  have "split_on slash (n @ show_path p) = n # p"
  proof (cases p)
    case Nil
    then show ?thesis using Cons.prems by (simp add: show_path_def split_on_free)
  next
    case (Cons m q)
    then have "show_path p = slash # m @ show_path q" by (simp add: show_path_def)
    moreover have "split_on slash (show_path p) = [] # p" using Cons.IH Cons.prems by simp
    ultimately show ?thesis using Cons.prems by (simp add: split_on_append)
  qed
  then show ?case by (simp add: show_path_def)
qed (simp add: show_path_def)

lemma components_show_path:
  assumes "\<forall>n \<in> set p. proper_name n" "p \<noteq> []"
  shows "components (show_path p) = RootDir # map Normal p"
proof -
  have "split_on slash (show_path p) = [] # p" using split_show_path assms by (simp add: proper_name_def)
  moreover have "concat (map component_of p) = map Normal p"
    using assms(1) by (induction p) (auto simp: component_of_def proper_name_def)
  moreover have "starts_with (show_path p) [slash]" using assms(2) by (cases p) (auto simp: show_path_def)
  ultimately show ?thesis by (simp add: components_def component_of_def)
qed

lemma portable_relative_host:
  assumes "\<forall>n \<in> set (workspace @ q). proper_name n" "workspace \<noteq> []" "q \<noteq> []"
    "portable_relative (show_path workspace) (show_path (workspace @ q)) = Inr r"
  shows "comps r = q \<and> validate_path r = Inr () \<and> r \<noteq> ''.''"
proof -
  have "starts_with (show_path workspace) [slash]" using assms(2) by (cases workspace) (auto simp: show_path_def)
  note c = portable_relative_components[OF assms(4) this]
  have "map Normal q = (if r = ''.'' then [] else map Normal (comps r))"
    using c components_show_path[of "workspace @ q"] components_show_path[of workspace] assms(1-3) by simp
  then have "r \<noteq> ''.''" "map Normal q = map Normal (comps r)" using assms(3) by (auto split: if_splits)
  moreover from this(2) have "q = comps r" using list.inj_map_strong[of q "comps r" Normal Normal] by auto
  ultimately show ?thesis using c by simp
qed

lemma append_less: "q @ [m] < q @ [n] \<longleftrightarrow> m < n" for m n :: "'a::linorder"
  by (induction q) auto

lemma append_more: "q < q @ [n]" for n :: "'a::linorder"
  by (induction q) auto

text \<open>Trees rooted at incomparable places are ordered as their roots are.\<close>

lemma less_below:
  fixes a b :: "'a::linorder list"
  shows "a < b \<Longrightarrow> \<not> prefix a b \<Longrightarrow> prefix a x \<Longrightarrow> prefix b y \<Longrightarrow> x < y"
proof (induction a arbitrary: b x y)
  case (Cons c a)
  obtain x' where x: "x = c # x'" "prefix a x'" using Cons.prems(3) by (cases x) auto
  obtain d b' where b: "b = d # b'" using Cons.prems(1) by (cases b) auto
  obtain y' where y: "y = d # y'" "prefix b' y'" using Cons.prems(4) b by (cases y) auto
  show ?case using Cons.IH[of b' x' y'] Cons.prems b x y by auto
qed simp

abbreviation oe_less :: "OutputEntry \<Rightarrow> OutputEntry \<Rightarrow> bool" where
  "oe_less a b \<equiv> comps (oe_path a) < comps (oe_path b)"

text \<open>The entries of one tree: ordered, below its root, and with explicit parents.\<close>

definition tree_block :: "host \<Rightarrow> path \<Rightarrow> BundleLimits \<Rightarrow> string list \<Rightarrow> OutputEntry list \<Rightarrow> bool" where
  "tree_block h workspace l q es \<longleftrightarrow> es \<noteq> [] \<and> comps (oe_path (hd es)) = q \<and> sorted_wrt oe_less es \<and>
     (\<forall>e \<in> set es. prefix q (comps (oe_path e)) \<and>
        inspect_output_entry h workspace l (workspace @ comps (oe_path e)) = Inr e \<and>
        validate_path (oe_path e) = Inr () \<and> oe_path e \<noteq> ''.'') \<and>
     (\<forall>e \<in> set (tl es). \<exists>d \<in> set es. oe_kind d = DirectoryEntry \<and> comps (oe_path d) = butlast (comps (oe_path e)))"

lemma blocks_sorted:
  assumes "list_all2 (tree_block h workspace l) qs ess" "sorted_wrt (\<lambda>a b. a < b \<and> \<not> prefix a b) qs"
  shows "sorted_wrt oe_less (concat ess)"
  using assms
proof (induction qs ess rule: list_all2_induct)
  case (Cons q qs es ess)
  have "comps (oe_path a) < comps (oe_path b)" if "a \<in> set es" "b \<in> set (concat ess)" for a b
  proof -
    obtain fs where fs: "fs \<in> set ess" "b \<in> set fs" using \<open>b \<in> _\<close> by auto
    then obtain j where j: "j < length ess" "fs = ess ! j" by (auto simp: in_set_conv_nth)
    then have "tree_block h workspace l (qs ! j) fs" "qs ! j \<in> set qs"
      using Cons.hyps(2) by (auto simp: list_all2_conv_all_nth)
    then have "prefix (qs ! j) (comps (oe_path b))" "q < qs ! j" "\<not> prefix q (qs ! j)"
      using fs(2) Cons.prems by (auto simp: tree_block_def)
    moreover have "prefix q (comps (oe_path a))" using Cons.hyps(1) \<open>a \<in> _\<close> by (auto simp: tree_block_def)
    ultimately show ?thesis using less_below by blast
  qed
  then show ?case
    using Cons.IH Cons.prems Cons.hyps(1) by (auto simp: sorted_wrt_append tree_block_def)
qed simp

lemma inspect_path:
  assumes "inspect_output_entry h workspace l p = Inr e"
  shows "portable_relative (show_path workspace) (show_path p) = Inr (oe_path e) \<and> oe_source e = p \<and>
    length (oe_path e) \<le> max_path_bytes l"
  using assms by (auto simp: inspect_output_entry_def result_simps split: if_splits file_type.splits)

lemma preorder_block:
  assumes "preorder h workspace l p es" "unix_host h" "\<forall>n \<in> set workspace. proper_name n" "workspace \<noteq> []"
    "p = workspace @ q" "q \<noteq> []" "\<forall>n \<in> set q. proper_name n"
  shows "tree_block h workspace l q es"
  using assms(1,5-7)
proof (induction arbitrary: q)
  case (preorder_leaf p e)
  have "comps (oe_path e) = q \<and> validate_path (oe_path e) = Inr () \<and> oe_path e \<noteq> ''.''"
    using portable_relative_host[of workspace q] inspect_path[OF preorder_leaf(1)] preorder_leaf assms(3,4) by auto
  then show ?case using preorder_leaf by (simp add: tree_block_def)
next
  case (preorder_dir p e names ess)
  have e: "comps (oe_path e) = q \<and> validate_path (oe_path e) = Inr () \<and> oe_path e \<noteq> ''.''"
    using portable_relative_host[of workspace q] inspect_path[OF preorder_dir(1)] preorder_dir assms(3,4) by auto
  have names: "distinct names" "\<forall>n \<in> set names. proper_name n"
    using assms(2) preorder_dir(3) by (auto simp: unix_host_def)
  let ?qs = "map (\<lambda>n. q @ [n]) (sort names)"
  have blocks: "list_all2 (tree_block h workspace l) ?qs ess"
    unfolding list_all2_conv_all_nth
  proof (intro conjI allI impI)
    show len: "length ?qs = length ess" using preorder_dir(4) by (auto dest: list_all2_lengthD)
    fix i assume i: "i < length ?qs"
    let ?n = "sort names ! i"
    have "?n \<in> set names" using i by (metis length_map nth_mem set_sort)
    then have "tree_block h workspace l (q @ [?n]) (ess ! i)"
      using preorder_dir(4) i preorder_dir.prems names(2)
      by (auto simp: list_all2_conv_all_nth)
    then show "tree_block h workspace l (?qs ! i) (ess ! i)" using i by simp
  qed
  have "sorted_wrt (<) (sort names)" using names(1) by (simp add: strict_sorted_iff)
  then have "sorted_wrt (\<lambda>a b. a < b \<and> \<not> prefix a b) ?qs"
    unfolding sorted_wrt_map by (rule sorted_wrt_mono_rel[rotated]) (auto simp: append_less)
  note sorted = blocks_sorted[OF blocks this]
  have sub: "\<exists>n f. f \<in> set ess \<and> x \<in> set f \<and> tree_block h workspace l (q @ [n]) f" if x: "x \<in> set (concat ess)" for x
  proof -
    obtain f where f: "f \<in> set ess" "x \<in> set f" using x by auto
    then obtain j where "j < length ess" "f = ess ! j" by (auto simp: in_set_conv_nth)
    then have "tree_block h workspace l (q @ [sort names ! j]) f" using blocks by (simp add: list_all2_conv_all_nth)
    then show ?thesis using f by blast
  qed
  have "oe_less e x" if x: "x \<in> set (concat ess)" for x
  proof -
    obtain n f where "x \<in> set f" "tree_block h workspace l (q @ [n]) f" using sub[OF x] by blast
    then have "prefix (q @ [n]) (comps (oe_path x))" by (auto simp: tree_block_def)
    then show ?thesis using e prefix_le[of "q @ [n]" "comps (oe_path x)"] append_more[of q n] by (auto intro: less_le_trans)
  qed
  moreover have "\<exists>d \<in> set (e # concat ess). oe_kind d = DirectoryEntry \<and> comps (oe_path d) = butlast (comps (oe_path x))"
    if x: "x \<in> set (concat ess)" for x
  proof -
    obtain n f where f: "f \<in> set ess" "x \<in> set f" "tree_block h workspace l (q @ [n]) f" using sub[OF x] by blast
    show ?thesis
    proof (cases "x = hd f")
      case True
      then show ?thesis using f e preorder_dir(2) by (auto simp: tree_block_def)
    next
      case False
      then have "x \<in> set (tl f)" using f by (cases f) auto
      then show ?thesis using f unfolding tree_block_def by fastforce
    qed
  qed
  moreover have "prefix q (comps (oe_path x)) \<and> inspect_output_entry h workspace l (workspace @ comps (oe_path x)) = Inr x \<and>
      validate_path (oe_path x) = Inr () \<and> oe_path x \<noteq> ''.''" if x: "x \<in> set (concat ess)" for x
  proof -
    obtain n f where "x \<in> set f" "tree_block h workspace l (q @ [n]) f" using sub[OF x] by blast
    then show ?thesis unfolding tree_block_def by (meson append_prefixD)
  qed
  ultimately show ?case
    using sorted e preorder_dir(1) preorder_dir.prems(1) by (simp add: tree_block_def)
qed

subsection \<open>Acceptable entries\<close>

lemma utf8_valid_append: "utf8_valid a \<Longrightarrow> utf8_valid b \<Longrightarrow> utf8_valid (a @ b)"
proof (induction a rule: utf8_valid.induct)
  case (2 x r)
  show ?case
  proof (cases "of_char x < (128::nat)")
    case True
    then show ?thesis using 2 by simp
  next
    case False
    then obtain y r1 where r: "r = y # r1" using 2(5) by (cases r) auto
    show ?thesis
    proof (cases "utf8_two x y")
      case True
      then show ?thesis using 2 False r by simp
    next
      case no2: False
      then obtain z r2 where r1: "r1 = z # r2" using 2(5) False r by (cases r1) auto
      show ?thesis
      proof (cases "utf8_three x y z")
        case True
        then show ?thesis using 2 False r r1 no2 by simp
      next
        case no3: False
        then obtain u r3 where "r2 = u # r3" using 2(5) False r r1 no2 by (cases r2) auto
        then show ?thesis using 2 False r r1 no2 no3 by simp
      qed
    qed
  qed
qed simp

lemma utf8_valid_join: "\<forall>p \<in> set ps. utf8_valid p \<Longrightarrow> utf8_valid (join [slash] ps)"
  by (induction "[slash]" ps rule: join.induct) (auto intro!: utf8_valid_append)

lemma from_components_utf8:
  "from_components cs acc = Inr ps \<Longrightarrow> \<forall>p \<in> set acc. utf8_valid p \<Longrightarrow> \<forall>p \<in> set ps. utf8_valid p"
  by (induction cs acc rule: from_components.induct) (auto split: if_splits)

lemma portable_relative_utf8: "portable_relative w p = Inr r \<Longrightarrow> utf8_valid r"
  using from_components_utf8[of _ "[]"] utf8_valid_join
  by (auto simp: portable_relative_def from_path_def relative_path_new_def root_path_def result_simps
      split: option.splits if_splits)

text \<open>The bundle format bounds a symlink text like a path.\<close>

definition short_links :: "host \<Rightarrow> BundleLimits \<Rightarrow> bool" where
  "short_links h l \<longleftrightarrow> (\<forall>p t. host_read_link h p = Inr t \<longrightarrow> length t \<le> max_path_bytes l \<and> length t < 2 ^ 32)"

lemma safe_symlink_target_Ok:
  assumes "safe_symlink_target h workspace p t' = Inr t"
  shows "t' = t \<and> utf8_valid t \<and>
    (\<exists>r. portable_relative (show_path workspace) (show_path p) = Inr r \<and> validate_symlink_text r t = Inr ())"
  using assms by (auto simp: safe_symlink_target_def result_simps split: if_splits sum.splits)

lemma inspect_symlink:
  assumes "inspect_output_entry h workspace l p = Inr e" "oe_kind e = SymlinkEntry t d"
  shows "\<exists>t'. host_read_link h p = Inr t' \<and> safe_symlink_target h workspace p t' = Inr t"
proof -
  obtain m where "host_symlink_metadata h p = Inr m" using assms(1) by (auto simp: inspect_output_entry_def result_simps)
  then show ?thesis
    using assms by (cases "m_type m") (auto simp: inspect_output_entry_def result_simps split: if_splits)
qed

lemma inspect_small:
  assumes "inspect_output_entry h workspace l p = Inr e" "validate_path (oe_path e) = Inr ()" "short_links h l"
  shows "small_entry e"
proof -
  have "length (oe_path e) \<le> MAX_CACHE_STRING_BYTES"
    using assms(2) by (auto simp: validate_path_def split: if_splits)
  moreover have "length t < 2 ^ 32" if "oe_kind e = SymlinkEntry t d" for t d
    using inspect_symlink[OF assms(1) that] safe_symlink_target_Ok assms(3) by (metis short_links_def)
  ultimately show ?thesis by (auto simp: small_entry_def MAX_CACHE_STRING_BYTES_def split: EntryKind.splits)
qed

lemma inspect_entry_ok:
  assumes "inspect_output_entry h workspace l p = Inr e" "validate_path (oe_path e) = Inr ()" "oe_path e \<noteq> ''.''"
    "short_links h l" "file_sized h e" "\<And>x c. entry_kind h e = File x c \<Longrightarrow> length c < 2 ^ 64"
  shows "entry_ok l (packed_entry h e)"
proof -
  note p = inspect_path[OF assms(1)]
  have "path_ok l (oe_path e)"
    using inspect_small[OF assms(1,2,4)] assms(2,3) p portable_relative_utf8
    by (auto simp: path_ok_def small_entry_def)
  moreover have "kind_ok l (oe_path e) (entry_kind h e)"
  proof (cases "oe_kind e")
    case DirectoryEntry
    then show ?thesis by (simp add: entry_kind_def)
  next
    case (FileEntry len x)
    have "len \<le> max_file_bytes l"
      using assms(1) FileEntry by (auto simp: inspect_output_entry_def result_simps split: if_splits file_type.splits)
    moreover obtain c where c: "entry_kind h e = File x c" using FileEntry by (simp add: entry_kind_def)
    moreover have "word_of_nat (length c) = len" using assms(5) FileEntry c by (simp add: file_sized_def)
    ultimately show ?thesis using assms(6)[OF c] by (auto simp: word_le_nat_alt unat_of_nat)
  next
    case (SymlinkEntry t d)
    have "validate_symlink_text (oe_path e) t = Inr () \<and> utf8_valid t \<and> length t \<le> max_path_bytes l \<and> length t < 2 ^ 32"
      using inspect_symlink[OF assms(1) SymlinkEntry] safe_symlink_target_Ok[of h workspace p] assms(4) p
      by (fastforce simp: short_links_def)
    then show ?thesis using SymlinkEntry by (simp add: entry_kind_def)
  qed
  ultimately show ?thesis by (simp add: entry_ok_def packed_entry_def)
qed

subsection \<open>The packed tree\<close>

definition packed_tree :: "host \<Rightarrow> path \<Rightarrow> BundleLimits \<Rightarrow> RelativePath list \<Rightarrow> OutputEntry list \<Rightarrow> bool" where
  "packed_tree h workspace l roots es \<longleftrightarrow>
     (\<exists>ess. es = concat ess \<and> list_all2 (preorder h workspace l) (map (\<lambda>r. workspace @ comps r) roots) ess)"

lemma join_relative_append: "join_relative w p = w @ comps p"
proof -
  have "foldl (\<lambda>r c. r @ [c]) xs ys = xs @ ys" for xs ys :: "string list"
    by (induction ys arbitrary: xs) auto
  then show ?thesis by (simp add: join_relative_def)
qed

lemma stack_yields_roots:
  "stack_yields h workspace l (map (\<lambda>r. Enter (join_relative workspace r)) roots) es \<Longrightarrow> packed_tree h workspace l roots es"
proof (induction roots arbitrary: es)
  case Nil
  then show ?case by (simp add: packed_tree_def)
next
  case (Cons r roots)
  then obtain a b where ab: "es = a @ b" "preorder h workspace l (workspace @ comps r) a" "packed_tree h workspace l roots b"
    by (auto simp: join_relative_append)
  then obtain ess where ess: "b = concat ess" "list_all2 (preorder h workspace l) (map (\<lambda>r. workspace @ comps r) roots) ess"
    by (auto simp: packed_tree_def)
  have "es = concat (a # ess)" using ab(1) ess(1) by simp
  moreover have "list_all2 (preorder h workspace l) (map (\<lambda>r. workspace @ comps r) (r # roots)) (a # ess)"
    using ab(2) ess(2) by simp
  ultimately show ?case unfolding packed_tree_def by blast
qed

lemma valid_path_names: "validate_path r = Inr () \<Longrightarrow> r \<noteq> ''.'' \<Longrightarrow> \<forall>n \<in> set (comps r). proper_name n"
  by (auto simp: validate_path_def proper_name_def list_ex_iff dest: split_on_parts split: if_splits)

text \<open>The roots of a bundle: portable paths that do not overlap, in order.\<close>

definition good_roots :: "RelativePath list \<Rightarrow> bool" where
  "good_roots roots \<longleftrightarrow> disjoint_roots roots \<and> sorted (map comps roots) \<and> (\<forall>r \<in> set roots. validate_path r = Inr ())"

definition good_workspace :: "path \<Rightarrow> bool" where
  "good_workspace w \<longleftrightarrow> w \<noteq> [] \<and> (\<forall>n \<in> set w. proper_name n)"

lemma packed_tree_blocks:
  assumes "list_all2 (preorder h workspace l) (map (\<lambda>r. workspace @ comps r) roots) ess" "unix_host h"
    "good_workspace workspace" "good_roots roots"
  shows "list_all2 (tree_block h workspace l) (map comps roots) ess"
  unfolding list_all2_conv_all_nth
proof (intro conjI allI impI)
  show "length (map comps roots) = length ess" using assms(1) by (auto dest: list_all2_lengthD)
  fix i assume i: "i < length (map comps roots)"
  then have r: "roots ! i \<in> set roots" by simp
  have "preorder h workspace l (workspace @ comps (roots ! i)) (ess ! i)"
    using assms(1) i by (auto simp: list_all2_conv_all_nth)
  then have "tree_block h workspace l (comps (roots ! i)) (ess ! i)"
    using preorder_block[OF _ assms(2)] assms(3,4) r valid_path_names
    by (auto simp: good_workspace_def good_roots_def disjoint_roots_def is_root_def)
  then show "tree_block h workspace l (map comps roots ! i) (ess ! i)" using i by simp
qed

lemma good_roots_sorted:
  assumes "good_roots roots"
  shows "sorted_wrt (\<lambda>a b. a < b \<and> \<not> prefix a b) (map comps roots)"
  unfolding sorted_wrt_iff_nth_less
proof (intro allI impI)
  fix i j assume ij: "i < j" "j < length (map comps roots)"
  have "comps (roots ! i) \<le> comps (roots ! j)"
    using assms ij sorted_nth_mono[of "map comps roots" i j] by (auto simp: good_roots_def)
  moreover have "\<not> contains (roots ! i) (roots ! j)"
    using assms ij disjoint_nth[of roots i j] by (auto simp: good_roots_def)
  ultimately show "map comps roots ! i < map comps roots ! j \<and> \<not> prefix (map comps roots ! i) (map comps roots ! j)"
    using ij by (auto simp: contains_iff order_le_less)
qed

lemma entry_kind_Directory: "entry_kind h e = Directory \<longleftrightarrow> oe_kind e = DirectoryEntry"
  by (simp add: entry_kind_def split: EntryKind.splits)

lemma packed_tree_shape:
  assumes "packed_tree h workspace l roots es" "unix_host h" "good_workspace workspace" "good_roots roots"
  shows "tree_shaped roots (map (packed_entry h) es) \<and>
    (\<forall>e \<in> set es. inspect_output_entry h workspace l (workspace @ comps (oe_path e)) = Inr e \<and>
       validate_path (oe_path e) = Inr () \<and> oe_path e \<noteq> ''.'')"
proof -
  obtain ess where ess: "es = concat ess" "list_all2 (preorder h workspace l) (map (\<lambda>r. workspace @ comps r) roots) ess"
    using assms(1) by (auto simp: packed_tree_def)
  note blocks = packed_tree_blocks[OF ess(2) assms(2-4)]
  have "sorted_wrt oe_less es" using blocks_sorted[OF blocks good_roots_sorted[OF assms(4)]] ess(1) by simp
  then have ord: "tree_ordered (map (packed_entry h) es)"
    by (simp add: tree_ordered_def sorted_wrt_map packed_entry_def compare_paths_ord)
  have sub: "\<exists>r f. r \<in> set roots \<and> f \<in> set ess \<and> x \<in> set f \<and> tree_block h workspace l (comps r) f" if x: "x \<in> set es" for x
  proof -
    obtain f where f: "f \<in> set ess" "x \<in> set f" using x ess(1) by auto
    then obtain j where j: "j < length ess" "f = ess ! j" by (auto simp: in_set_conv_nth)
    then have "tree_block h workspace l (comps (roots ! j)) f" "roots ! j \<in> set roots"
      using blocks by (auto simp: list_all2_conv_all_nth)
    then show ?thesis using f by blast
  qed
  have heads: "set roots \<subseteq> oe_path ` set es"
  proof
    fix r assume "r \<in> set roots"
    then obtain j where j: "j < length roots" "roots ! j = r" by (auto simp: in_set_conv_nth)
    then have b: "tree_block h workspace l (comps r) (ess ! j)" "ess ! j \<in> set ess"
      using blocks by (auto simp: list_all2_conv_all_nth)
    then have "hd (ess ! j) \<in> set (ess ! j)" and hd: "oe_path (hd (ess ! j)) = r"
      by (auto simp: tree_block_def split_on_inject)
    then have "hd (ess ! j) \<in> set es" using ess(1) b(2) by auto
    with hd show "r \<in> oe_path ` set es" by (metis image_eqI)
  qed
  have below: "\<exists>r \<in> set roots. contains r (oe_path x)" if x: "x \<in> set es" for x
    using sub[OF x] unfolding tree_block_def contains_iff by blast
  have parent: "oe_path x \<in> set roots \<or> (\<exists>d \<in> set es. oe_kind d = DirectoryEntry \<and> comps (oe_path d) = butlast (comps (oe_path x)))"
    if x: "x \<in> set es" for x
  proof -
    obtain r f where f: "r \<in> set roots" "f \<in> set ess" "x \<in> set f" "tree_block h workspace l (comps r) f"
      using sub[OF x] by blast
    show ?thesis
    proof (cases "x = hd f")
      case True
      then show ?thesis using f by (auto simp: tree_block_def split_on_inject)
    next
      case False
      then have "x \<in> set (tl f)" using f(3) by (cases f) auto
      moreover have "set f \<subseteq> set es" using f(2) ess(1) by auto
      ultimately show ?thesis using f(4) unfolding tree_block_def by blast
    qed
  qed
  have "tree_shaped roots (map (packed_entry h) es)"
    unfolding tree_shaped_def covers_def has_parent_def
  proof (intro conjI ballI impI)
    show "tree_ordered (map (packed_entry h) es)" by (rule ord)
    show "set roots \<subseteq> fst ` set (map (packed_entry h) es)" using heads by (simp add: packed_entry_def image_image)
  next
    fix e assume "e \<in> set (map (packed_entry h) es)"
    then obtain x where x: "x \<in> set es" "e = packed_entry h x" by auto
    then show "\<exists>r \<in> set roots. contains r (fst e)" using below by (simp add: packed_entry_def)
    assume "fst e \<notin> set roots"
    then obtain d where d: "d \<in> set es" "oe_kind d = DirectoryEntry" "comps (oe_path d) = butlast (comps (fst e))"
      using parent[OF x(1)] x(2) by (auto simp: packed_entry_def)
    then have "(oe_path d, Directory) \<in> set (map (packed_entry h) es)"
      using entry_kind_Directory[of h d] by (force simp: packed_entry_def)
    then show "\<exists>q. (q, Directory) \<in> set (map (packed_entry h) es) \<and> comps q = butlast (comps (fst e))"
      using d(3) by blast
  qed
  moreover have "inspect_output_entry h workspace l (workspace @ comps (oe_path x)) = Inr x \<and>
       validate_path (oe_path x) = Inr () \<and> oe_path x \<noteq> ''.''" if x: "x \<in> set es" for x
    using sub[OF x] unfolding tree_block_def by blast
  ultimately show ?thesis by blast
qed

section \<open>Packing and extraction\<close>

lemma observe_count: "summary_entries (foldl observe b es) = summary_entries b + word_of_nat (length es)"
  by (induction es arbitrary: b) (simp_all add: observe_def)

lemma entry_content_length: "(p, File x c) \<in> set es \<Longrightarrow> length c \<le> length (canonical_bytes es)"
proof -
  assume "(p, File x c) \<in> set es"
  then obtain as bs where "es = as @ (p, File x c) # bs" by (meson split_list)
  then show ?thesis by (simp add: canonical_bytes_def entry_bytes_parts kind_bytes_def)
qed

lemma visit_output_tree_Ok:
  assumes "visit_output_tree h workspace roots l cancelled visit s = Inr (n, s')"
  shows "\<exists>es. packed_tree h workspace l roots es \<and> try_fold visit s es = Inr s' \<and> n = length es \<and>
    n \<le> unat (max_entries l)"
proof -
  let ?stack = "map (\<lambda>r. Enter (join_relative workspace r)) roots"
  have loop: "visit_loop h workspace l cancelled visit 0 (length roots) ?stack s = Inr (n, s')"
    and le: "length roots \<le> unat (max_entries l)"
    using assms by (auto simp: visit_output_tree_def split: if_splits)
  obtain es where es: "stack_yields h workspace l ?stack es" "try_fold visit s es = Inr s'" "n = length es"
    using visit_loop_Ok[OF loop] by auto
  have "sum_list (map pending ?stack) = length roots" by (induction roots) auto
  then show ?thesis
    using es stack_yields_roots[OF es(1)] visit_loop_budget[OF loop _ le] by auto
qed

text \<open>A successful run of the canonical writer.\<close>

definition canonical_run ::
    "(u8 list \<Rightarrow> u8 list) \<Rightarrow> BundleLimits \<Rightarrow> RelativePath list \<Rightarrow> entry list \<Rightarrow> Digest \<Rightarrow> u64 \<Rightarrow> u64 \<Rightarrow> bool" where
  "canonical_run blake3 l roots es dig expanded n \<longleftrightarrow>
     dig = digest_blake3 blake3 (canonical_bytes es) \<and> unat expanded = length (canonical_bytes es) \<and>
     expanded \<le> max_expanded_bytes l \<and> unat n = length es \<and> n \<le> max_entries l \<and>
     (\<forall>e \<in> set es. entry_ok l e) \<and> tree_shaped roots es"

context byte_sink
begin

lemma write_canonical_Ok:
  assumes "write_canonical blake3 h write_inner inner workspace roots l cancelled = Inr (inner', dig, expanded, n)"
    "wf_sink inner" "taken inner = []" "0 < read_buffer_bytes l" "read_buffer_bytes l < 2 ^ 64"
    "unix_host h" "short_links h l" "good_workspace workspace" "good_roots roots"
  shows "\<exists>oes. packed_tree h workspace l roots oes \<and> wf_sink inner' \<and>
    taken inner' = canonical_bytes (map (packed_entry h) oes) \<and>
    canonical_run blake3 l roots (map (packed_entry h) oes) dig expanded n"
proof -
  obtain w summary w' m where w: "writer_write write_inner (writer_new inner (max_expanded_bytes l)) BUNDLE_MAGIC = Inr w"
    and v: "visit_output_tree h workspace roots l cancelled (write_entry h write_inner l cancelled) (summary_new, w) =
      Inr (m, summary, w')"
    and res: "inner' = writer_inner w'" "(dig, expanded) = writer_finish blake3 w'" "n = summary_entries summary"
    using assms(1)
    by (auto simp: write_canonical_def result_simps Let_def summary_finish_def writer_finish_def split: if_splits)
  have "writer_ok (writer_new inner (max_expanded_bytes l))" using assms(2,3) by (simp add: writer_ok_def writer_new_def)
  then have w0: "writer_ok w" "writer_hashed w = BUNDLE_MAGIC" "writer_maximum w = max_expanded_bytes l"
    using writer_write_Ok[OF _ _ w] by (simp_all add: BUNDLE_MAGIC_def writer_new_def)
  obtain oes where oes: "packed_tree h workspace l roots oes"
    "try_fold (write_entry h write_inner l cancelled) (summary_new, w) oes = Inr (summary, w')"
    "m = length oes" "m \<le> unat (max_entries l)"
    using visit_output_tree_Ok[OF v] by blast
  note shape = packed_tree_shape[OF oes(1) assms(6,8,9)]
  have small: "\<forall>e \<in> set oes. small_entry e" using shape inspect_small assms(7) by blast
  let ?es = "map (packed_entry h) oes"
  have w': "summary = foldl observe summary_new oes" "writer_ok w'" "\<forall>e \<in> set oes. file_sized h e"
    "writer_hashed w' = canonical_bytes ?es" "writer_maximum w' = max_expanded_bytes l"
    using write_entries_Ok[OF w0(1) assms(4,5) small oes(2)] w0(2,3) by (simp_all add: canonical_bytes_def)
  have len: "unat (writer_bytes w') = length (canonical_bytes ?es)" using w'(2,4) by (simp add: writer_ok_def)
  have "length c < 2 ^ 64" if "e \<in> set oes" "entry_kind h e = File x c" for e x c
  proof -
    have "(oe_path e, File x c) \<in> set ?es" using that by (force simp: packed_entry_def)
    then have "length c \<le> unat (writer_bytes w')" using entry_content_length len by metis
    then show ?thesis using unat_less[of "writer_bytes w'"] by simp
  qed
  then have ok: "\<forall>e \<in> set ?es. entry_ok l e"
    using inspect_entry_ok shape assms(7) w'(3) by fastforce
  have n: "unat n = length oes" "unat n \<le> unat (max_entries l)"
    using res(3) w'(1) oes(3,4) unat_less[of "max_entries l"]
    by (simp_all add: observe_count summary_new_def unat_of_nat)
  have d: "dig = digest_new Blake3 (blake3 (canonical_bytes ?es)) (writer_bytes w')" "expanded = writer_bytes w'"
    using res(2) w'(4) by (simp_all add: writer_finish_def)
  moreover have "word_of_nat (length (canonical_bytes ?es)) = writer_bytes w'" by (simp flip: len)
  ultimately have "dig = digest_blake3 blake3 (canonical_bytes ?es)" by (simp add: digest_blake3_def)
  moreover have "expanded \<le> max_expanded_bytes l" "unat expanded = length (canonical_bytes ?es)"
    using d(2) w'(2,5) len by (simp_all add: writer_ok_def)
  moreover have "n \<le> max_entries l" using n(2) by (simp add: word_le_nat_alt)
  ultimately have "canonical_run blake3 l roots ?es dig expanded n"
    using n(1) ok shape by (simp add: canonical_run_def)
  then show ?thesis using oes(1) res(1) w'(2,4) by (auto simp: writer_ok_def)
qed

end

lemma case_result_Ok:
  "(case r of Inl e \<Rightarrow> Inl (f e) | Inr x \<Rightarrow> Inr (g x)) = Inr y \<longleftrightarrow> (\<exists>x. r = Inr x \<and> g x = y)"
  by (cases r) auto

lemma canonical_run_extracts:
  assumes "canonical_run blake3 l roots es (digest d) (expanded_size_bytes d) (entry_count d)"
    "limits_validate l = Inr l" "validate_output_roots output_roots = Inr roots"
    "encoded_size_bytes d \<noteq> 0" "encoded_size_bytes d \<le> max_encoded_bytes l"
    "encoding d = Identity \<Longrightarrow> encoded_size_bytes d = expanded_size_bytes d"
    "unat (expanded_size_bytes d) \<le> unat (encoded_size_bytes d) * unat (max_compression_ratio l)"
  shows "blob_validate d = Inr () \<and> validate_descriptor_limits d l = Inr () \<and> describes blake3 d es \<and>
    (\<exists>prev cur fs. place_entries env roots es = Inr (prev, cur, fs) \<and> roots_done cur = length roots \<and>
       outside fs = [] \<and> map_of (inside fs) = staged output_roots es)"
proof -
  note r = assms(1)[unfolded canonical_run_def]
  have "length (canonical_bytes es) \<noteq> 0" by (simp add: canonical_bytes_def BUNDLE_MAGIC_def as_bytes_def)
  then have ne: "expanded_size_bytes d \<noteq> 0" using r by (metis unat_0)
  have "roots \<noteq> []" using assms(3) by (auto simp: validate_output_roots_iff) (metis length_0_conv length_sort)
  then have "es \<noteq> []" using r by (auto simp: tree_shaped_def covers_def)
  then have "entry_count d \<noteq> 0" using r by (metis length_0_conv unat_0)
  moreover have len: "length (canonical_bytes es) = unat (expanded_size_bytes d)" using r by simp
  have "word_of_nat (length (canonical_bytes es)) = expanded_size_bytes d" by (simp add: len)
  ultimately have "blob_validate d = Inr ()"
    using r ne assms(4,6) by (auto simp: blob_validate_def digest_blake3_def digest_new_def)
  moreover have "validate_descriptor_limits d l = Inr ()"
    using r assms(5,7) by (simp add: validate_descriptor_limits_iff word_le_nat_alt)
  moreover have "describes blake3 d es" using r by (simp add: describes_def)
  moreover note place_tree[OF sorted_output_roots(1,2)[OF assms(3)], of es env] staged_set[OF sorted_output_roots(3)[OF assms(3)]]
  ultimately show ?thesis using r by auto
qed

text \<open>The outcome of a round trip.\<close>

definition restored ::
    "host \<Rightarrow> path \<Rightarrow> BundleLimits \<Rightarrow> RelativePath list \<Rightarrow> staging \<Rightarrow> bool" where
  "restored h workspace l output_roots fs \<longleftrightarrow>
     (\<exists>roots es. validate_output_roots output_roots = Inr roots \<and> packed_tree h workspace l roots es \<and>
        outside fs = [] \<and> map_of (inside fs) = staged output_roots (map (packed_entry h) es))"

lemma pack_bundle_checks:
  assumes "pack_bundle blake3 zstd h workspace output_roots enc l cancelled = Inr (bytes, d)"
    "\<forall>r \<in> set output_roots. validate_path r = Inr ()"
  obtains roots where "limits_validate l = Inr l" "validate_output_roots output_roots = Inr roots" "good_roots roots"
    "0 < read_buffer_bytes l" "read_buffer_bytes l < 2 ^ 64" "unat (max_compression_ratio l) \<noteq> 0"
    "bundle_encoding_validate enc = Inr enc"
proof -
  obtain roots where roots: "limits_validate l = Inr l" "validate_output_roots output_roots = Inr roots"
    "bundle_encoding_validate enc = Inr enc"
    using assms(1)
    by (auto simp: pack_bundle_def result_simps limits_validate_def bundle_encoding_validate_def
        split: if_splits BundleEncoding.splits)
  moreover have "good_roots roots" using sorted_output_roots[OF roots(2)] assms(2) by (simp add: good_roots_def)
  moreover have "0 < read_buffer_bytes l" "read_buffer_bytes l < 2 ^ 64" "max_compression_ratio l \<noteq> 0"
    using roots(1) by (auto simp: limits_validate_def split: if_splits)
  ultimately show ?thesis using that by (metis unat_0 word_unat_eq_iff)
qed

lemma pack_extract_identity:
  assumes "pack_bundle blake3 zstd h workspace output_roots IdentityBundle l cancelled = Inr (bytes, d)"
    and host: "unix_host h" "short_links h l" "good_workspace workspace"
    and roots_ok: "\<forall>r \<in> set output_roots. validate_path r = Inr ()" and stage: "check_empty_staging stage = Inr ()"
  shows "\<exists>fs. extract_bundle env blake3 unzstd bytes d stage output_roots l False = Inr fs \<and>
    restored h workspace l output_roots fs"
proof -
  obtain roots where l: "limits_validate l = Inr l" and roots: "validate_output_roots output_roots = Inr roots"
    and good: "good_roots roots" and buf: "0 < read_buffer_bytes l" "read_buffer_bytes l < 2 ^ 64"
    and pos: "unat (max_compression_ratio l) \<noteq> 0"
    by (rule pack_bundle_checks[OF assms(1) roots_ok])
  obtain sink expanded n dig where w: "write_canonical blake3 h counting_write (counting_writer_new (max_encoded_bytes l))
      workspace roots l cancelled = Inr (sink, dig, expanded, n)"
    and d: "bytes = cw_inner sink" "d = descriptor dig Identity (cw_bytes sink) expanded n"
    using assms(1) l roots by (auto simp: pack_bundle_def bundle_encoding_validate_def result_simps Let_def)
  obtain es where es: "packed_tree h workspace l roots es" "unat (cw_bytes sink) = length (cw_inner sink)"
    "cw_bytes sink \<le> max_encoded_bytes l" "cw_inner sink = canonical_bytes (map (packed_entry h) es)"
    "canonical_run blake3 l roots (map (packed_entry h) es) dig expanded n"
    using counted_sink.write_canonical_Ok[where maximum = "max_encoded_bytes l", OF w _ _ buf host good]
    by (auto simp: counting_writer_new_def)
  let ?es = "map (packed_entry h) es"
  have size: "cw_bytes sink = expanded" using es by (auto simp: canonical_run_def word_unat_eq_iff)
  have "length (canonical_bytes ?es) \<noteq> 0" by (simp add: canonical_bytes_def BUNDLE_MAGIC_def as_bytes_def)
  then have "cw_bytes sink \<noteq> 0" using es(2,4) by (metis unat_0)
  moreover have "unat expanded \<le> unat expanded * unat (max_compression_ratio l)"
    using pos by (cases "unat (max_compression_ratio l)") simp_all
  ultimately obtain prev cur fs where
    fs: "place_entries env roots ?es = Inr (prev, cur, fs)" "roots_done cur = length roots"
      "outside fs = []" "map_of (inside fs) = staged output_roots ?es"
    and ok: "blob_validate d = Inr ()" "validate_descriptor_limits d l = Inr ()" "describes blake3 d ?es"
    using canonical_run_extracts[OF _ l roots, of blake3 ?es d env] es(3,5) d(2) size
    by (auto simp: descriptor_def)
  have "extract_bundle env blake3 unzstd (canonical_bytes ?es) d stage output_roots l False = Inr fs"
    using es(5) by (intro extract_bundle_complete[OF l ok(1,2) stage roots _ ok(3) _ fs(1,2)])
      (simp_all add: canonical_run_def d(2) descriptor_def)
  then show ?thesis using roots es(1,4) d(1) fs(3,4) by (auto simp: restored_def)
qed

lemma pack_extract_zstd:
  assumes "pack_bundle blake3 zstd h workspace output_roots (ZstdBundle level) l cancelled = Inr (bytes, d)"
    and host: "unix_host h" "short_links h l" "good_workspace workspace"
    and roots_ok: "\<forall>r \<in> set output_roots. validate_path r = Inr ()" and stage: "check_empty_staging stage = Inr ()"
    and zstd: "\<And>plain encoded. zstd level plain = Inr encoded \<Longrightarrow>
      unzstd encoded = Inr (plain, length encoded) \<and> length encoded < 2 ^ 64"
    and ratio: "unat (expanded_size_bytes d) \<le> unat (encoded_size_bytes d) * unat (max_compression_ratio l)"
  shows "\<exists>fs. extract_bundle env blake3 unzstd bytes d stage output_roots l False = Inr fs \<and>
    restored h workspace l output_roots fs"
proof -
  obtain roots where l: "limits_validate l = Inr l" and roots: "validate_output_roots output_roots = Inr roots"
    and good: "good_roots roots" and buf: "0 < read_buffer_bytes l" "read_buffer_bytes l < 2 ^ 64"
    and enc: "bundle_encoding_validate (ZstdBundle level) = Inr (ZstdBundle level)"
    by (rule pack_bundle_checks[OF assms(1) roots_ok])
  obtain plain expanded n dig sink encoded where
    w: "write_canonical blake3 h encoder_write [] workspace roots l cancelled = Inr (plain, dig, expanded, n)"
    and z: "zstd level plain = Inr encoded" "counting_write (counting_writer_new (max_encoded_bytes l)) encoded = Inr sink"
    and d: "bytes = cw_inner sink" "d = descriptor dig ZstdV1 (cw_bytes sink) expanded n"
    using assms(1) l roots enc by (auto simp: pack_bundle_def result_simps Let_def case_result_Ok)
  obtain es where es: "packed_tree h workspace l roots es" "plain = canonical_bytes (map (packed_entry h) es)"
    "canonical_run blake3 l roots (map (packed_entry h) es) dig expanded n"
    using encoder_sink.write_canonical_Ok[OF w _ _ buf host good] by auto
  let ?es = "map (packed_entry h) es"
  have sink: "unat (cw_bytes sink) = length encoded" "cw_inner sink = encoded" "cw_bytes sink \<le> max_encoded_bytes l"
    using counted_sink.write_Ok[where maximum = "max_encoded_bytes l", OF _ _ z(2)] zstd[OF z(1)]
    by (auto simp: counting_writer_new_def)
  have "unat expanded \<noteq> 0"
    using es(3) by (simp add: canonical_run_def canonical_bytes_def BUNDLE_MAGIC_def as_bytes_def)
  moreover have "unat expanded \<le> unat (cw_bytes sink) * unat (max_compression_ratio l)"
    using ratio d(2) by (simp add: descriptor_def)
  ultimately have "unat (cw_bytes sink) \<noteq> 0" by (metis le_zero_eq mult_zero_left)
  then have "cw_bytes sink \<noteq> 0" by auto
  then obtain prev cur fs where
    fs: "place_entries env roots ?es = Inr (prev, cur, fs)" "roots_done cur = length roots"
      "outside fs = []" "map_of (inside fs) = staged output_roots ?es"
    and ok: "blob_validate d = Inr ()" "validate_descriptor_limits d l = Inr ()" "describes blake3 d ?es"
    using canonical_run_extracts[OF _ l roots, of blake3 ?es d env] es(3) sink(3) ratio d(2)
    by (auto simp: descriptor_def)
  have "word_of_nat (length encoded) = cw_bytes sink" by (simp flip: sink(1))
  then have "extract_bundle env blake3 unzstd encoded d stage output_roots l False = Inr fs"
    using es(3) zstd[OF z(1)] es(2) sink(1)
    by (intro extract_bundle_complete_zstd[OF l ok(1,2) stage roots _ _ _ ok(3) _ fs(1,2), of _ _ "length encoded"])
      (simp_all add: canonical_run_def d(2) descriptor_def)
  then show ?thesis using roots es(1) sink(2) d(1) fs(3,4) by (auto simp: restored_def)
qed


definition file_metadata :: Metadata where
  "file_metadata = \<lparr>m_type = RegularFile, m_len = 2, m_mode = 493, m_dev = 1, m_ino = 7,
     m_modified = Inr (False, 0, 0), m_ctime = 0, m_ctime_nsec = 0\<rparr>"

definition one_file_host :: host where
  "one_file_host =
     \<lparr>host_symlink_metadata = (\<lambda>p. if p = [''w'', ''run''] then Inr file_metadata else Inl NotFound),
      host_metadata = (\<lambda>p. if p = [''w'', ''run''] then Inr file_metadata else Inl NotFound),
      host_read_link = (\<lambda>p. Inl InvalidInput), host_canonicalize = (\<lambda>p t. Inl NotFound),
      host_read_dir = (\<lambda>p. Inl NotFound),
      host_open = (\<lambda>p. if p = [''w'', ''run''] then Inr (file_metadata, [104, 105]) else Inl NotFound)\<rparr>"

text \<open>A codec that stores its input as it is.\<close>

definition store_encoder :: zstd_encoder where
  "store_encoder level bs = (if length bs < 2 ^ 64 then Inr bs else Inl OtherIo)"

definition store_decoder :: zstd_decoder where
  "store_decoder bs = Inr (bs, length bs)"

lemma inspect_one_file:
  "inspect_output_entry one_file_host [''w''] test_limits [''w'', ''run''] =
     Inr \<lparr>oe_path = ''run'', oe_source = [''w'', ''run''],
       discovered = \<lparr>key_identity = (1, 7), key_length = 2, key_modified = (False, 0, 0), key_change = (0, 0)\<rparr>,
       oe_kind = FileEntry 2 True\<rparr>"
proof -
  have "portable_relative (show_path [''w'']) (show_path [''w'', ''run'']) = Inr ''run''"
    by (simp add: portable_relative_def show_path_def components_def component_of_def starts_with_def strip_prefix_def
        from_path_def lift_protocol_def relative_path_new_def validate_path_def MAX_CACHE_STRING_BYTES_def)
  then show ?thesis
    by (simp add: inspect_output_entry_def one_file_host_def file_metadata_def lift_io_def entry_key_new_def
        test_limits_def executable_def)
qed

abbreviation run_entry :: OutputEntry where
  "run_entry \<equiv> \<lparr>oe_path = ''run'', oe_source = [''w'', ''run''],
     discovered = \<lparr>key_identity = (1, 7), key_length = 2, key_modified = (False, 0, 0), key_change = (0, 0)\<rparr>,
     oe_kind = FileEntry 2 True\<rparr>"

lemma one_file_stable:
  "validate_stable_entry one_file_host run_entry = Inr ()"
  by (simp add: validate_stable_entry_def one_file_host_def file_metadata_def lift_io_def entry_key_new_def)

lemma visit_one_file:
  "visit_output_tree one_file_host [''w''] [''run''] test_limits False visit s =
     and_then (visit s run_entry) (\<lambda>s'. Inr (1, s'))"
proof -
  have "unat (max_entries test_limits) = 16" by (simp add: test_limits_def)
  then show ?thesis
    by (simp add: visit_output_tree_def join_relative_def check_cancelled_def inspect_one_file one_file_stable)
qed

lemma copy_one_file:
  "copy_stable_file one_file_host write_inner run_entry 2 4096 False w = writer_write write_inner w [104, 105]"
proof -
  have "chunks_of 4096 [104, 105] = [[104, 105]]" by (simp add: chunks_of.simps)
  then show ?thesis
    by (simp add: copy_stable_file_def one_file_host_def file_metadata_def lift_io_def entry_key_new_def Let_def
        check_cancelled_def)
qed

lemma pack_one_file:
  "\<exists>bytes d. pack_bundle zero_hash store_encoder one_file_host [''w''] [''run''] (ZstdBundle 3) test_limits False = Inr (bytes, d) \<and>
     encoded_size_bytes d = expanded_size_bytes d"
proof -
  have roots: "validate_output_roots [''run''] = Inr [''run'']" by code_simp
  have l: "limits_validate test_limits = Inr test_limits" by (simp add: limits_validate_def test_limits_def)
  have sel: "max_encoded_bytes test_limits = 4096" "max_expanded_bytes test_limits = 4096"
    "read_buffer_bytes test_limits = 4096"
    by (simp_all add: test_limits_def)
  show ?thesis
    by (simp add: pack_bundle_def l roots sel bundle_encoding_validate_def check_cancelled_def write_canonical_def
        visit_one_file summarize_output_tree_def write_entry_def copy_one_file Let_def writer_write_def encoder_write_def
        counting_write_def writer_new_def counting_writer_new_def BUNDLE_MAGIC_def checked_add_def saturating_sub_def
        writer_finish_def store_encoder_def descriptor_def)
qed


end
