(* ===== verification/Exec_Error.thy ===== *)
theory Exec_Error
  imports Dag
begin

text \<open>
  The error values of the executor and the terminal states built from them:
  \<^verbatim>\<open>crates/octa-executor/src/error.rs\<close>, \<^verbatim>\<open>execution_result.rs\<close>, and the status order of
  \<^verbatim>\<open>crates/octa-output/src/record.rs\<close>.  Errors of other crates that an executor error wraps are kept as
  the text they print.
\<close>

section \<open>Errors\<close>

type_synonym i32 = int

record SourceLocation =
  loc_file :: string
  loc_line :: "u64 option"
  loc_column :: "u64 option"

datatype (plugins only: size) ExecutorError =
    ShutdownTimeout
  | TaskCancelled string
  | TaskTimedOut string string
  | TaskParsedError
  | PluginUnavailable string
  | PluginValidationFailed string string
  | PluginOutputValidationFailed string string
  | RawUnsupported string
  | PluginOutputTooLarge string nat
  | StructuredOutputLimitExceeded nat
  | StructuredOutputSerializationFailed string
  | InvalidResource string string string
  | SecretProfile string
  | SecretProvider string string
  | PluginEvaluationFailed string i32 string "SourceLocation option"
  | PluginEvaluationUnavailable string
  | CycleDetected
  | CommandNotFound string
  | DeserializeError string
  | TaskNotFound string
  | TaskFailed string
  | TemplateParseFailed string
  | TemplateRenderError string
  | CommandFailed string i32 string "SourceLocation option"
  | ExecutionIdentityError string
  | ActionIdentityError string
  | ActionIdentitySerialization string
  | InvalidCacheConfiguration string
  | TaskConfigFieldMissing string
  | CacheState string
  | CacheProtocol string
  | Cache string
  | DotenvError string string
  | AddDependencyError DAGError
  | ValueExpandError string string
  | ChannelError
  | ConcurrencyLimiterClosed
  | IoError string
  | ExtraValueConvertError string string
  | JoinError string
  | MissingWorkDir
  | VariableExpandError string string
  | RequiredVariableMissing string
  | RequiredVariableNotConcrete string
  | RequiredVariableNotAllowed string string
  | RequiredVariableEnumError string string
  | VariablePromptUnavailable string
  | VariablePromptFailed string string
  | TaskOutputMissing string string
  | DependencyOutputMissing string string string
  | InvalidTaskOutputReference string string
  | InvalidTaskOutput string string string
  | GetCotafile string
  | LockError string

definition show_int :: "int \<Rightarrow> string" where
  "show_int i = (if i < 0 then ''-'' @ decimal (nat (- i)) else decimal (nat i))"

text \<open>The texts of the \<open>#[error(...)]\<close> attributes.\<close>

fun display :: "ExecutorError \<Rightarrow> string" where
  "display ShutdownTimeout = ''Shutdown timeout exceeded''"
| "display (TaskCancelled t) = ''Task '' @ t @ '' cancelled''"
| "display (TaskTimedOut t d) = ''Task '' @ t @ '' exceeded timeout '' @ d"
| "display TaskParsedError = ''Missing plugin keys in task''"
| "display (PluginUnavailable p) = ''No running plugin provides task type '' @ quoted p"
| "display (PluginValidationFailed p m) = ''Invalid parameters for plugin '' @ quoted p @ '': '' @ m"
| "display (PluginOutputValidationFailed p m) = ''Invalid outputs from plugin '' @ quoted p @ '': '' @ m"
| "display (RawUnsupported p) = ''Plugin '' @ quoted p @ '' does not support raw/PTY execution''"
| "display (PluginOutputTooLarge p n) =
     ''Plugin '' @ quoted p @ '' output exceeds the '' @ decimal n @ '' MiB task-result limit''"
| "display (StructuredOutputLimitExceeded n) =
     ''Structured outputs exceed the '' @ decimal n @ '' byte execution limit''"
| "display (StructuredOutputSerializationFailed m) =
     ''Failed to serialize structured plugin outputs: '' @ m"
| "display (InvalidResource k n m) = ''Invalid '' @ k @ '' '' @ quoted n @ '': '' @ m"
| "display (SecretProfile m) = ''Invalid secret profile: '' @ m"
| "display (SecretProvider p m) = ''Secret provider '' @ quoted p @ '' failed: '' @ m"
| "display (PluginEvaluationFailed k c e l) =
     ''Plugin '' @ quoted k @ '' evaluation failed with status '' @ show_int c @ '': '' @ e"
| "display (PluginEvaluationUnavailable w) =
     ''Plugin evaluation is unavailable while resolving '' @ quoted w"
| "display CycleDetected = ''Cycle detected in task dependencies''"
| "display (CommandNotFound c) = ''Command not found: '' @ c"
| "display (DeserializeError m) = ''Failed to parse YAML Value: '' @ m"
| "display (TaskNotFound t) = ''Task not found: '' @ t"
| "display (TaskFailed m) = ''Task execution failed: '' @ m"
| "display (TemplateParseFailed m) = ''Template error: '' @ m"
| "display (TemplateRenderError m) = ''Template render error: '' @ m"
| "display (CommandFailed t c e l) =
     ''Task '' @ t @ '' failed with exit code '' @ show_int c @ '': '' @ e"
| "display (ExecutionIdentityError m) = ''Invalid execution identity: '' @ m"
| "display (ActionIdentityError m) = ''Failed to build cache action identity: '' @ m"
| "display (ActionIdentitySerialization m) = ''Failed to serialize cache action identity: '' @ m"
| "display (InvalidCacheConfiguration m) = ''Invalid task cache configuration: '' @ m"
| "display (TaskConfigFieldMissing f) = ''Missing mandatory task configuration field: '' @ f"
| "display (CacheState m) = ''Invalid cache lifecycle state: '' @ m"
| "display (CacheProtocol m) = ''Invalid cache protocol value: '' @ m"
| "display (Cache m) = ''Cache operation failed: '' @ m"
| "display (DotenvError p m) = ''Failed to load environment file '' @ quoted p @ '': '' @ m"
| "display (AddDependencyError e) = ''Failed to add graph dependency''"
| "display (ValueExpandError k m) = ''Failed to expand value: '' @ k @ '': '' @ m"
| "display ChannelError = ''Channel communication error''"
| "display ConcurrencyLimiterClosed = ''Concurrency limiter was closed''"
| "display (IoError m) = ''IO error: '' @ m"
| "display (ExtraValueConvertError k m) =
     ''Failed to convert '' @ k @ '' yaml Value to json Value: '' @ m"
| "display (JoinError m) = ''Task join error: '' @ m"
| "display MissingWorkDir = ''Missing working directory configuration''"
| "display (VariableExpandError v m) = ''Failed to expand variable: '' @ v @ '': '' @ m"
| "display (RequiredVariableMissing v) = ''Required variable '' @ quoted v @ '' is not set''"
| "display (RequiredVariableNotConcrete v) =
     ''Required variable '' @ quoted v @ '' must be supplied as a concrete value''"
| "display (RequiredVariableNotAllowed v a) =
     ''Required variable '' @ quoted v @ '' must be one of: '' @ a"
| "display (RequiredVariableEnumError v m) =
     ''Failed to resolve enum for required variable '' @ quoted v @ '': '' @ m"
| "display (VariablePromptUnavailable v) =
     ''Interactive input is unavailable for required variable '' @ quoted v @ ''; supply '' @ v @
     ''=VALUE on the command line''"
| "display (VariablePromptFailed v m) =
     ''Failed to read required variable '' @ quoted v @ '': '' @ m"
| "display (TaskOutputMissing s f) =
     ''Plugin step '' @ quoted s @ '' did not produce exported field '' @ quoted f"
| "display (DependencyOutputMissing v t p) =
     ''Variable '' @ quoted v @ '' requires missing output '' @ quoted p @ '' from dependency '' @ quoted t"
| "display (InvalidTaskOutputReference v m) =
     ''Invalid structured output reference for variable '' @ quoted v @ '': '' @ m"
| "display (InvalidTaskOutput t p m) =
     ''Invalid structured output '' @ quoted p @ '' for task '' @ quoted t @ '': '' @ m"
| "display (GetCotafile m) = ''Failed to get included octafile: '' @ m"
| "display (LockError m) = ''Lock error: '' @ m"

definition command_exit_code :: "ExecutorError \<Rightarrow> i32 option" where
  "command_exit_code err =
     (case err of
        CommandFailed _ code _ _ \<Rightarrow> if code \<noteq> 0 then Some code else None
      | PluginEvaluationFailed _ code _ _ \<Rightarrow> if code \<noteq> 0 then Some code else None
      | _ \<Rightarrow> None)"

definition is_cancellation :: "ExecutorError \<Rightarrow> bool" where
  "is_cancellation err = (case err of TaskCancelled _ \<Rightarrow> True | _ \<Rightarrow> False)"

section \<open>Statuses\<close>

text \<open>Declaration order is severity order: the derived \<open>Ord\<close> of the enum.\<close>

datatype ConsoleStatus = Skipped | Success | Cancelled | Failed

fun severity :: "ConsoleStatus \<Rightarrow> nat" where
  "severity Skipped = 0"
| "severity Success = 1"
| "severity Cancelled = 2"
| "severity Failed = 3"

lemma severity_inject [simp]: "severity a = severity b \<longleftrightarrow> a = b"
  by (cases a; cases b) auto

instantiation ConsoleStatus :: linorder
begin

definition less_eq_ConsoleStatus :: "ConsoleStatus \<Rightarrow> ConsoleStatus \<Rightarrow> bool" where
  "less_eq_ConsoleStatus a b \<longleftrightarrow> severity a \<le> severity b"

definition less_ConsoleStatus :: "ConsoleStatus \<Rightarrow> ConsoleStatus \<Rightarrow> bool" where
  "less_ConsoleStatus a b \<longleftrightarrow> severity a < severity b"

instance
  by standard (auto simp: less_eq_ConsoleStatus_def less_ConsoleStatus_def antisym_conv
    simp flip: severity_inject)

end

lemma status_bounds [simp]: "Skipped \<le> st" "st \<le> Failed" "max Skipped st = st" "max Failed st = Failed"
  "max st Failed = Failed" for st :: ConsoleStatus
  by (cases st; simp add: less_eq_ConsoleStatus_def max_def)+

section \<open>Failures and conclusions\<close>

datatype ExecutionFailureKind =
  CancelledKind | TimeoutKind | CommandKind | TaskKind | PluginKind | SecretKind | ConfigurationKind |
  InfrastructureKind

record ExecutionFailure =
  failure_kind :: ExecutionFailureKind
  failure_message :: string
  failure_task_id :: "u64 option"
  failure_step_id :: "u64 option"
  exit_code :: "i32 option"
  failure_location :: "SourceLocation option"

definition error_kind :: "ExecutorError \<Rightarrow> ExecutionFailureKind" where
  "error_kind err =
     (case err of
        TaskCancelled _ \<Rightarrow> CancelledKind
      | TaskTimedOut _ _ \<Rightarrow> TimeoutKind
      | CommandFailed _ _ _ _ \<Rightarrow> CommandKind
      | PluginEvaluationFailed _ _ _ _ \<Rightarrow> CommandKind
      | TaskFailed _ \<Rightarrow> TaskKind
      | PluginUnavailable _ \<Rightarrow> PluginKind
      | PluginValidationFailed _ _ \<Rightarrow> PluginKind
      | PluginOutputValidationFailed _ _ \<Rightarrow> PluginKind
      | RawUnsupported _ \<Rightarrow> PluginKind
      | PluginOutputTooLarge _ _ \<Rightarrow> PluginKind
      | StructuredOutputLimitExceeded _ \<Rightarrow> PluginKind
      | StructuredOutputSerializationFailed _ \<Rightarrow> PluginKind
      | PluginEvaluationUnavailable _ \<Rightarrow> PluginKind
      | SecretProvider _ _ \<Rightarrow> SecretKind
      | ShutdownTimeout \<Rightarrow> InfrastructureKind
      | Cache _ \<Rightarrow> InfrastructureKind
      | AddDependencyError _ \<Rightarrow> InfrastructureKind
      | ChannelError \<Rightarrow> InfrastructureKind
      | ConcurrencyLimiterClosed \<Rightarrow> InfrastructureKind
      | IoError _ \<Rightarrow> InfrastructureKind
      | JoinError _ \<Rightarrow> InfrastructureKind
      | LockError _ \<Rightarrow> InfrastructureKind
      | _ \<Rightarrow> ConfigurationKind)"

definition error_message :: "ExecutorError \<Rightarrow> string" where
  "error_message err =
     (case err of
        CommandFailed task code _ _ \<Rightarrow> ''Task '' @ task @ '' failed with exit code '' @ show_int code
      | PluginEvaluationFailed key code _ _ \<Rightarrow>
          ''Plugin '' @ quoted key @ '' evaluation failed with status '' @ show_int code
      | _ \<Rightarrow> display err)"

definition error_location :: "ExecutorError \<Rightarrow> SourceLocation option" where
  "error_location err =
     (case err of CommandFailed _ _ _ l \<Rightarrow> l | PluginEvaluationFailed _ _ _ l \<Rightarrow> l | _ \<Rightarrow> None)"

text \<open>A binding is a task identifier together with an optional step identifier.\<close>

definition from_error :: "ExecutorError \<Rightarrow> (u64 \<times> u64 option) option \<Rightarrow> ExecutionFailure" where
  "from_error err binding =
     \<lparr>failure_kind = error_kind err, failure_message = error_message err,
      failure_task_id = map_option fst binding, failure_step_id = Option.bind binding snd,
      exit_code = command_exit_code err, failure_location = error_location err\<rparr>"

definition synthetic ::
    "ExecutionFailureKind \<Rightarrow> string \<Rightarrow> u64 option \<Rightarrow> u64 option \<Rightarrow> ExecutionFailure" where
  "synthetic k message task_id step_id =
     \<lparr>failure_kind = k, failure_message = message, failure_task_id = task_id, failure_step_id = step_id,
      exit_code = None, failure_location = None\<rparr>"

datatype ExecutionConclusion =
    SucceededC
  | SkippedC
  | FailedC ExecutionFailure
  | CancelledC ExecutionFailure

fun conclusion_status :: "ExecutionConclusion \<Rightarrow> ConsoleStatus" where
  "conclusion_status SucceededC = Success"
| "conclusion_status SkippedC = Skipped"
| "conclusion_status (FailedC f) = Failed"
| "conclusion_status (CancelledC f) = Cancelled"

fun conclusion_failure :: "ExecutionConclusion \<Rightarrow> ExecutionFailure option" where
  "conclusion_failure (FailedC f) = Some f"
| "conclusion_failure (CancelledC f) = Some f"
| "conclusion_failure SucceededC = None"
| "conclusion_failure SkippedC = None"

fun is_success :: "ExecutionConclusion \<Rightarrow> bool" where
  "is_success SucceededC = True"
| "is_success SkippedC = True"
| "is_success (FailedC f) = False"
| "is_success (CancelledC f) = False"

fun conclusion :: "ConsoleStatus \<Rightarrow> ExecutionFailure option \<Rightarrow> u64 option \<Rightarrow> u64 option
    \<Rightarrow> ExecutionConclusion" where
  "conclusion Success f t s = SucceededC"
| "conclusion Skipped f t s = SkippedC"
| "conclusion Failed f t s =
     FailedC (case f of Some x \<Rightarrow> x | None \<Rightarrow> synthetic TaskKind ''execution failed'' t s)"
| "conclusion Cancelled f t s =
     CancelledC (case f of Some x \<Rightarrow> x | None \<Rightarrow> synthetic CancelledKind ''execution cancelled'' t s)"

lemma conclusion_status_of [simp]: "conclusion_status (conclusion st f t s) = st"
  by (cases st) auto

lemma error_kind_cancelled: "error_kind err = CancelledKind \<longleftrightarrow> is_cancellation err"
  by (cases err) (auto simp: error_kind_def is_cancellation_def)

section \<open>Which failure is kept\<close>

definition record_execution_error :: "ExecutorError option \<Rightarrow> ExecutorError \<Rightarrow> ExecutorError option" where
  "record_execution_error recorded err =
     (if recorded = None \<or> (\<exists>r. recorded = Some r \<and> is_cancellation r) \<and> \<not> is_cancellation err
      then Some err else recorded)"

text \<open>The specification: the first failure that is not a cancellation, else the first of all.\<close>

definition originating :: "('e \<Rightarrow> bool) \<Rightarrow> 'e list \<Rightarrow> 'e option" where
  "originating cancelled es =
     (case filter (\<lambda>e. \<not> cancelled e) es of x # _ \<Rightarrow> Some x
      | [] \<Rightarrow> (case es of [] \<Rightarrow> None | x # _ \<Rightarrow> Some x))"

lemma filter_hd:
  assumes "filter P es = y # ys"
  shows "y \<in> set es \<and> P y"
proof -
  have "y \<in> set (filter P es)" by (simp only: assms list.set_intros)
  then show ?thesis by simp
qed

lemma originating_snoc:
  "originating c (es @ [x]) =
     (case originating c es of None \<Rightarrow> Some x | Some r \<Rightarrow> if c r \<and> \<not> c x then Some x else Some r)"
proof (cases "filter (\<lambda>e. \<not> c e) es")
  case Nil
  then have "\<forall>e \<in> set es. c e" by (simp add: filter_empty_conv)
  with Nil show ?thesis by (cases es) (auto simp: originating_def)
next
  case (Cons y ys)
  then have "\<not> c y" using filter_hd by fastforce
  with Cons show ?thesis by (simp add: originating_def)
qed

lemma originating_Nil [simp]: "originating c [] = None"
  by (simp add: originating_def)

lemma originating_None: "originating c es = None \<longleftrightarrow> es = []"
  by (auto simp: originating_def split: list.splits)

lemma originating_member: "originating c es = Some e \<Longrightarrow> e \<in> set es"
proof (cases "filter (\<lambda>e. \<not> c e) es")
  case (Cons y ys)
  moreover have "y \<in> set es" using filter_hd[OF Cons] by simp
  moreover assume "originating c es = Some e"
  ultimately show ?thesis by (auto simp: originating_def)
qed (auto simp: originating_def split: list.splits)

lemma originating_cancelled:
  "originating c es = Some e \<Longrightarrow> c e \<longleftrightarrow> (\<forall>x \<in> set es. c x)"
proof (cases "filter (\<lambda>e. \<not> c e) es")
  case Nil
  moreover assume "originating c es = Some e"
  moreover have "e \<in> set es" using calculation(2) by (rule originating_member)
  ultimately show ?thesis by (auto simp: filter_empty_conv)
next
  case (Cons y ys)
  then have "y \<in> set es \<and> \<not> c y" by (rule filter_hd)
  moreover assume "originating c es = Some e"
  ultimately show ?thesis using Cons by (auto simp: originating_def)
qed

lemma record_execution_error_fold:
  "foldl record_execution_error None es = originating is_cancellation es"
proof (induction es rule: rev_induct)
  case (snoc x es)
  then show ?case
    by (auto simp: record_execution_error_def originating_snoc split: option.splits)
qed simp

end
