(* ===== verification/Task_Outputs.thy ===== *)
theory Task_Outputs
  imports Exec_Error
begin

text \<open>
  Structured task outputs: \<^verbatim>\<open>crates/octa-executor/src/structured_output.rs\<close> and the dependency results of
  \<^verbatim>\<open>task.rs\<close>.  JSON maps and hash sets are lists in iteration order; the JSON serializer is a
  parameter that gives the chunks it writes.  The theorems show that merging never publishes a
  value that its producer declared secret, and that the run-wide byte budget is exact.
\<close>

section \<open>Exported values\<close>

record 'v TaskOutputs =
  out_values :: "(string \<times> 'v) list"
  secrets :: "string list"

definition no_outputs :: "'v TaskOutputs" where
  "no_outputs = \<lparr>out_values = [], secrets = []\<rparr>"

definition insert_output :: "string \<Rightarrow> 'v \<Rightarrow> bool \<Rightarrow> 'v TaskOutputs \<Rightarrow> 'v TaskOutputs" where
  "insert_output name v secret d =
     d\<lparr>out_values := entry_update name v (\<lambda>_. v) (out_values d),
       secrets := (if secret then hs_insert id name (secrets d) else removeAll name (secrets d))\<rparr>"

definition get_output :: "'v TaskOutputs \<Rightarrow> string \<Rightarrow> 'v option" where
  "get_output d name = map_of (out_values d) name"

definition is_secret :: "'v TaskOutputs \<Rightarrow> string \<Rightarrow> bool" where
  "is_secret d name \<longleftrightarrow> name \<in> set (secrets d)"

definition extend_outputs :: "'v TaskOutputs \<Rightarrow> 'v TaskOutputs \<Rightarrow> 'v TaskOutputs" where
  "extend_outputs d newer =
     foldl (\<lambda>d (name, v). insert_output name v (is_secret newer name) d) d (out_values newer)"

definition keep_output :: "'v TaskOutputs \<Rightarrow> 'v TaskOutputs \<Rightarrow> string \<times> 'v \<Rightarrow> 'v TaskOutputs" where
  "keep_output older d = (\<lambda>(name, v).
     if get_output d name \<noteq> None then d
     else d\<lparr>out_values := entry_update name v (\<lambda>_. v) (out_values d),
            secrets := (if is_secret older name then hs_insert id name (secrets d) else secrets d)\<rparr>)"

definition extend_missing :: "'v TaskOutputs \<Rightarrow> 'v TaskOutputs \<Rightarrow> 'v TaskOutputs" where
  "extend_missing d older = foldl (keep_output older) d (out_values older)"

definition public_values :: "'v TaskOutputs \<Rightarrow> (string \<times> 'v) list" where
  "public_values d = filter (\<lambda>(name, _). \<not> is_secret d name) (out_values d)"

definition secret_names :: "'v TaskOutputs \<Rightarrow> string list" where
  "secret_names d = sort (secrets d)"

text \<open>The names are the keys of a map, and only exported names are secret.\<close>

definition wf_outputs :: "'v TaskOutputs \<Rightarrow> bool" where
  "wf_outputs d \<longleftrightarrow> distinct (map fst (out_values d)) \<and> distinct (secrets d) \<and>
     set (secrets d) \<subseteq> fst ` set (out_values d)"

lemma hs_insert_id [simp]: "set (hs_insert id x xs) = insert x (set xs)"
  by (auto simp: hs_insert_def hs_contains_def)

lemma insert_output_lookup [simp]:
  "get_output (insert_output name v s d) n = (if n = name then Some v else get_output d n)"
  "is_secret (insert_output name v s d) n \<longleftrightarrow> (if n = name then s else is_secret d n)"
  by (auto simp: insert_output_def get_output_def is_secret_def entry_update_map_of split: option.splits)

lemma insert_output_wf: "wf_outputs d \<Longrightarrow> wf_outputs (insert_output name v s d)"
  using hs_insert_distinct[of id "secrets d" name]
  by (auto simp: wf_outputs_def insert_output_def coll_simps entry_update_distinct distinct_removeAll)

lemma keep_output_lookup:
  "get_output (keep_output older d (name, v)) n =
     (if get_output d name = None \<and> n = name then Some v else get_output d n)"
  "is_secret (keep_output older d (name, v)) n \<longleftrightarrow>
     (get_output d name = None \<and> n = name \<and> is_secret older n) \<or> is_secret d n"
  by (auto simp: keep_output_def get_output_def is_secret_def entry_update_map_of split: option.splits)

lemma keep_output_wf: "wf_outputs d \<Longrightarrow> wf_outputs (keep_output older d kv)"
  using hs_insert_distinct[of id "secrets d" "fst kv"]
  by (cases kv) (auto simp: wf_outputs_def keep_output_def coll_simps entry_update_distinct)

lemma foldl_invariant: "P d \<Longrightarrow> (\<And>d x. P d \<Longrightarrow> P (f d x)) \<Longrightarrow> P (foldl f d xs)"
  by (induction xs arbitrary: d) auto

lemma extend_wf: "wf_outputs d \<Longrightarrow> wf_outputs (extend_outputs d newer)"
  unfolding extend_outputs_def by (rule foldl_invariant[where P = wf_outputs]) (auto simp: insert_output_wf)

lemma extend_missing_wf: "wf_outputs d \<Longrightarrow> wf_outputs (extend_missing d older)"
  unfolding extend_missing_def by (rule foldl_invariant[where P = wf_outputs]) (auto simp: keep_output_wf)

lemma extend_loop:
  assumes "distinct (map fst kvs)"
  shows "get_output (foldl (\<lambda>d (name, v). insert_output name v (sec name) d) d kvs) n =
      (case map_of kvs n of None \<Rightarrow> get_output d n | Some v \<Rightarrow> Some v)"
    and "is_secret (foldl (\<lambda>d (name, v). insert_output name v (sec name) d) d kvs) n \<longleftrightarrow>
      (if n \<in> fst ` set kvs then sec n else is_secret d n)"
  using assms by (induction kvs arbitrary: d) (auto split: option.splits simp: rev_image_eqI)

lemma extend_lookup:
  assumes "wf_outputs newer"
  shows "get_output (extend_outputs d newer) n =
      (case get_output newer n of None \<Rightarrow> get_output d n | Some v \<Rightarrow> Some v)"
    and "is_secret (extend_outputs d newer) n \<longleftrightarrow>
      (if get_output newer n = None then is_secret d n else is_secret newer n)"
  using extend_loop[of "out_values newer" "is_secret newer" d n] assms
  by (auto simp: extend_outputs_def wf_outputs_def get_output_def map_of_eq_None_iff)

lemma extend_missing_loop:
  assumes "distinct (map fst kvs)"
  shows "get_output (foldl (keep_output older) d kvs) n =
      (case get_output d n of None \<Rightarrow> map_of kvs n | Some v \<Rightarrow> Some v)"
    and "is_secret (foldl (keep_output older) d kvs) n \<longleftrightarrow>
      is_secret d n \<or> get_output d n = None \<and> n \<in> fst ` set kvs \<and> is_secret older n"
  using assms
  by (induction kvs arbitrary: d)
     (auto simp: keep_output_lookup rev_image_eqI split: option.splits if_splits)

lemma extend_missing_lookup:
  assumes "wf_outputs older"
  shows "get_output (extend_missing d older) n =
      (case get_output d n of None \<Rightarrow> get_output older n | Some v \<Rightarrow> Some v)"
    and "is_secret (extend_missing d older) n \<longleftrightarrow>
      is_secret d n \<or> get_output d n = None \<and> is_secret older n"
  using extend_missing_loop[of "out_values older" older d n] assms
  by (auto simp: extend_missing_def wf_outputs_def get_output_def[of older] is_secret_def[of older]
    split: option.splits)

lemma map_of_filter_keys:
  "map_of (filter (\<lambda>(k, _). P k) m) n = (if P n then map_of m n else None)"
  by (induction m) auto

lemma public_lookup:
  "map_of (public_values d) n = (if is_secret d n then None else get_output d n)"
  using map_of_filter_keys[of "\<lambda>k. \<not> is_secret d k" "out_values d" n]
  by (simp add: public_values_def get_output_def)

lemma secret_has_value: "wf_outputs d \<Longrightarrow> is_secret d n \<Longrightarrow> get_output d n \<noteq> None"
  by (auto simp: wf_outputs_def is_secret_def get_output_def map_of_eq_None_iff)

text \<open>
  C23.  Merging respects secrecy.  After \<open>extend\<close> the public value of a name is the one its newer
  producer made public, or, when the newer outputs do not have the name, the older public value;
  after \<open>extend_missing\<close> the values already present win in the same way.  A value a producer marked
  secret is in neither case visible.
\<close>

theorem merged_public_values:
  assumes "wf_outputs d" "wf_outputs e"
  shows "map_of (public_values (extend_outputs d e)) n =
      (case get_output e n of None \<Rightarrow> map_of (public_values d) n | Some _ \<Rightarrow> map_of (public_values e) n) \<and>
    map_of (public_values (extend_missing d e)) n =
      (case get_output d n of None \<Rightarrow> map_of (public_values e) n | Some _ \<Rightarrow> map_of (public_values d) n)"
  using extend_lookup[OF assms(2), of d n] extend_missing_lookup[OF assms(2), of d n]
    secret_has_value[OF assms(1), of n]
  by (auto simp: public_lookup split: option.splits)

definition token_outputs :: "string TaskOutputs" where
  "token_outputs = insert_output ''image'' ''old'' False (insert_output ''token'' ''hunter2'' True no_outputs)"

definition image_outputs :: "string TaskOutputs" where
  "image_outputs = insert_output ''image'' ''new'' True no_outputs"

lemma no_outputs_wf: "wf_outputs no_outputs"
  by (simp add: no_outputs_def wf_outputs_def)

lemma sample_outputs_wf: "wf_outputs token_outputs" "wf_outputs image_outputs"
  by (simp_all add: token_outputs_def image_outputs_def insert_output_wf no_outputs_wf)

theorem merged_public_values_witness:
  "map_of (public_values (extend_outputs token_outputs image_outputs)) ''image'' = None \<and>
   map_of (public_values (extend_missing token_outputs image_outputs)) ''image'' = Some ''old''"
  using merged_public_values[OF sample_outputs_wf, of "''image''"]
  by (simp add: public_lookup token_outputs_def image_outputs_def)

section \<open>Results published to dependants\<close>

record 'v DependencyResult =
  dep_stdout :: string
  dep_outputs :: "'v TaskOutputs"

definition merge :: "'v DependencyResult \<Rightarrow> 'v DependencyResult \<Rightarrow> 'v DependencyResult" where
  "merge r newer = \<lparr>dep_stdout = dep_stdout newer, dep_outputs = extend_outputs (dep_outputs r) (dep_outputs newer)\<rparr>"

definition merge_missing :: "'v DependencyResult \<Rightarrow> 'v DependencyResult \<Rightarrow> 'v DependencyResult" where
  "merge_missing r older = r\<lparr>dep_outputs := extend_missing (dep_outputs r) (dep_outputs older)\<rparr>"

type_synonym 'v deps_result = "(string \<times> 'v DependencyResult) list"

definition set_result :: "string \<Rightarrow> 'v DependencyResult \<Rightarrow> 'v deps_result \<Rightarrow> 'v deps_result" where
  "set_result name r deps =
     (case map_of deps name of
        Some _ \<Rightarrow> entry_update name r (\<lambda>existing. merge existing r) deps
      | None \<Rightarrow> deps @ [(name, r)])"

definition bypass_result :: "'v deps_result \<Rightarrow> 'v deps_result \<Rightarrow> 'v deps_result" where
  "bypass_result inherited deps = foldl (\<lambda>d (name, r). set_result name r d) deps inherited"

lemma set_result_names [simp]: "fst ` set (set_result name r deps) = insert name (fst ` set deps)"
  by (auto simp: set_result_def coll_simps split: option.splits)

lemma bypass_result_names [simp]:
  "fst ` set (bypass_result inherited deps) = fst ` set inherited \<union> fst ` set deps"
  unfolding bypass_result_def
  by (induction inherited arbitrary: deps) (simp_all add: case_prod_unfold)

section \<open>The run-wide output budget\<close>

record StructuredOutputBudget =
  used :: u64
  limit :: u64

text \<open>\<open>ByteCounter::write\<close> on one chunk, and on all the chunks of one serialized value.\<close>

definition byte_counter_write :: "u64 \<Rightarrow> u64 \<Rightarrow> (ExecutorError, u64) result" where
  "byte_counter_write bytes len =
     (case checked_add bytes len of
        Some grown \<Rightarrow> Ok grown
      | None \<Rightarrow> Err (StructuredOutputSerializationFailed ''structured output size overflow''))"

definition serialized_size :: "('m \<Rightarrow> u64 list) \<Rightarrow> 'm \<Rightarrow> (ExecutorError, u64) result" where
  "serialized_size chunks m = try_fold byte_counter_write 0 (chunks m)"

definition reserve :: "((string \<times> 'v) list \<Rightarrow> u64 list) \<Rightarrow> (string \<times> 'v) list \<Rightarrow> 'v TaskOutputs
    \<Rightarrow> StructuredOutputBudget \<Rightarrow> (ExecutorError, unit) result \<times> StructuredOutputBudget" where
  "reserve chunks step task b =
     (case serialized_size chunks step of
        Inl e \<Rightarrow> (Err e, b)
      | Inr step_size \<Rightarrow>
          (case serialized_size chunks (out_values task) of
             Inl e \<Rightarrow> (Err e, b)
           | Inr task_size \<Rightarrow>
               (case checked_add (used b) (saturating_add step_size task_size) of
                  Some grown \<Rightarrow>
                    if grown \<le> limit b then (Ok (), b\<lparr>used := grown\<rparr>)
                    else (Err (StructuredOutputLimitExceeded (unat (limit b))), b)
                | None \<Rightarrow> (Err (StructuredOutputLimitExceeded (unat (limit b))), b))))"

lemma counter_total:
  "try_fold byte_counter_write b ls = Inr t \<Longrightarrow> unat t = unat b + sum_list (map unat ls)"
proof (induction ls arbitrary: b)
  case (Cons l ls)
  then obtain c where "byte_counter_write b l = Inr c" and r: "try_fold byte_counter_write c ls = Inr t"
    by (auto simp: result_simps)
  then have "unat c = unat b + unat l"
    by (auto simp: byte_counter_write_def result_simps split: option.splits)
  then show ?case using Cons.IH[OF r] by simp
qed simp

text \<open>The size a value really has, and the sizes the accepted reservations of a run account for.\<close>

definition true_size :: "((string \<times> 'v) list \<Rightarrow> u64 list) \<Rightarrow> (string \<times> 'v) list \<times> 'v TaskOutputs \<Rightarrow> nat" where
  "true_size chunks = (\<lambda>(step, task).
     sum_list (map unat (chunks step)) + sum_list (map unat (chunks (out_values task))))"

fun reserve_all :: "((string \<times> 'v) list \<Rightarrow> u64 list) \<Rightarrow> ((string \<times> 'v) list \<times> 'v TaskOutputs) list
    \<Rightarrow> StructuredOutputBudget \<Rightarrow> ((string \<times> 'v) list \<times> 'v TaskOutputs) list \<times> StructuredOutputBudget" where
  "reserve_all chunks [] b = ([], b)"
| "reserve_all chunks (r # rs) b =
     (let (res, b') = reserve chunks (fst r) (snd r) b; (acc, b'') = reserve_all chunks rs b'
      in (if is_ok res then r # acc else acc, b''))"

lemma reserve_cases:
  assumes "reserve chunks step task b = (res, b')"
  obtains (refused) e where "res = Inl e" "b' = b"
  | (accepted) u v t where "serialized_size chunks step = Inr u"
      "serialized_size chunks (out_values task) = Inr v"
      "checked_add (used b) (saturating_add u v) = Some t" "t \<le> limit b" "b' = b\<lparr>used := t\<rparr>"
      "res = Inr ()"
proof (cases "serialized_size chunks step")
  case (Inl e)
  then show thesis using assms refused[of e] by (simp add: reserve_def)
next
  case u: (Inr u)
  show thesis
  proof (cases "serialized_size chunks (out_values task)")
    case (Inl e)
    then show thesis using assms u refused[of e] by (simp add: reserve_def)
  next
    case v: (Inr v)
    show thesis
    proof (cases "checked_add (used b) (saturating_add u v)")
      case None
      then have "res = Inl (StructuredOutputLimitExceeded (unat (limit b))) \<and> b' = b"
        using assms u v by (auto simp: reserve_def)
      then show thesis using refused by blast
    next
      case t: (Some t)
      show thesis
      proof (cases "t \<le> limit b")
        case True
        then have "res = Inr () \<and> b' = b\<lparr>used := t\<rparr>" using assms u v t by (simp add: reserve_def)
        then show thesis using accepted[OF u v t True] by blast
      next
        case False
        then have "res = Inl (StructuredOutputLimitExceeded (unat (limit b))) \<and> b' = b"
          using assms u v t by (auto simp: reserve_def)
        then show thesis using refused by blast
      qed
    qed
  qed
qed

lemma reserve_exact:
  assumes "reserve chunks step task b = (res, b')" "used b \<le> limit b" "limit b < - 1"
  shows "limit b' = limit b \<and> used b' \<le> limit b \<and>
    (if is_ok res then unat (used b') = unat (used b) + true_size chunks (step, task) else b' = b)"
  using assms(1)
proof (cases rule: reserve_cases)
  case (refused e)
  then show ?thesis using assms by simp
next
  case t: (accepted u v t)
  have lt: "unat t \<le> unat (limit b)" using t by (simp add: word_le_nat_alt)
  have tt: "unat t = unat (used b) + unat (saturating_add u v)" using t by (simp add: result_simps)
  have lim: "unat (limit b) < 2 ^ 64 - 1" using assms(3) by (simp add: word_less_nat_alt unat_max)
  have "unat (saturating_add u v) = min (unat u + unat v) (2 ^ 64 - 1)"
    by (simp add: unat_saturating_add)
  then have "unat (saturating_add u v) = unat u + unat v" using tt lt lim by linarith
  moreover have "true_size chunks (step, task) = unat u + unat v"
    using counter_total[of 0 "chunks step" u] counter_total[of 0 "chunks (out_values task)" v] t(1,2)
    by (simp add: serialized_size_def true_size_def)
  ultimately show ?thesis using t tt by simp
qed

lemma reserve_all_exact:
  assumes "reserve_all chunks rs b = (acc, b')" "used b \<le> limit b" "limit b < - 1"
  shows "limit b' = limit b \<and> used b' \<le> limit b \<and>
    unat (used b') = unat (used b) + sum_list (map (true_size chunks) acc)"
  using assms
proof (induction chunks rs b arbitrary: acc b' rule: reserve_all.induct)
  case (2 chunks r rs b)
  obtain res b1 where r1: "reserve chunks (fst r) (snd r) b = (res, b1)" by fastforce
  obtain acc2 b2 where r2: "reserve_all chunks rs b1 = (acc2, b2)" by fastforce
  have e: "acc = (if is_ok res then r # acc2 else acc2)" "b' = b2"
    using "2.prems"(1) r1 r2 by simp_all
  have x: "limit b1 = limit b \<and> used b1 \<le> limit b \<and>
    (if is_ok res then unat (used b1) = unat (used b) + true_size chunks (fst r, snd r) else b1 = b)"
    by (rule reserve_exact[OF r1 "2.prems"(2,3)])
  have "limit b2 = limit b1 \<and> used b2 \<le> limit b1 \<and>
      unat (used b2) = unat (used b1) + sum_list (map (true_size chunks) acc2)"
    using "2.IH"[OF r1[symmetric] refl r2] x "2.prems" by simp
  then show ?case using x e by (simp split: if_splits)
qed simp

text \<open>
  C24.  The output budget is exact.  Whatever reservations the nodes of a run make, and in
  whatever order, the accepted ones add up to exactly the bytes their step and task values
  serialize to, that total never exceeds the limit, and a refused reservation takes nothing.
  (The size arithmetic saturates, so the limit has to be below \<open>usize::MAX\<close>; it is 64 MiB.)
\<close>

theorem budget_exact:
  assumes "reserve_all chunks rs \<lparr>used = 0, limit = l\<rparr> = (accepted, b)" "l < - 1"
  shows "unat (used b) = sum_list (map (true_size chunks) accepted) \<and> used b \<le> l"
  using reserve_all_exact[OF assms(1)] assms(2) by simp

theorem budget_exact_witness:
  "unat (used (snd (reserve_all (\<lambda>m. map (\<lambda>_. 4) m)
     [([(''a'', ())], no_outputs), ([(''a'', ()), (''b'', ())], no_outputs), ([], no_outputs)]
     \<lparr>used = 0, limit = 6\<rparr>))) = 4"
  using budget_exact[of "\<lambda>m. map (\<lambda>_. 4) m"
     "[([(''a'', ())], no_outputs), ([(''a'', ()), (''b'', ())], no_outputs), ([], no_outputs)]" 6]
  by (simp add: reserve_def serialized_size_def byte_counter_write_def checked_add_def saturating_add_def
    no_outputs_def true_size_def)

end
