(* ===== verification/Events.thy ===== *)
theory Events
  imports Task_Outputs Cache_Policy
begin

text \<open>
  The vocabulary of the output layer: execution identities (\<^verbatim>\<open>crates/octa-output/src/scope.rs\<close>), the
  registered resources (\<^verbatim>\<open>resource.rs\<close>), the events and records of \<^verbatim>\<open>record.rs\<close> and the operation
  observations of \<^verbatim>\<open>crates/octa-runner-protocol/src/observation.rs\<close>.  Times are natural numbers.  The
  template values of a scope, which only the template engine reads, are left out.
\<close>

section \<open>Execution identities\<close>

datatype RenderMode =
  Interleaved | GroupMode | PrefixedMode | OnErrorMode | KeepOrderMode | ReplacingMode | TimedMode | JsonMode

record ConsoleScope =
  allocator_id :: u64
  scope_id :: u64
  parent_task_id :: "u64 option"
  scope_label :: string
  scope_prefix :: "string option"
  render_mode :: "RenderMode option"
  hide_stdout :: bool
  hide_stderr :: bool

type_synonym scope_ident = "u64 \<times> u64"

text \<open>Scopes are compared and hashed by allocator and number only.\<close>

definition scope_key :: "ConsoleScope \<Rightarrow> u64 \<times> u64" where
  "scope_key scope = (allocator_id scope, scope_id scope)"

definition shares_allocator_with :: "ConsoleScope \<Rightarrow> ConsoleScope \<Rightarrow> bool" where
  "shares_allocator_with a b \<longleftrightarrow> allocator_id a = allocator_id b"

definition prefix_of :: "ConsoleScope \<Rightarrow> string" where
  "prefix_of scope = (case scope_prefix scope of Some p \<Rightarrow> p | None \<Rightarrow> scope_label scope)"

record ConsoleStep =
  step_allocator_id :: u64
  step_id :: u64
  step_parent_task_id :: u64
  step_label :: string

definition belongs_to :: "ConsoleStep \<Rightarrow> ConsoleScope \<Rightarrow> bool" where
  "belongs_to stp scope \<longleftrightarrow>
     step_allocator_id stp = allocator_id scope \<and> step_parent_task_id stp = scope_id scope"

record ConsoleScopeAllocator =
  domain_id :: u64
  next_id :: u64
  next_step_id :: u64

text \<open>\<open>fetch_add\<close> on the counters wraps, as the word type does.\<close>

definition scope_with_parent_options ::
    "string \<Rightarrow> u64 option \<Rightarrow> string option \<Rightarrow> bool \<Rightarrow> bool \<Rightarrow> ConsoleScopeAllocator \<Rightarrow>
     ConsoleScope \<times> ConsoleScopeAllocator" where
  "scope_with_parent_options lab parent pre out err a =
     (\<lparr>allocator_id = domain_id a, scope_id = next_id a, parent_task_id = parent, scope_label = lab,
       scope_prefix = pre, render_mode = None, hide_stdout = out, hide_stderr = err\<rparr>,
      a\<lparr>next_id := next_id a + 1\<rparr>)"

definition allocate_step ::
    "ConsoleScope \<Rightarrow> string \<Rightarrow> ConsoleScopeAllocator \<Rightarrow> ConsoleStep \<times> ConsoleScopeAllocator" where
  "allocate_step parent lab a =
     (\<lparr>step_allocator_id = domain_id a, step_id = next_step_id a, step_parent_task_id = scope_id parent,
       step_label = lab\<rparr>,
      a\<lparr>next_step_id := next_step_id a + 1\<rparr>)"

text \<open>\<open>ExecutionBinding\<close>; \<open>for_step\<close> panics when the step belongs to another scope.\<close>

record ExecutionBinding =
  binding_scope :: ConsoleScope
  binding_step :: "ConsoleStep option"

definition for_task :: "ConsoleScope \<Rightarrow> ExecutionBinding" where
  "for_task scope = \<lparr>binding_scope = scope, binding_step = None\<rparr>"

definition for_step :: "ConsoleScope \<Rightarrow> ConsoleStep \<Rightarrow> ExecutionBinding option" where
  "for_step scope stp =
     (if belongs_to stp scope then Some \<lparr>binding_scope = scope, binding_step = Some stp\<rparr> else None)"

section \<open>Registered resources\<close>

record RegisteredArtifact =
  artifact_name :: string
  artifact_path :: string
  content_type :: "string option"

record RegisteredReport =
  report_name :: string
  report_path :: string
  report_format :: string

section \<open>Operation observations\<close>

datatype OperationPhase = OperationStarted | OperationCompleted

datatype FileChangeKind = FileCreated | FileModified | FileDeleted

datatype ObservedOperation =
    FileOperation string FileChangeKind "bool option"
  | CommandOperation "int option" "bool option"

record OperationObservation =
  operation_id :: string
  operation_phase :: OperationPhase
  observed_at_unix_ms :: int
  observed_operation :: ObservedOperation

section \<open>Events and records\<close>

datatype ConsoleStream = Stdout | Stderr

datatype ConsolePayload = LinePayload string | BytesPayload "u8 list" | RawBytes "u8 list"

datatype ConsoleLevel = TraceLevel | DebugLevel | InfoLevel | WarnLevel | ErrorLevel

datatype CacheReason =
    DryRun | SecretVariables | SecretOutputs | ForceReason | ReadDisabled | ActionNotFound
  | InputSnapshotFailed | InputRecheckFailed | InputsChangedDuringLookup | InputsChangedBeforePublish
  | LookupFailed | BlobLookupFailed | BlobReadFailed | RestoreFailed | MissingOutputBundle
  | OutputCaptureFailed | BlobConflict | BlobPublicationFailed | ResultMetadataInvalid
  | ResourceContractInvalid | DeferredFailed | NondeterministicResult | PublicationFailed

fun reason_as_str :: "CacheReason \<Rightarrow> string" where
  "reason_as_str DryRun = ''dry_run''"
| "reason_as_str SecretVariables = ''secret_variables''"
| "reason_as_str SecretOutputs = ''secret_outputs''"
| "reason_as_str ForceReason = ''force''"
| "reason_as_str ReadDisabled = ''read_disabled''"
| "reason_as_str ActionNotFound = ''action_not_found''"
| "reason_as_str InputSnapshotFailed = ''input_snapshot_failed''"
| "reason_as_str InputRecheckFailed = ''input_recheck_failed''"
| "reason_as_str InputsChangedDuringLookup = ''inputs_changed_during_lookup''"
| "reason_as_str InputsChangedBeforePublish = ''inputs_changed_before_publish''"
| "reason_as_str LookupFailed = ''lookup_failed''"
| "reason_as_str BlobLookupFailed = ''blob_lookup_failed''"
| "reason_as_str BlobReadFailed = ''blob_read_failed''"
| "reason_as_str RestoreFailed = ''restore_failed''"
| "reason_as_str MissingOutputBundle = ''missing_output_bundle''"
| "reason_as_str OutputCaptureFailed = ''output_capture_failed''"
| "reason_as_str BlobConflict = ''blob_conflict''"
| "reason_as_str BlobPublicationFailed = ''blob_publication_failed''"
| "reason_as_str ResultMetadataInvalid = ''result_metadata_invalid''"
| "reason_as_str ResourceContractInvalid = ''resource_contract_invalid''"
| "reason_as_str DeferredFailed = ''deferred_failed''"
| "reason_as_str NondeterministicResult = ''nondeterministic_result''"
| "reason_as_str PublicationFailed = ''publication_failed''"

record ProgressUpdate =
  observation :: "OperationObservation option"
  progress_message :: string
  progress_current :: "u64 option"
  progress_total :: "u64 option"
  progress_unit :: "string option"

text \<open>The arguments are the fields of the source in their order, the run identifier first.\<close>

datatype ExecutionEvent =
    RunStarted u64 string
  | RunFinished u64 string ConsoleStatus
  | ScopeDeclared u64 ConsoleScope
  | ScopeStarted u64 ConsoleScope
  | ScopeFinished u64 ConsoleScope ConsoleStatus
  | StepDeclared u64 ConsoleScope ConsoleStep
  | StepStarted u64 ConsoleScope ConsoleStep
  | StepFinished u64 ConsoleScope ConsoleStep ConsoleStatus
  | OutputEvent u64 "ConsoleScope option" "u64 option" string ConsoleStream ConsolePayload
  | ProgressEvent u64 "ConsoleScope option" "u64 option" string ProgressUpdate
  | ArtifactRegistered u64 ConsoleScope "u64 option" RegisteredArtifact
  | ReportRegistered u64 ConsoleScope "u64 option" RegisteredReport
  | CacheLookupStarted u64 ConsoleScope string
  | CacheHit u64 ConsoleScope string u64
  | CacheMiss u64 ConsoleScope string CacheReason
  | CacheRestoreFinished u64 ConsoleScope string u64
  | CachePublishStarted u64 ConsoleScope string
  | CachePublished u64 ConsoleScope string
  | CacheErrorEvent u64 ConsoleScope "string option" CacheReason string

fun cache_scope :: "ExecutionEvent \<Rightarrow> ConsoleScope option" where
  "cache_scope (CacheLookupStarted _ scope _) = Some scope"
| "cache_scope (CacheHit _ scope _ _) = Some scope"
| "cache_scope (CacheMiss _ scope _ _) = Some scope"
| "cache_scope (CacheRestoreFinished _ scope _ _) = Some scope"
| "cache_scope (CachePublishStarted _ scope _) = Some scope"
| "cache_scope (CachePublished _ scope _) = Some scope"
| "cache_scope (CacheErrorEvent _ scope _ _ _) = Some scope"
| "cache_scope _ = None"

record ConsoleDiagnostic =
  diagnostic_run_id :: "u64 option"
  diagnostic_scope :: "ConsoleScope option"
  diagnostic_step_id :: "u64 option"
  diagnostic_level :: ConsoleLevel
  diagnostic_message :: string
  diagnostic_location :: "SourceLocation option"

datatype CliDocument =
    TaskListDocument "(string \<times> string option) list"
  | HelpDocument string
  | CompletionDocument string
  | FailureDocument string
  | SummaryDocument "(string \<times> nat) list" nat

datatype ConsoleRecord =
    ExecutionRecord ExecutionEvent
  | DiagnosticRecord ConsoleDiagnostic
  | DocumentRecord CliDocument

definition EVENT_SCHEMA_VERSION :: u16 where "EVENT_SCHEMA_VERSION = 4"

record ConsoleEntry =
  schema_version :: u16
  entry_sequence :: u64
  entry_timestamp :: nat
  entry_record :: ConsoleRecord

definition entry_new :: "nat \<Rightarrow> ConsoleRecord \<Rightarrow> ConsoleEntry" where
  "entry_new now r =
     \<lparr>schema_version = EVENT_SCHEMA_VERSION, entry_sequence = 0, entry_timestamp = now, entry_record = r\<rparr>"

definition with_record :: "ConsoleRecord \<Rightarrow> ConsoleEntry \<Rightarrow> ConsoleEntry" where
  "with_record r e = e\<lparr>entry_record := r\<rparr>"

lemma with_record_simps [simp]:
  "entry_record (with_record r e) = r" "entry_timestamp (with_record r e) = entry_timestamp e"
  "entry_sequence (with_record r e) = entry_sequence e"
  by (simp_all add: with_record_def)

lemma reason_as_str_inject: "reason_as_str a = reason_as_str b \<longleftrightarrow> a = b"
  by (cases a; cases b) simp_all

end
