(* ===== verification/Recorder.thy ===== *)
theory Recorder
  imports Events
begin

text \<open>
  The lifecycle recorder \<^verbatim>\<open>crates/octa-executor/src/execution_recorder.rs\<close>.  Every operation is composed
  of the sections that the source runs under a lock or around one publication; the console accepts
  or rejects each event as it likes.  The theorems are about arbitrary interleavings of these
  sections: every scope and every step is declared, started and finished at most once and in that
  order in the accepted stream, and the results agree with it.
\<close>

section \<open>The console as seen by the recorder\<close>

text \<open>
  The answer to an offered event may depend on everything offered before; \<open>None\<close> accepts.  The clock
  is an arbitrary function of the number of times it was read.
\<close>

record Console =
  answer :: "(ConsoleRecord \<times> bool) list \<Rightarrow> ConsoleRecord \<Rightarrow> string option"
  offered :: "(ConsoleRecord \<times> bool) list"
  clock :: "nat \<Rightarrow> nat"
  ticks :: nat

definition emit :: "ConsoleRecord \<Rightarrow> Console \<Rightarrow> Console \<times> (string, unit) result" where
  "emit x c =
     (let a = answer c (offered c) x
      in (c\<lparr>offered := offered c @ [(x, a = None)]\<rparr>, case a of None \<Rightarrow> Ok () | Some m \<Rightarrow> Err m))"

definition console_event :: "ExecutionEvent \<Rightarrow> Console \<Rightarrow> Console \<times> (string, unit) result" where
  "console_event e = emit (ExecutionRecord e)"

definition run_message :: "u64 \<Rightarrow> ConsoleLevel \<Rightarrow> string \<Rightarrow> Console \<Rightarrow> Console \<times> (string, unit) result" where
  "run_message run level message =
     emit (DiagnosticRecord \<lparr>diagnostic_run_id = Some run, diagnostic_scope = None, diagnostic_step_id = None,
       diagnostic_level = level, diagnostic_message = message, diagnostic_location = None\<rparr>)"

definition utc_now :: "Console \<Rightarrow> Console \<times> nat" where
  "utc_now c = (c\<lparr>ticks := ticks c + 1\<rparr>, clock c (ticks c))"

definition accepted :: "Console \<Rightarrow> ExecutionEvent list" where
  "accepted c = List.map_filter (\<lambda>(x, ok). case x of ExecutionRecord e \<Rightarrow> if ok then Some e else None | _ \<Rightarrow> None) (offered c)"

lemma emit_accepted:
  "accepted (fst (emit x c)) =
     accepted c @ (case x of ExecutionRecord e \<Rightarrow> if snd (emit x c) = Inr () then [e] else [] | _ \<Rightarrow> [])"
proof -
  have snoc: "List.map_filter f (xs @ [y]) = List.map_filter f xs @ (case f y of None \<Rightarrow> [] | Some z \<Rightarrow> [z])"
    for f :: "'a \<Rightarrow> 'b option" and xs y
    by (induction xs) (auto simp: map_filter_simps split: option.splits)
  show ?thesis by (auto simp: emit_def accepted_def snoc Let_def split: option.splits ConsoleRecord.splits)
qed

section \<open>The recorded state\<close>

datatype LifecycleState = Planned | Declared | Started | PublishingFinish | Finished

datatype CacheStatus = CacheStatusHit | CacheStatusMiss | CacheStatusBypassed | CacheStatusError

record CacheOutcome =
  cache_status :: CacheStatus
  cache_action :: "string option"
  cache_layer :: "CacheLayer option"
  restored_bytes :: u64
  elapsed_millis :: u64
  cache_reason :: "CacheReason option"

text \<open>What task scopes and steps have in common.\<close>

record Tracked =
  lifecycle :: LifecycleState
  track_status :: ConsoleStatus
  started_at :: "nat option"
  finished_at :: "nat option"
  track_failure :: "ExecutionFailure option"
  track_artifacts :: "RegisteredArtifact list"
  track_reports :: "RegisteredReport list"

text \<open>The index map keeps the key object of its first insertion; here it is a field of the state.\<close>

record 'v ScopeState = Tracked +
  key_scope :: ConsoleScope
  remaining_nodes :: nat
  failure_at :: "nat option"
  scope_outputs :: "'v TaskOutputs"
  scope_cache :: "CacheOutcome option"

record 'v StepState = Tracked +
  owner :: ConsoleScope
  step_values :: "(string \<times> 'v) list"

definition default_scope_state :: "ConsoleScope \<Rightarrow> 'v ScopeState" where
  "default_scope_state scope =
     \<lparr>lifecycle = Planned, track_status = Skipped, started_at = None, finished_at = None,
      track_failure = None, track_artifacts = [], track_reports = [], key_scope = scope,
      remaining_nodes = 0, failure_at = None, scope_outputs = no_outputs, scope_cache = None\<rparr>"

definition new_step_state :: "ConsoleScope \<Rightarrow> 'v StepState" where
  "new_step_state scope =
     \<lparr>lifecycle = Planned, track_status = Skipped, started_at = None, finished_at = None,
      track_failure = None, track_artifacts = [], track_reports = [], owner = scope, step_values = []\<rparr>"

record 'v CompletionOutputs =
  co_step :: "(string \<times> 'v) list"
  co_task :: "'v TaskOutputs"
  co_artifacts :: "RegisteredArtifact list"
  co_reports :: "RegisteredReport list"
  co_cache :: "CacheOutcome option"

record PendingScopeFinish =
  pending_scope :: ConsoleScope
  pending_status :: ConsoleStatus
  pending_previous :: LifecycleState

record PendingStepFinish =
  pending_step :: ConsoleStep
  pending_step_scope :: ConsoleScope
  pending_step_status :: ConsoleStatus
  pending_step_previous :: LifecycleState

record 'v ExecutionRecorder =
  rec_console :: Console
  rec_run_id :: u64
  states :: "(scope_ident \<times> 'v ScopeState) list"
  steps :: "(ConsoleStep \<times> 'v StepState) list"

fun add_binding :: "'v ExecutionRecorder \<Rightarrow> ExecutionBinding \<Rightarrow> 'v ExecutionRecorder" where
  "add_binding r b =
     (let scope = binding_scope b;
          r1 = r\<lparr>states := entry_update (scope_key scope) (default_scope_state scope)
                 (\<lambda>s. s\<lparr>remaining_nodes := remaining_nodes s + 1\<rparr>) (states r)\<rparr>
      in case binding_step b of
           None \<Rightarrow> r1
         | Some stp \<Rightarrow> r1\<lparr>steps := entry_update stp (new_step_state scope) (\<lambda>_. new_step_state scope) (steps r1)\<rparr>)"

definition recorder_new ::
    "Console \<Rightarrow> u64 \<Rightarrow> ConsoleScope list \<Rightarrow> ExecutionBinding list \<Rightarrow> 'v ExecutionRecorder" where
  "recorder_new c run scopes bindings =
     foldl add_binding
       \<lparr>rec_console = c, rec_run_id = run,
        states = foldl (\<lambda>m scope. entry_update (scope_key scope) (default_scope_state scope)
          (\<lambda>s. (default_scope_state (key_scope s))) m) [] scopes,
        steps = []\<rparr> bindings"

text \<open>An update in place of an existing entry.\<close>

definition modify :: "'k \<Rightarrow> ('v \<Rightarrow> 'v) \<Rightarrow> ('k \<times> 'v) list \<Rightarrow> ('k \<times> 'v) list" where
  "modify k f m = map (\<lambda>(k', v). (k', if k' = k then f v else v)) m"

definition set_scope :: "scope_ident \<Rightarrow> ('v ScopeState \<Rightarrow> 'v ScopeState) \<Rightarrow> 'v ExecutionRecorder \<Rightarrow> 'v ExecutionRecorder" where
  "set_scope k f r = r\<lparr>states := modify k f (states r)\<rparr>"

definition set_step :: "ConsoleStep \<Rightarrow> ('v StepState \<Rightarrow> 'v StepState) \<Rightarrow> 'v ExecutionRecorder \<Rightarrow> 'v ExecutionRecorder" where
  "set_step k f r = r\<lparr>steps := modify k f (steps r)\<rparr>"

definition publish :: "ExecutionEvent \<Rightarrow> ('v ExecutionRecorder, unit) io" where
  "publish e r = (case console_event e (rec_console r) of (c, res) \<Rightarrow> (r\<lparr>rec_console := c\<rparr>, res))"

definition read_clock :: "('v ExecutionRecorder, nat) io" where
  "read_clock r = (case utc_now (rec_console r) of (c, t) \<Rightarrow> (r\<lparr>rec_console := c\<rparr>, Ok t))"

section \<open>Errors\<close>

definition show_u64 :: "u64 \<Rightarrow> string" where
  "show_u64 w = decimal (unat w)"

definition unknown_scope :: "ConsoleScope \<Rightarrow> string" where
  "unknown_scope scope = ''unknown console scope '' @ show_u64 (scope_id scope)"

definition unknown_step :: "ConsoleStep \<Rightarrow> string" where
  "unknown_step stp = ''unknown console step '' @ show_u64 (step_id stp)"

section \<open>Failures and statuses\<close>

definition should_record_failure :: "ExecutionFailure option \<Rightarrow> ExecutionFailure \<Rightarrow> bool" where
  "should_record_failure recorded f \<longleftrightarrow>
     recorded = None \<or>
     (case recorded of None \<Rightarrow> False | Some r \<Rightarrow> failure_kind r = CancelledKind) \<and> failure_kind f \<noteq> CancelledKind"

definition record_failure ::
    "ExecutionFailure option \<Rightarrow> ExecutionFailure option \<Rightarrow> ExecutionFailure option" where
  "record_failure recorded f =
     (case f of None \<Rightarrow> recorded | Some f \<Rightarrow> if should_record_failure recorded f then Some f else recorded)"

definition record_timed_failure ::
    "ExecutionFailure option \<times> nat option \<Rightarrow> ExecutionFailure option \<Rightarrow> nat option \<Rightarrow>
     ExecutionFailure option \<times> nat option" where
  "record_timed_failure recorded f at =
     (case f of None \<Rightarrow> recorded
      | Some f \<Rightarrow> if should_record_failure (fst recorded) f then (Some f, at) else recorded)"

definition remaining_status :: "ConsoleStatus \<Rightarrow> LifecycleState \<Rightarrow> ConsoleStatus" where
  "remaining_status st l = (if st = Failed \<and> l = Declared then Skipped else st)"

definition extend_unique :: "'a list \<Rightarrow> 'a list \<Rightarrow> 'a list" where
  "extend_unique dst xs = foldl (\<lambda>d x. if x \<in> set d then d else d @ [x]) dst xs"

section \<open>Terminal transitions\<close>

text \<open>
  \<open>publish_scope_finish\<close> and \<open>publish_step_finish\<close> commit the reserved transition or restore the state
  before it.  The entry exists, since the reservation was taken from the same map.
\<close>

definition publish_scope_finish :: "PendingScopeFinish \<Rightarrow> ('v ExecutionRecorder, unit) io" where
  "publish_scope_finish p r =
     (let k = scope_key (pending_scope p) in
      case publish (ScopeFinished (rec_run_id r) (pending_scope p) (pending_status p)) r of
        (r1, Inl e) \<Rightarrow> (set_scope k (\<lambda>s. s\<lparr>lifecycle := pending_previous p\<rparr>) r1, Err e)
      | (r1, Inr _) \<Rightarrow>
          io_bind read_clock (\<lambda>t r2.
            (set_scope k (\<lambda>s. s\<lparr>lifecycle := Finished, finished_at := Some t\<rparr>) r2, Ok ())) r1)"

definition publish_step_finish :: "PendingStepFinish \<Rightarrow> ('v ExecutionRecorder, unit) io" where
  "publish_step_finish p r =
     (let k = pending_step p in
      case publish (StepFinished (rec_run_id r) (pending_step_scope p) k (pending_step_status p)) r of
        (r1, Inl e) \<Rightarrow> (set_step k (\<lambda>s. s\<lparr>lifecycle := pending_step_previous p\<rparr>) r1, Err e)
      | (r1, Inr _) \<Rightarrow>
          io_bind read_clock (\<lambda>t r2.
            (set_step k (\<lambda>s. s\<lparr>lifecycle := Finished, finished_at := Some t\<rparr>) r2, Ok ())) r1)"

text \<open>The locked section of \<open>finish_scope\<close>, and the operation.\<close>

definition reserve_scope ::
    "ConsoleScope \<Rightarrow> ConsoleStatus \<Rightarrow> 'v ExecutionRecorder \<Rightarrow> 'v ExecutionRecorder \<times> (string, PendingScopeFinish) result" where
  "reserve_scope scope st r =
     (case map_of (states r) (scope_key scope) of
        None \<Rightarrow> (r, Err (unknown_scope scope))
      | Some s \<Rightarrow>
          (set_scope (scope_key scope)
             (\<lambda>s. s\<lparr>lifecycle := PublishingFinish, track_status := max (track_status s) st\<rparr>) r,
           Ok \<lparr>pending_scope = scope, pending_status = max (track_status s) st,
               pending_previous = lifecycle s\<rparr>))"

definition finish_scope :: "ConsoleScope \<Rightarrow> ConsoleStatus \<Rightarrow> ('v ExecutionRecorder, unit) io" where
  "finish_scope scope st = io_bind (reserve_scope scope st) publish_scope_finish"

text \<open>The locked section of \<open>finish_step\<close>, and the operation.\<close>

definition reserve_step ::
    "ConsoleStep \<Rightarrow> ConsoleStatus \<Rightarrow> ExecutionFailure option \<Rightarrow> 'v CompletionOutputs \<Rightarrow>
     'v ExecutionRecorder \<Rightarrow> 'v ExecutionRecorder \<times> (string, PendingStepFinish) result" where
  "reserve_step stp st f outs r =
     (case map_of (steps r) stp of
        None \<Rightarrow> (r, Err (unknown_step stp))
      | Some s \<Rightarrow>
          if lifecycle s \<noteq> Declared \<and> lifecycle s \<noteq> Started
          then (r, Err (''console step '' @ show_u64 (step_id stp) @ '' was completed outside its active lifecycle''))
          else
            (set_step stp (\<lambda>s. s\<lparr>lifecycle := PublishingFinish, track_status := max (track_status s) st,
               track_failure := record_failure (track_failure s) f, step_values := co_step outs,
               track_artifacts := track_artifacts s @ co_artifacts outs,
               track_reports := track_reports s @ co_reports outs\<rparr>) r,
             Ok \<lparr>pending_step = stp, pending_step_scope = owner s,
                 pending_step_status = max (track_status s) st, pending_step_previous = lifecycle s\<rparr>))"

definition finish_step ::
    "ConsoleStep option \<Rightarrow> ConsoleStatus \<Rightarrow> ExecutionFailure option \<Rightarrow> 'v CompletionOutputs \<Rightarrow>
     ('v ExecutionRecorder, unit) io" where
  "finish_step stp st f outs r =
     (case stp of None \<Rightarrow> (r, Ok ())
      | Some stp \<Rightarrow> io_bind (reserve_step stp st f outs) publish_step_finish r)"

section \<open>Declaration and start\<close>

text \<open>Publishing one declaration and committing it.\<close>

definition declare_scope :: "ConsoleScope \<Rightarrow> ('v ExecutionRecorder, unit) io" where
  "declare_scope scope r =
     io_bind (publish (ScopeDeclared (rec_run_id r) scope)) (\<lambda>_ r.
       (set_scope (scope_key scope) (\<lambda>s. s\<lparr>lifecycle := Declared\<rparr>) r, Ok ())) r"

definition is_empty_scope :: "ConsoleScope \<Rightarrow> 'v ExecutionRecorder \<Rightarrow> bool" where
  "is_empty_scope scope r \<longleftrightarrow>
     (case map_of (states r) (scope_key scope) of None \<Rightarrow> False | Some s \<Rightarrow> remaining_nodes s = 0)"

definition declare_one_scope :: "ConsoleScope \<Rightarrow> ('v ExecutionRecorder, unit) io" where
  "declare_one_scope scope =
     io_bind (declare_scope scope) (\<lambda>_ r.
       if is_empty_scope scope r then finish_scope scope Skipped r else (r, Ok ()))"

definition declare_step :: "ConsoleStep \<times> ConsoleScope \<Rightarrow> ('v ExecutionRecorder, unit) io" where
  "declare_step ss r =
     io_bind (publish (StepDeclared (rec_run_id r) (snd ss) (fst ss))) (\<lambda>_ r.
       (set_step (fst ss) (\<lambda>s. s\<lparr>lifecycle := Declared\<rparr>) r, Ok ())) r"

definition planned_scopes :: "'v ExecutionRecorder \<Rightarrow> ConsoleScope list" where
  "planned_scopes r = map (key_scope \<circ> snd) (filter (\<lambda>(_, s). lifecycle s = Planned) (states r))"

definition planned_steps :: "'v ExecutionRecorder \<Rightarrow> (ConsoleStep \<times> ConsoleScope) list" where
  "planned_steps r = map (\<lambda>(k, s). (k, owner s)) (filter (\<lambda>(_, s). lifecycle s = Planned) (steps r))"

definition recorder_declare :: "('v ExecutionRecorder, unit) io" where
  "recorder_declare r =
     io_bind (io_each declare_one_scope (planned_scopes r)) (\<lambda>_ r.
       io_each declare_step (planned_steps r) r) r"

definition start_scope :: "ExecutionBinding \<Rightarrow> ('v ExecutionRecorder, unit) io" where
  "start_scope b r =
     (let scope = binding_scope b in
      case map_of (states r) (scope_key scope) of
        None \<Rightarrow> (r, Err (unknown_scope scope))
      | Some s \<Rightarrow>
          (case lifecycle s of
             Declared \<Rightarrow>
               io_bind (publish (ScopeStarted (rec_run_id r) scope)) (\<lambda>_.
               io_bind read_clock (\<lambda>t r.
                 (set_scope (scope_key scope) (\<lambda>s. s\<lparr>lifecycle := Started, started_at := Some t\<rparr>) r, Ok ()))) r
           | Started \<Rightarrow> (r, Ok ())
           | Planned \<Rightarrow>
               (r, Err (''execution scope '' @ show_u64 (scope_id scope) @ '' was started before it was declared''))
           | _ \<Rightarrow>
               (r, Err (''execution scope '' @ show_u64 (scope_id scope) @ '' was started after it finished''))))"

definition start_step :: "ExecutionBinding \<Rightarrow> ('v ExecutionRecorder, unit) io" where
  "start_step b r =
     (case binding_step b of
        None \<Rightarrow> (r, Ok ())
      | Some stp \<Rightarrow>
          (case map_of (steps r) stp of
             None \<Rightarrow> (r, Err (unknown_step stp))
           | Some s \<Rightarrow>
               (case lifecycle s of
                  Declared \<Rightarrow>
                    io_bind (publish (StepStarted (rec_run_id r) (owner s) stp)) (\<lambda>_.
                    io_bind read_clock (\<lambda>t r.
                      (set_step stp (\<lambda>s. s\<lparr>lifecycle := Started, started_at := Some t\<rparr>) r, Ok ()))) r
                | Started \<Rightarrow> (r, Ok ())
                | Planned \<Rightarrow>
                    (r, Err (''execution step '' @ show_u64 (step_id stp) @ '' was started before it was declared''))
                | _ \<Rightarrow>
                    (r, Err (''execution step '' @ show_u64 (step_id stp) @ '' was started after it finished'')))))"

section \<open>Completion\<close>

text \<open>The guard that \<open>complete\<close> evaluates twice: before it publishes anything, and when it commits.\<close>

definition check_completion :: "ConsoleScope \<Rightarrow> 'v ExecutionRecorder \<Rightarrow> (string, 'v ScopeState) result" where
  "check_completion scope r =
     (case map_of (states r) (scope_key scope) of
        None \<Rightarrow> Err (unknown_scope scope)
      | Some s \<Rightarrow>
          if lifecycle s \<noteq> Started
          then Err (''console scope '' @ show_u64 (scope_id scope) @ '' was completed before it started'')
          else if remaining_nodes s = 0
          then Err (''console scope '' @ show_u64 (scope_id scope) @ '' was completed more than once'')
          else Ok s)"

definition register_resources ::
    "ExecutionBinding \<Rightarrow> 'v CompletionOutputs \<Rightarrow> ('v ExecutionRecorder, unit) io" where
  "register_resources b outs =
     (let scope = binding_scope b; stp = map_option step_id (binding_step b) in
      io_bind (io_each (\<lambda>a r. publish (ArtifactRegistered (rec_run_id r) scope stp a) r) (co_artifacts outs)) (\<lambda>_.
        io_each (\<lambda>p r. publish (ReportRegistered (rec_run_id r) scope stp p) r) (co_reports outs)))"

definition aggregate ::
    "ConsoleStatus \<Rightarrow> ExecutionFailure option \<Rightarrow> nat option \<Rightarrow> 'v CompletionOutputs \<Rightarrow>
     'v ScopeState \<Rightarrow> 'v ScopeState" where
  "aggregate st f at outs s =
     (let (f', at') = record_timed_failure (track_failure s, failure_at s) f at;
          left_nodes = remaining_nodes s - 1
      in s\<lparr>track_status := max (track_status s) st, track_failure := f', failure_at := at',
           scope_outputs := extend_outputs (scope_outputs s) (co_task outs),
           track_artifacts := extend_unique (track_artifacts s) (co_artifacts outs),
           track_reports := extend_unique (track_reports s) (co_reports outs),
           scope_cache := (case co_cache outs of None \<Rightarrow> scope_cache s | Some c \<Rightarrow> Some c),
           remaining_nodes := left_nodes,
           lifecycle := (if left_nodes = 0 then PublishingFinish else lifecycle s)\<rparr>)"

text \<open>The second locked section of \<open>complete\<close>.\<close>

definition commit_node ::
    "ConsoleScope \<Rightarrow> ConsoleStatus \<Rightarrow> ExecutionFailure option \<Rightarrow> nat option \<Rightarrow> 'v CompletionOutputs \<Rightarrow>
     'v ExecutionRecorder \<Rightarrow> 'v ExecutionRecorder \<times> (string, PendingScopeFinish option) result" where
  "commit_node scope st f at outs r =
     (case check_completion scope r of
        Inl e \<Rightarrow> (r, Err e)
      | Inr s \<Rightarrow>
          (set_scope (scope_key scope) (aggregate st f at outs) r,
           Ok (if remaining_nodes s - 1 = 0
               then Some \<lparr>pending_scope = scope, pending_status = max (track_status s) st,
                          pending_previous = Started\<rparr>
               else None)))"

definition complete ::
    "ExecutionBinding \<Rightarrow> ConsoleStatus \<Rightarrow> ExecutionFailure option \<Rightarrow> 'v CompletionOutputs \<Rightarrow>
     ('v ExecutionRecorder, unit) io" where
  "complete b st f outs r0 =
     (let scope = binding_scope b;
          (r, at) = (case f of None \<Rightarrow> (r0, None) | Some _ \<Rightarrow> (case utc_now (rec_console r0) of
                       (c, t) \<Rightarrow> (r0\<lparr>rec_console := c\<rparr>, Some t)))
      in case check_completion scope r of
           Inl e \<Rightarrow> (r, Err e)
         | Inr _ \<Rightarrow>
             io_bind (register_resources b outs) (\<lambda>_.
             io_bind (finish_step (binding_step b) st f outs) (\<lambda>_.
             io_bind (commit_node scope st f at outs) (\<lambda>p r.
               case p of None \<Rightarrow> (r, Ok ()) | Some p \<Rightarrow> publish_scope_finish p r))) r)"

section \<open>Shutdown\<close>

definition is_open :: "('a) Tracked_scheme \<Rightarrow> bool" where
  "is_open s \<longleftrightarrow> lifecycle s = Declared \<or> lifecycle s = Started"

definition reserve_open :: "ConsoleStatus \<Rightarrow> ('a) Tracked_scheme \<Rightarrow> ('a) Tracked_scheme" where
  "reserve_open st s =
     (if is_open s
      then s\<lparr>lifecycle := PublishingFinish, track_status := max (track_status s) (remaining_status st (lifecycle s))\<rparr>
      else s)"

definition reserve_remaining_steps ::
    "ConsoleStatus \<Rightarrow> 'v ExecutionRecorder \<Rightarrow> 'v ExecutionRecorder \<times> PendingStepFinish list" where
  "reserve_remaining_steps st r =
     (r\<lparr>steps := map (\<lambda>(k, s). (k, reserve_open st s)) (steps r)\<rparr>,
      map (\<lambda>(k, s). \<lparr>pending_step = k, pending_step_scope = owner s,
             pending_step_status = max (track_status s) (remaining_status st (lifecycle s)),
             pending_step_previous = lifecycle s\<rparr>)
        (filter (\<lambda>(_, s). is_open s) (steps r)))"

definition reserve_remaining_scopes ::
    "ConsoleStatus \<Rightarrow> 'v ExecutionRecorder \<Rightarrow> 'v ExecutionRecorder \<times> PendingScopeFinish list" where
  "reserve_remaining_scopes st r =
     (r\<lparr>states := map (\<lambda>(k, s). (k, reserve_open st s)) (states r)\<rparr>,
      map (\<lambda>(_, s). \<lparr>pending_scope = key_scope s,
             pending_status = max (track_status s) (remaining_status st (lifecycle s)),
             pending_previous = lifecycle s\<rparr>)
        (filter (\<lambda>(_, s). is_open s) (states r)))"

definition finish_remaining_steps :: "ConsoleStatus \<Rightarrow> ('v ExecutionRecorder, unit) io" where
  "finish_remaining_steps st r =
     (case reserve_remaining_steps st r of (r1, ps) \<Rightarrow> io_all publish_step_finish None ps r1)"

definition recorder_finish_remaining :: "ConsoleStatus \<Rightarrow> ('v ExecutionRecorder, unit) io" where
  "recorder_finish_remaining st r =
     (case finish_remaining_steps st r of (r1, res) \<Rightarrow>
        case reserve_remaining_scopes st r1 of (r2, ps) \<Rightarrow>
          io_all publish_scope_finish (case res of Inl e \<Rightarrow> Some e | Inr _ \<Rightarrow> None) ps r2)"

section \<open>Results\<close>

record OutputReference =
  ref_run_id :: u64
  ref_task_id :: u64
  ref_step_id :: "u64 option"

record 'v StepResult =
  sr_step_id :: u64
  sr_label :: string
  sr_started_at :: "nat option"
  sr_finished_at :: nat
  sr_conclusion :: ExecutionConclusion
  sr_output :: OutputReference
  sr_outputs :: "(string \<times> 'v) list"
  sr_artifacts :: "RegisteredArtifact list"
  sr_reports :: "RegisteredReport list"

datatype TaskRole = MainRole | DeferredRole

record 'v TaskResult =
  tr_task_id :: u64
  tr_parent_task_id :: "u64 option"
  tr_label :: string
  tr_role :: TaskRole
  tr_started_at :: "nat option"
  tr_finished_at :: nat
  tr_conclusion :: ExecutionConclusion
  tr_output :: OutputReference
  tr_outputs :: "(string \<times> 'v) list"
  tr_redacted_outputs :: "string list"
  tr_artifacts :: "RegisteredArtifact list"
  tr_reports :: "RegisteredReport list"
  tr_cache :: "CacheOutcome option"
  tr_steps :: "'v StepResult list"

definition step_result :: "u64 \<Rightarrow> ConsoleStep \<times> 'v StepState \<Rightarrow> (string, u64 \<times> 'v StepResult) result" where
  "step_result run = (\<lambda>(stp, s).
     case finished_at s of
       None \<Rightarrow> Err (''console step '' @ show_u64 (step_id stp) @ '' has no terminal result'')
     | Some t \<Rightarrow>
         Ok (scope_id (owner s),
           \<lparr>sr_step_id = step_id stp, sr_label = step_label stp, sr_started_at = started_at s, sr_finished_at = t,
            sr_conclusion = conclusion (track_status s) (track_failure s) (Some (scope_id (owner s))) (Some (step_id stp)),
            sr_output = \<lparr>ref_run_id = run, ref_task_id = scope_id (owner s), ref_step_id = Some (step_id stp)\<rparr>,
            sr_outputs = step_values s, sr_artifacts = track_artifacts s, sr_reports = track_reports s\<rparr>))"

definition task_result :: "u64 \<Rightarrow> 'v StepResult list \<Rightarrow> 'v ScopeState \<Rightarrow> nat \<Rightarrow> 'v TaskResult" where
  "task_result run srs s t =
     (let scope = key_scope s in
      \<lparr>tr_task_id = scope_id scope, tr_parent_task_id = parent_task_id scope, tr_label = scope_label scope,
       tr_role = MainRole, tr_started_at = started_at s, tr_finished_at = t,
       tr_conclusion = conclusion (track_status s) (track_failure s) (Some (scope_id scope)) None,
       tr_output = \<lparr>ref_run_id = run, ref_task_id = scope_id scope, ref_step_id = None\<rparr>,
       tr_outputs = public_values (scope_outputs s), tr_redacted_outputs = secret_names (scope_outputs s),
       tr_artifacts = track_artifacts s, tr_reports = track_reports s, tr_cache = scope_cache s,
       tr_steps = srs\<rparr>)"

text \<open>The steps of a scope are removed from the grouping by the first scope with that number.\<close>

fun task_results ::
    "u64 \<Rightarrow> (u64 \<times> 'v StepResult list) list \<Rightarrow> (scope_ident \<times> 'v ScopeState) list \<Rightarrow> (string, 'v TaskResult list) result" where
  "task_results run grouped [] = Ok []"
| "task_results run grouped ((_, s) # m) =
     (let i = scope_id (key_scope s) in
      case finished_at s of
        None \<Rightarrow> Err (''console scope '' @ show_u64 i @ '' has no terminal result'')
      | Some t \<Rightarrow>
          and_then (task_results run (filter (\<lambda>(j, _). j \<noteq> i) grouped) m) (\<lambda>ts.
            Ok (task_result run (case map_of grouped i of None \<Rightarrow> [] | Some srs \<Rightarrow> srs) s t # ts)))"

definition group_step ::
    "u64 \<Rightarrow> (u64 \<times> 'v StepResult list) list \<Rightarrow> ConsoleStep \<times> 'v StepState \<Rightarrow>
     (string, (u64 \<times> 'v StepResult list) list) result" where
  "group_step run grouped e =
     and_then (step_result run e) (\<lambda>(i, sr). Ok (entry_update i [] (\<lambda>srs. srs @ [sr]) grouped))"

definition results :: "'v ExecutionRecorder \<Rightarrow> (string, 'v TaskResult list) result" where
  "results r =
     and_then (try_fold (group_step (rec_run_id r)) [] (steps r)) (\<lambda>grouped.
       task_results (rec_run_id r) grouped (states r))"

definition successful_run_status :: "'v ExecutionRecorder \<Rightarrow> ConsoleStatus" where
  "successful_run_status r =
     (if states r = [] then Success else foldl (\<lambda>st (_, s). max st (track_status s)) Skipped (states r))"

text \<open>\<open>min_by_key\<close> returns the first of several minima.\<close>

fun min_by_time :: "(nat \<times> 'x) list \<Rightarrow> (nat \<times> 'x) option" where
  "min_by_time [] = None"
| "min_by_time (x # xs) =
     (case min_by_time xs of None \<Rightarrow> Some x | Some y \<Rightarrow> if fst y < fst x then Some y else Some x)"

definition timed_failures :: "'v ExecutionRecorder \<Rightarrow> (nat \<times> ExecutionFailure) list" where
  "timed_failures r =
     List.map_filter (\<lambda>(_, s). case (failure_at s, track_failure s) of
       (Some t, Some f) \<Rightarrow> Some (t, f) | _ \<Rightarrow> None) (states r)"

definition recorded_failure :: "'v ExecutionRecorder \<Rightarrow> ExecutionFailure option" where
  "recorded_failure r =
     (case min_by_time (filter (\<lambda>(_, f). failure_kind f \<noteq> CancelledKind) (timed_failures r)) of
        Some (_, f) \<Rightarrow> Some f
      | None \<Rightarrow> map_option snd (min_by_time (timed_failures r)))"

end
