(* ===== verification/Recorder_Trace.thy ===== *)
theory Recorder_Trace
  imports Recorder
begin

text \<open>
  The lifecycle recorder under arbitrary interleavings of its sections, and what the accepted
  events, the recorded state and the results have to do with each other.
\<close>

section \<open>The lifecycle of one identity in the accepted stream\<close>

datatype mark = MDeclared | MStarted | MFinished ConsoleStatus

fun scope_mark :: "ExecutionEvent \<Rightarrow> (scope_ident \<times> mark) option" where
  "scope_mark (ScopeDeclared _ scope) = Some (scope_key scope, MDeclared)"
| "scope_mark (ScopeStarted _ scope) = Some (scope_key scope, MStarted)"
| "scope_mark (ScopeFinished _ scope st) = Some (scope_key scope, MFinished st)"
| "scope_mark _ = None"

fun step_mark :: "ExecutionEvent \<Rightarrow> (ConsoleStep \<times> mark) option" where
  "step_mark (StepDeclared _ _ stp) = Some (stp, MDeclared)"
| "step_mark (StepStarted _ _ stp) = Some (stp, MStarted)"
| "step_mark (StepFinished _ _ stp st) = Some (stp, MFinished st)"
| "step_mark _ = None"

definition marks :: "(ExecutionEvent \<Rightarrow> ('k \<times> mark) option) \<Rightarrow> ExecutionEvent list \<Rightarrow> 'k \<Rightarrow> mark list" where
  "marks f log k = map snd (filter (\<lambda>x. fst x = k) (List.map_filter f log))"

lemma marks_Nil [simp]: "marks f [] = (\<lambda>_. [])"
  by (simp add: marks_def fun_eq_iff map_filter_simps)

lemma marks_snoc:
  "marks f (log @ [e]) =
     (case f e of None \<Rightarrow> marks f log | Some (k, m) \<Rightarrow> (marks f log)(k := marks f log k @ [m]))"
  by (auto simp: marks_def map_filter_snoc fun_eq_iff split: option.splits)

lemma marks_snoc_simps [simp]:
  "f e = None \<Longrightarrow> marks f (log @ [e]) = marks f log"
  "f e = Some (k, m) \<Longrightarrow> marks f (log @ [e]) = (marks f log)(k := marks f log k @ [m])"
  by (simp_all add: marks_snoc)

fun base_marks :: "LifecycleState \<Rightarrow> mark list" where
  "base_marks Declared = [MDeclared]"
| "base_marks Started = [MDeclared, MStarted]"
| "base_marks _ = []"

text \<open>
  How the state of an identity, its accepted events and a terminal event in flight (status and
  lifecycle to restore) agree.
\<close>

definition tracked_ok :: "mark list \<Rightarrow> (ConsoleStatus \<times> LifecycleState) option \<Rightarrow> 'a Tracked_scheme \<Rightarrow> bool" where
  "tracked_ok ms p s \<longleftrightarrow>
     (finished_at s \<noteq> None \<longleftrightarrow> lifecycle s = Finished) \<and> (started_at s \<noteq> None \<longleftrightarrow> MStarted \<in> set ms) \<and>
     (case lifecycle s of
        PublishingFinish \<Rightarrow>
          \<exists>prev. p = Some (track_status s, prev) \<and> (prev = Declared \<or> prev = Started) \<and> ms = base_marks prev
      | Finished \<Rightarrow>
          p = None \<and> (\<exists>prev. (prev = Declared \<or> prev = Started) \<and> ms = base_marks prev @ [MFinished (track_status s)])
      | l \<Rightarrow> p = None \<and> ms = base_marks l)"

definition table_ok ::
    "('k \<Rightarrow> mark list) \<Rightarrow> ('k \<Rightarrow> (ConsoleStatus \<times> LifecycleState) option) \<Rightarrow> ('k \<times> 'a Tracked_scheme) list \<Rightarrow> bool" where
  "table_ok ms p m \<longleftrightarrow>
     distinct (map fst m) \<and>
     (\<forall>k. case map_of m k of None \<Rightarrow> ms k = [] \<and> p k = None | Some s \<Rightarrow> tracked_ok (ms k) (p k) s)"

lemma map_of_modify [simp]: "map_of (modify k f m) x = (if x = k then map_option f (map_of m x) else map_of m x)"
  by (induction m) (auto simp: modify_def)

lemma modify_keys [simp]: "map fst (modify k f m) = map fst m"
  by (induction m) (auto simp: modify_def)

lemma table_okI:
  "distinct (map fst m) \<Longrightarrow> (\<And>k. map_of m k = None \<Longrightarrow> ms k = [] \<and> p k = None) \<Longrightarrow>
     (\<And>k s. map_of m k = Some s \<Longrightarrow> tracked_ok (ms k) (p k) s) \<Longrightarrow> table_ok ms p m"
  unfolding table_ok_def by (simp split: option.split)

lemma table_okD:
  "table_ok ms p m \<Longrightarrow> map_of m k = Some s \<Longrightarrow> tracked_ok (ms k) (p k) s"
  unfolding table_ok_def by (metis option.simps(5))

lemma table_ok_None: "table_ok ms p m \<Longrightarrow> map_of m k = None \<Longrightarrow> ms k = [] \<and> p k = None"
  unfolding table_ok_def by (metis option.simps(4))

lemma table_ok_modify:
  assumes "table_ok ms p m" "map_of m k = Some s" "tracked_ok ms' p' (f s)"
  shows "table_ok (ms(k := ms')) (p(k := p')) (modify k f m)"
proof (rule table_okI)
  show "distinct (map fst (modify k f m))" using assms(1) by (simp add: table_ok_def)
  show "(ms(k := ms')) x = [] \<and> (p(k := p')) x = None" if "map_of (modify k f m) x = None" for x
    using that assms(2) table_ok_None[OF assms(1)] by (cases "x = k") auto
  show "tracked_ok ((ms(k := ms')) x) ((p(k := p')) x) s'" if "map_of (modify k f m) x = Some s'" for x s'
    using that assms(2,3) table_okD[OF assms(1)] by (cases "x = k") auto
qed

text \<open>A change of the other fields, with nothing published.\<close>

lemma table_ok_quiet:
  assumes "table_ok ms p m" "map_of m k = Some s" "tracked_ok (ms k) (p k) (f s)"
  shows "table_ok ms p (modify k f m)"
  using table_ok_modify[where f = f, OF assms] by simp

lemma tracked_ok_simps [simp]:
  "lifecycle s = Planned \<Longrightarrow> tracked_ok ms p s \<longleftrightarrow> p = None \<and> ms = [] \<and> finished_at s = None \<and> started_at s = None"
  "lifecycle s = Declared \<Longrightarrow> tracked_ok ms p s \<longleftrightarrow>
     p = None \<and> ms = [MDeclared] \<and> finished_at s = None \<and> started_at s = None"
  "lifecycle s = Started \<Longrightarrow> tracked_ok ms p s \<longleftrightarrow>
     p = None \<and> ms = [MDeclared, MStarted] \<and> finished_at s = None \<and> started_at s \<noteq> None"
  by (auto simp: tracked_ok_def)

lemma tracked_ok_reserve:
  assumes "tracked_ok ms p s" "is_open s"
    and "lifecycle s' = PublishingFinish" "finished_at s' = finished_at s" "started_at s' = started_at s"
  shows "tracked_ok ms (Some (track_status s', lifecycle s)) s'"
  using assms by (auto simp: tracked_ok_def is_open_def)

lemma tracked_ok_flight:
  assumes "tracked_ok ms (Some (st, prev)) s"
  shows "lifecycle s = PublishingFinish \<and> track_status s = st \<and> ms = base_marks prev \<and>
    (prev = Declared \<or> prev = Started) \<and> finished_at s = None"
  using assms by (auto simp: tracked_ok_def split: LifecycleState.splits)

lemma tracked_ok_finish:
  assumes "tracked_ok ms (Some (st, prev)) s"
    and "lifecycle s' = Finished" "finished_at s' = Some t" "started_at s' = started_at s" "track_status s' = track_status s"
  shows "tracked_ok (ms @ [MFinished st]) None s'"
  using tracked_ok_flight[OF assms(1)] assms by (auto simp: tracked_ok_def)

lemma tracked_ok_rollback:
  assumes "tracked_ok ms (Some (st, prev)) s"
    and "lifecycle s' = prev" "finished_at s' = finished_at s" "started_at s' = started_at s"
  shows "tracked_ok ms None s'"
  using tracked_ok_flight[OF assms(1)] assms by (auto simp: tracked_ok_def)

section \<open>Interleavings\<close>

type_synonym 'v conf =
  "'v ExecutionRecorder \<times> (scope_ident \<rightharpoonup> PendingScopeFinish) \<times> (ConsoleStep \<rightharpoonup> PendingStepFinish)"

text \<open>
  A configuration is the recorder with the terminal events that are reserved but not yet published.
  A step is one section of an operation: a declaration with its commit, a start, a locked section,
  or the publication of a reserved terminal event.  Other events of the run (output, artifacts,
  cache activity) and readings of the clock may come in between.  Steps are declared only after
  every scope has been.
\<close>

inductive section_step :: "'v conf \<Rightarrow> 'v conf \<Rightarrow> bool" where
  declare_scope: "map_of (states r) k = Some s \<Longrightarrow> lifecycle s = Planned \<Longrightarrow>
    section_step (r, sf, tf) (fst (declare_scope (key_scope s) r), sf, tf)"
| close_empty: "map_of (states r) (scope_key scope) = Some s \<Longrightarrow> lifecycle s = Declared \<Longrightarrow>
    reserve_scope scope st r = (r', Inr p) \<Longrightarrow> section_step (r, sf, tf) (r', sf(scope_key scope \<mapsto> p), tf)"
| declare_step: "map_of (steps r) k = Some s \<Longrightarrow> lifecycle s = Planned \<Longrightarrow> planned_scopes r = [] \<Longrightarrow>
    section_step (r, sf, tf) (fst (declare_step (k, owner s) r), sf, tf)"
| start_scope: "section_step (r, sf, tf) (fst (start_scope b r), sf, tf)"
| start_step: "section_step (r, sf, tf) (fst (start_step b r), sf, tf)"
| other: "scope_mark e = None \<Longrightarrow> step_mark e = None \<Longrightarrow> section_step (r, sf, tf) (fst (publish e r), sf, tf)"
| tick: "section_step (r, sf, tf) (fst (read_clock r), sf, tf)"
| reserve_step: "reserve_step k st f outs r = (r', Inr p) \<Longrightarrow> section_step (r, sf, tf) (r', sf, tf(k \<mapsto> p))"
| publish_step: "tf k = Some p \<Longrightarrow> section_step (r, sf, tf) (fst (publish_step_finish p r), sf, tf(k := None))"
| commit_node: "commit_node scope st f at outs r = (r', Inr None) \<Longrightarrow> section_step (r, sf, tf) (r', sf, tf)"
| commit_last: "commit_node scope st f at outs r = (r', Inr (Some p)) \<Longrightarrow>
    section_step (r, sf, tf) (r', sf(scope_key scope \<mapsto> p), tf)"
| publish_scope: "sf k = Some p \<Longrightarrow> section_step (r, sf, tf) (fst (publish_scope_finish p r), sf(k := None), tf)"
| reserve_steps: "reserve_remaining_steps st r = (r', ps) \<Longrightarrow>
    section_step (r, sf, tf) (r', sf, tf ++ map_of (map (\<lambda>p. (pending_step p, p)) ps))"
| reserve_scopes: "reserve_remaining_scopes st r = (r', ps) \<Longrightarrow>
    section_step (r, sf, tf) (r', sf ++ map_of (map (\<lambda>p. (scope_key (pending_scope p), p)) ps), tf)"

inductive reachable :: "'v ExecutionRecorder \<Rightarrow> 'v conf \<Rightarrow> bool" for r0 where
  start: "reachable r0 (r0, Map.empty, Map.empty)"
| step: "reachable r0 x \<Longrightarrow> section_step x y \<Longrightarrow> reachable r0 y"

definition scope_flight :: "(scope_ident \<rightharpoonup> PendingScopeFinish) \<Rightarrow> scope_ident \<Rightarrow> (ConsoleStatus \<times> LifecycleState) option" where
  "scope_flight sf k = map_option (\<lambda>p. (pending_status p, pending_previous p)) (sf k)"

definition step_flight :: "(ConsoleStep \<rightharpoonup> PendingStepFinish) \<Rightarrow> ConsoleStep \<Rightarrow> (ConsoleStatus \<times> LifecycleState) option" where
  "step_flight tf k = map_option (\<lambda>p. (pending_step_status p, pending_step_previous p)) (tf k)"

definition scopes_ok :: "'v ExecutionRecorder \<Rightarrow> (scope_ident \<rightharpoonup> PendingScopeFinish) \<Rightarrow> bool" where
  "scopes_ok r sf \<longleftrightarrow>
     table_ok (marks scope_mark (accepted (rec_console r))) (scope_flight sf) (states r) \<and>
     (\<forall>k p. sf k = Some p \<longrightarrow> scope_key (pending_scope p) = k) \<and>
     (\<forall>k s. map_of (states r) k = Some s \<longrightarrow> scope_key (key_scope s) = k)"

definition steps_ok :: "'v ExecutionRecorder \<Rightarrow> (ConsoleStep \<rightharpoonup> PendingStepFinish) \<Rightarrow> bool" where
  "steps_ok r tf \<longleftrightarrow>
     table_ok (marks step_mark (accepted (rec_console r))) (step_flight tf) (steps r) \<and>
     (\<forall>k p. tf k = Some p \<longrightarrow> pending_step p = k)"

abbreviation log :: "'v ExecutionRecorder \<Rightarrow> ExecutionEvent list" where
  "log r \<equiv> accepted (rec_console r)"

lemma publish_cases:
  obtains (ok) c where "publish e r = (r\<lparr>rec_console := c\<rparr>, Inr ())" "accepted c = log r @ [e]"
  | (rejected) c m where "publish e r = (r\<lparr>rec_console := c\<rparr>, Inl m)" "accepted c = log r"
proof (cases "snd (emit (ExecutionRecord e) (rec_console r))")
  case (Inl m)
  then show thesis using rejected[of "fst (emit (ExecutionRecord e) (rec_console r))" m]
    emit_accepted[of "ExecutionRecord e" "rec_console r"]
    by (simp add: publish_def console_event_def split_beta)
next
  case (Inr u)
  then show thesis using ok[of "fst (emit (ExecutionRecord e) (rec_console r))"]
    emit_accepted[of "ExecutionRecord e" "rec_console r"]
    by (simp add: publish_def console_event_def split_beta)
qed

lemma read_clock_cases:
  obtains c t where "read_clock r = (r\<lparr>rec_console := c\<rparr>, Inr t)" "accepted c = log r"
  by (simp add: read_clock_def utc_now_def accepted_def)

text \<open>The frame of a section: one table stays, and the log grows by an event of the other kind.\<close>

definition grows :: "(ExecutionEvent \<Rightarrow> ('k \<times> mark) option) \<Rightarrow> ExecutionEvent list \<Rightarrow> ExecutionEvent list \<Rightarrow> bool" where
  "grows f l l' \<longleftrightarrow> l' = l \<or> (\<exists>e. f e = None \<and> l' = l @ [e])"

lemma grows_refl [simp]: "grows f l l"
  by (simp add: grows_def)

lemma grows_snoc [simp]: "grows f l (l @ [e]) \<longleftrightarrow> f e = None"
  by (auto simp: grows_def)

lemma grows_marks: "grows f l l' \<Longrightarrow> marks f l' = marks f l"
  by (auto simp: grows_def)

lemma scopes_frame:
  "scopes_ok r sf \<Longrightarrow> states r' = states r \<Longrightarrow> grows scope_mark (log r) (log r') \<Longrightarrow> scopes_ok r' sf"
  unfolding scopes_ok_def by (simp add: grows_marks)

lemma steps_frame:
  "steps_ok r tf \<Longrightarrow> steps r' = steps r \<Longrightarrow> grows step_mark (log r) (log r') \<Longrightarrow> steps_ok r' tf"
  unfolding steps_ok_def by (simp add: grows_marks)

lemma scope_flight_upd [simp]:
  "scope_flight (sf(k \<mapsto> p)) = (scope_flight sf)(k \<mapsto> (pending_status p, pending_previous p))"
  "scope_flight (sf(k := None)) = (scope_flight sf)(k := None)"
  by (simp_all add: scope_flight_def fun_eq_iff)

lemma step_flight_upd [simp]:
  "step_flight (tf(k \<mapsto> p)) = (step_flight tf)(k \<mapsto> (pending_step_status p, pending_step_previous p))"
  "step_flight (tf(k := None)) = (step_flight tf)(k := None)"
  by (simp_all add: step_flight_def fun_eq_iff)

lemma scopes_change:
  assumes inv: "scopes_ok r sf" and s: "map_of (states r) k = Some s"
    and r': "states r' = modify k f (states r)"
    and l: "marks scope_mark (log r') = (marks scope_mark (log r))(k := ms)"
    and p: "scope_flight sf' = (scope_flight sf)(k := p)" "\<And>k p. sf' k = Some p \<Longrightarrow> scope_key (pending_scope p) = k"
    and ok: "tracked_ok (marks scope_mark (log r) k) (scope_flight sf k) s \<Longrightarrow> tracked_ok ms p (f s)"
      "key_scope (f s) = key_scope s"
  shows "scopes_ok r' sf'"
proof -
  have t: "table_ok (marks scope_mark (log r)) (scope_flight sf) (states r)"
    and key: "\<forall>k s. map_of (states r) k = Some s \<longrightarrow> scope_key (key_scope s) = k"
    using inv unfolding scopes_ok_def by blast+
  have "table_ok (marks scope_mark (log r')) (scope_flight sf') (states r')"
    unfolding l p(1) r' using ok(1)[OF table_okD[OF t s]] by (rule table_ok_modify[OF t s])
  moreover have "\<forall>x s. map_of (states r') x = Some s \<longrightarrow> scope_key (key_scope s) = x"
    using key s ok(2) unfolding r' map_of_modify by (metis option.inject option.simps(9))
  ultimately show ?thesis using p(2) unfolding scopes_ok_def by blast
qed

lemma steps_change:
  assumes inv: "steps_ok r tf" and s: "map_of (steps r) k = Some s"
    and r': "steps r' = modify k f (steps r)"
    and l: "marks step_mark (log r') = (marks step_mark (log r))(k := ms)"
    and p: "step_flight tf' = (step_flight tf)(k := p)" "\<And>k p. tf' k = Some p \<Longrightarrow> pending_step p = k"
    and ok: "tracked_ok (marks step_mark (log r) k) (step_flight tf k) s \<Longrightarrow> tracked_ok ms p (f s)"
  shows "steps_ok r' tf'"
proof -
  have t: "table_ok (marks step_mark (log r)) (step_flight tf) (steps r)"
    using inv by (simp add: steps_ok_def)
  have "table_ok (marks step_mark (log r')) (step_flight tf') (steps r')"
    unfolding l p(1) r' using ok[OF table_okD[OF t s]] by (rule table_ok_modify[OF t s])
  then show ?thesis using p(2) by (simp add: steps_ok_def)
qed

lemma scopes_okD:
  assumes "scopes_ok r sf"
  shows "sf k = Some p \<Longrightarrow> scope_key (pending_scope p) = k"
    and "map_of (states r) k = Some s \<Longrightarrow> scope_key (key_scope s) = k"
    and "map_of (states r) k = Some s \<Longrightarrow> tracked_ok (marks scope_mark (log r) k) (scope_flight sf k) s"
    and "map_of (states r) k = None \<Longrightarrow> marks scope_mark (log r) k = [] \<and> scope_flight sf k = None"
    and "distinct (map fst (states r))"
proof -
  have t: "table_ok (marks scope_mark (log r)) (scope_flight sf) (states r)"
    using assms unfolding scopes_ok_def by blast
  show "map_of (states r) k = Some s \<Longrightarrow> tracked_ok (marks scope_mark (log r) k) (scope_flight sf k) s"
    by (rule table_okD[OF t])
  show "map_of (states r) k = None \<Longrightarrow> marks scope_mark (log r) k = [] \<and> scope_flight sf k = None"
    by (rule table_ok_None[OF t])
  show "distinct (map fst (states r))" using t unfolding table_ok_def by blast
qed (use assms in \<open>unfold scopes_ok_def, blast+\<close>)

lemma steps_okD:
  assumes "steps_ok r tf"
  shows "tf k = Some p \<Longrightarrow> pending_step p = k"
    and "map_of (steps r) k = Some s \<Longrightarrow> tracked_ok (marks step_mark (log r) k) (step_flight tf k) s"
    and "map_of (steps r) k = None \<Longrightarrow> marks step_mark (log r) k = [] \<and> step_flight tf k = None"
    and "distinct (map fst (steps r))"
proof -
  have t: "table_ok (marks step_mark (log r)) (step_flight tf) (steps r)"
    using assms unfolding steps_ok_def by blast
  show "map_of (steps r) k = Some s \<Longrightarrow> tracked_ok (marks step_mark (log r) k) (step_flight tf k) s"
    by (rule table_okD[OF t])
  show "map_of (steps r) k = None \<Longrightarrow> marks step_mark (log r) k = [] \<and> step_flight tf k = None"
    by (rule table_ok_None[OF t])
  show "distinct (map fst (steps r))" using t unfolding table_ok_def by blast
qed (use assms in \<open>unfold steps_ok_def, blast\<close>)

section \<open>Every section keeps the agreement\<close>

lemma declare_scope_inv:
  assumes inv: "scopes_ok r sf" "steps_ok r tf" and s: "map_of (states r) k = Some s" "lifecycle s = Planned"
  shows "scopes_ok (fst (declare_scope (key_scope s) r)) sf \<and> steps_ok (fst (declare_scope (key_scope s) r)) tf"
proof (cases rule: publish_cases[of "ScopeDeclared (rec_run_id r) (key_scope s)" r])
  case (ok c)
  let ?r = "fst (declare_scope (key_scope s) r)"
  have k: "scope_key (key_scope s) = k" using scopes_okD(2)[OF inv(1) s(1)] .
  have r: "?r = set_scope k (\<lambda>s. s\<lparr>lifecycle := Declared\<rparr>) (r\<lparr>rec_console := c\<rparr>)"
    using ok k by (simp add: declare_scope_def io_bind_def)
  have "scopes_ok ?r sf"
    by (rule scopes_change[OF inv(1) s(1), where f = "\<lambda>s. s\<lparr>lifecycle := Declared\<rparr>" and p = None and ms = "[MDeclared]"])
       (use s k ok scopes_okD(1)[OF inv(1)] scopes_okD(3)[OF inv(1) s(1)] in \<open>auto simp: r set_scope_def fun_upd_idem\<close>)
  then show ?thesis using steps_frame[OF inv(2)] ok by (simp add: r set_scope_def)
next
  case (rejected c m)
  then show ?thesis using scopes_frame[OF inv(1)] steps_frame[OF inv(2)]
    by (simp add: declare_scope_def io_bind_def)
qed

lemma declare_step_inv:
  assumes inv: "scopes_ok r sf" "steps_ok r tf" and s: "map_of (steps r) k = Some s" "lifecycle s = Planned"
  shows "scopes_ok (fst (declare_step (k, owner s) r)) sf \<and> steps_ok (fst (declare_step (k, owner s) r)) tf"
proof (cases rule: publish_cases[of "StepDeclared (rec_run_id r) (owner s) k" r])
  case (ok c)
  let ?r = "fst (declare_step (k, owner s) r)"
  have r: "?r = set_step k (\<lambda>s. s\<lparr>lifecycle := Declared\<rparr>) (r\<lparr>rec_console := c\<rparr>)"
    using ok by (simp add: declare_step_def io_bind_def)
  have "steps_ok ?r tf"
    by (rule steps_change[OF inv(2) s(1), where f = "\<lambda>s. s\<lparr>lifecycle := Declared\<rparr>" and p = None and ms = "[MDeclared]"])
       (use s ok steps_okD(1)[OF inv(2)] steps_okD(2)[OF inv(2) s(1)] in \<open>auto simp: r set_step_def fun_upd_idem\<close>)
  then show ?thesis using scopes_frame[OF inv(1)] ok by (simp add: r set_step_def)
next
  case (rejected c m)
  then show ?thesis using scopes_frame[OF inv(1)] steps_frame[OF inv(2)]
    by (simp add: declare_step_def io_bind_def)
qed

lemma start_scope_inv:
  assumes inv: "scopes_ok r sf" "steps_ok r tf"
  shows "scopes_ok (fst (start_scope b r)) sf \<and> steps_ok (fst (start_scope b r)) tf"
proof (cases "\<exists>s. map_of (states r) (scope_key (binding_scope b)) = Some s \<and> lifecycle s = Declared")
  case True
  let ?k = "scope_key (binding_scope b)" and ?r = "fst (start_scope b r)"
  obtain s where s: "map_of (states r) ?k = Some s" "lifecycle s = Declared" using True by blast
  show ?thesis
  proof (cases rule: publish_cases[of "ScopeStarted (rec_run_id r) (binding_scope b)" r])
    case (ok c)
    obtain c' t where t: "read_clock (r\<lparr>rec_console := c\<rparr>) = (r\<lparr>rec_console := c'\<rparr>, Inr t)" "accepted c' = accepted c"
      by (rule read_clock_cases[of "r\<lparr>rec_console := c\<rparr>"]) simp
    have r: "?r = set_scope ?k (\<lambda>s. s\<lparr>lifecycle := Started, started_at := Some t\<rparr>) (r\<lparr>rec_console := c'\<rparr>)"
      using ok t s by (simp add: start_scope_def io_bind_def)
    have "scopes_ok ?r sf"
      by (rule scopes_change[OF inv(1) s(1),
            where f = "\<lambda>s. s\<lparr>lifecycle := Started, started_at := Some t\<rparr>" and p = None and ms = "[MDeclared, MStarted]"])
         (use s ok t scopes_okD(1)[OF inv(1)] scopes_okD(3)[OF inv(1) s(1)] in \<open>auto simp: r set_scope_def fun_upd_idem\<close>)
    then show ?thesis using steps_frame[OF inv(2)] ok t by (simp add: r set_scope_def)
  next
    case (rejected c m)
    then show ?thesis using s scopes_frame[OF inv(1)] steps_frame[OF inv(2)]
      by (simp add: start_scope_def io_bind_def)
  qed
next
  case False
  then have "fst (start_scope b r) = r"
    by (auto simp: start_scope_def Let_def split: option.splits LifecycleState.splits)
  then show ?thesis using inv by simp
qed

lemma start_step_inv:
  assumes inv: "scopes_ok r sf" "steps_ok r tf"
  shows "scopes_ok (fst (start_step b r)) sf \<and> steps_ok (fst (start_step b r)) tf"
proof (cases "\<exists>k s. binding_step b = Some k \<and> map_of (steps r) k = Some s \<and> lifecycle s = Declared")
  case True
  let ?r = "fst (start_step b r)"
  obtain k s where s: "map_of (steps r) k = Some s" "lifecycle s = Declared" and b: "binding_step b = Some k"
    using True by blast
  show ?thesis
  proof (cases rule: publish_cases[of "StepStarted (rec_run_id r) (owner s) k" r])
    case (ok c)
    obtain c' t where t: "read_clock (r\<lparr>rec_console := c\<rparr>) = (r\<lparr>rec_console := c'\<rparr>, Inr t)" "accepted c' = accepted c"
      by (rule read_clock_cases[of "r\<lparr>rec_console := c\<rparr>"]) simp
    have r: "?r = set_step k (\<lambda>s. s\<lparr>lifecycle := Started, started_at := Some t\<rparr>) (r\<lparr>rec_console := c'\<rparr>)"
      using ok t s b by (simp add: start_step_def io_bind_def)
    have "steps_ok ?r tf"
      by (rule steps_change[OF inv(2) s(1),
            where f = "\<lambda>s. s\<lparr>lifecycle := Started, started_at := Some t\<rparr>" and p = None and ms = "[MDeclared, MStarted]"])
         (use s ok t steps_okD(1)[OF inv(2)] steps_okD(2)[OF inv(2) s(1)] in \<open>auto simp: r set_step_def fun_upd_idem\<close>)
    then show ?thesis using scopes_frame[OF inv(1)] ok t by (simp add: r set_step_def)
  next
    case (rejected c m)
    then show ?thesis using s b scopes_frame[OF inv(1)] steps_frame[OF inv(2)]
      by (simp add: start_step_def io_bind_def)
  qed
next
  case False
  then have "fst (start_step b r) = r"
    by (auto simp: start_step_def split: option.splits LifecycleState.splits)
  then show ?thesis using inv by simp
qed

lemma reserve_scope_inv:
  assumes inv: "scopes_ok r sf" "steps_ok r tf"
    and s: "map_of (states r) (scope_key scope) = Some s" "is_open s" and p: "reserve_scope scope st r = (r', Inr p)"
  shows "scopes_ok r' (sf(scope_key scope \<mapsto> p)) \<and> steps_ok r' tf"
proof -
  let ?k = "scope_key scope" and ?f = "\<lambda>s. s\<lparr>lifecycle := PublishingFinish, track_status := max (track_status s) st\<rparr>"
  have r: "r' = set_scope ?k ?f r" and p': "pending_scope p = scope"
    "pending_status p = track_status (?f s)" "pending_previous p = lifecycle s"
    using p s by (auto simp: reserve_scope_def)
  have "scopes_ok r' (sf(?k \<mapsto> p))"
  proof (rule scopes_change[OF inv(1) s(1), where f = ?f])
    show "scope_flight (sf(?k \<mapsto> p)) = (scope_flight sf)(?k \<mapsto> (track_status (?f s), lifecycle s))"
      using p' by simp
    show "scope_key (pending_scope q) = k" if "(sf(?k \<mapsto> p)) k = Some q" for k q
      using that p' scopes_okD(1)[OF inv(1)] by (auto split: if_splits)
    show "marks scope_mark (log r') = (marks scope_mark (log r))(?k := marks scope_mark (log r) ?k)"
      by (simp add: r set_scope_def)
  qed (use s in \<open>auto simp: r set_scope_def tracked_ok_def is_open_def\<close>)
  then show ?thesis using steps_frame[OF inv(2)] by (simp add: r set_scope_def)
qed

lemma commit_node_inv:
  assumes inv: "scopes_ok r sf" "steps_ok r tf" and p: "commit_node scope st f at outs r = (r', Inr p)"
  shows "scopes_ok r' (case p of None \<Rightarrow> sf | Some q \<Rightarrow> sf(scope_key scope \<mapsto> q)) \<and> steps_ok r' tf"
proof -
  let ?k = "scope_key scope" and ?f = "aggregate st f at outs"
  obtain s where s: "map_of (states r) ?k = Some s" "lifecycle s = Started"
    and r: "r' = set_scope ?k ?f r"
    and p': "p = (if remaining_nodes s - 1 = 0 then Some \<lparr>pending_scope = scope,
      pending_status = max (track_status s) st, pending_previous = Started\<rparr> else None)"
    using p by (auto simp: commit_node_def check_completion_def split: option.splits if_splits sum.splits)
  have f: "lifecycle (?f s) = (if remaining_nodes s - 1 = 0 then PublishingFinish else Started)"
    "finished_at (?f s) = finished_at s" "started_at (?f s) = started_at s"
    "track_status (?f s) = max (track_status s) st" "key_scope (?f s) = key_scope s"
    using s by (simp_all add: aggregate_def Let_def split_beta)
  let ?sf = "case p of None \<Rightarrow> sf | Some q \<Rightarrow> sf(?k \<mapsto> q)"
  have "scopes_ok r' ?sf"
  proof (rule scopes_change[OF inv(1) s(1), where f = ?f])
    show "scope_flight ?sf = (scope_flight sf)
        (?k := (if remaining_nodes s - 1 = 0 then Some (track_status (?f s), Started) else scope_flight sf ?k))"
      using p' f by simp
    show "scope_key (pending_scope q) = k" if "?sf k = Some q" for k q
      using that p' scopes_okD(1)[OF inv(1)] by (auto split: if_splits)
    show "marks scope_mark (log r') = (marks scope_mark (log r))(?k := marks scope_mark (log r) ?k)"
      by (simp add: r set_scope_def)
  qed (use s f in \<open>auto simp: r set_scope_def tracked_ok_def\<close>)
  then show ?thesis using steps_frame[OF inv(2)] by (simp add: r set_scope_def)
qed

lemma reserve_step_inv:
  assumes inv: "scopes_ok r sf" "steps_ok r tf" and p: "reserve_step k st f outs r = (r', Inr p)"
  shows "scopes_ok r' sf \<and> steps_ok r' (tf(k \<mapsto> p))"
proof -
  let ?f = "\<lambda>s. s\<lparr>lifecycle := PublishingFinish, track_status := max (track_status s) st,
     track_failure := record_failure (track_failure s) f, step_values := co_step outs,
     track_artifacts := track_artifacts s @ co_artifacts outs, track_reports := track_reports s @ co_reports outs\<rparr>"
  obtain s where s: "map_of (steps r) k = Some s" "is_open s"
    and r: "r' = set_step k ?f r" and p': "pending_step p = k" "pending_step_status p = track_status (?f s)"
      "pending_step_previous p = lifecycle s"
    using p by (auto simp: reserve_step_def is_open_def split: option.splits if_splits)
  have "steps_ok r' (tf(k \<mapsto> p))"
  proof (rule steps_change[OF inv(2) s(1), where f = ?f])
    show "step_flight (tf(k \<mapsto> p)) = (step_flight tf)(k \<mapsto> (track_status (?f s), lifecycle s))"
      using p' by simp
    show "pending_step q = x" if "(tf(k \<mapsto> p)) x = Some q" for x q
      using that p' steps_okD(1)[OF inv(2)] by (auto split: if_splits)
    show "marks step_mark (log r') = (marks step_mark (log r))(k := marks step_mark (log r) k)"
      by (simp add: r set_step_def)
  qed (use s in \<open>auto simp: r set_step_def tracked_ok_def is_open_def\<close>)
  then show ?thesis using scopes_frame[OF inv(1)] by (simp add: r set_step_def)
qed

lemma publish_scope_inv:
  assumes inv: "scopes_ok r sf" "steps_ok r tf" and p: "sf k = Some p"
  shows "scopes_ok (fst (publish_scope_finish p r)) (sf(k := None)) \<and> steps_ok (fst (publish_scope_finish p r)) tf"
proof -
  let ?r = "fst (publish_scope_finish p r)"
  have k: "scope_key (pending_scope p) = k" using scopes_okD(1)[OF inv(1) p] .
  have fl: "scope_flight sf k = Some (pending_status p, pending_previous p)" using p by (simp add: scope_flight_def)
  then obtain s where s: "map_of (states r) k = Some s" using scopes_okD(4)[OF inv(1), of k] by (cases "map_of (states r) k") auto
  have keys: "scope_key (pending_scope q) = x" if "(sf(k := None)) x = Some q" for x q
    using that scopes_okD(1)[OF inv(1)] by (auto split: if_splits)
  show ?thesis
  proof (cases rule: publish_cases[of "ScopeFinished (rec_run_id r) (pending_scope p) (pending_status p)" r])
    case (ok c)
    obtain c' t where t: "read_clock (r\<lparr>rec_console := c\<rparr>) = (r\<lparr>rec_console := c'\<rparr>, Inr t)" "accepted c' = accepted c"
      by (rule read_clock_cases[of "r\<lparr>rec_console := c\<rparr>"]) simp
    let ?f = "\<lambda>s. s\<lparr>lifecycle := Finished, finished_at := Some t\<rparr>"
    have r: "?r = set_scope k ?f (r\<lparr>rec_console := c'\<rparr>)"
      using ok t k by (simp add: publish_scope_finish_def io_bind_def)
    have "scopes_ok ?r (sf(k := None))"
    proof (rule scopes_change[OF inv(1) s, where f = ?f])
      show "tracked_ok (marks scope_mark (log r) k @ [MFinished (pending_status p)]) None (?f s)"
        if "tracked_ok (marks scope_mark (log r) k) (scope_flight sf k) s"
        using that unfolding fl by (rule tracked_ok_finish) simp_all
      show "scope_key (pending_scope q) = x" if "(sf(k := None)) x = Some q" for x q by (rule keys[OF that])
    qed (simp_all add: r set_scope_def ok t k)
    then show ?thesis using steps_frame[OF inv(2)] ok t by (simp add: r set_scope_def)
  next
    case (rejected c m)
    let ?f = "\<lambda>s. s\<lparr>lifecycle := pending_previous p\<rparr>"
    have r: "?r = set_scope k ?f (r\<lparr>rec_console := c\<rparr>)"
      using rejected k by (simp add: publish_scope_finish_def)
    have "scopes_ok ?r (sf(k := None))"
    proof (rule scopes_change[OF inv(1) s, where f = ?f])
      show "tracked_ok (marks scope_mark (log r) k) None (?f s)"
        if "tracked_ok (marks scope_mark (log r) k) (scope_flight sf k) s"
        using that unfolding fl by (rule tracked_ok_rollback) simp_all
      show "scope_key (pending_scope q) = x" if "(sf(k := None)) x = Some q" for x q by (rule keys[OF that])
    qed (simp_all add: r set_scope_def rejected)
    then show ?thesis using steps_frame[OF inv(2)] rejected by (simp add: r set_scope_def)
  qed
qed

lemma publish_step_inv:
  assumes inv: "scopes_ok r sf" "steps_ok r tf" and p: "tf k = Some p"
  shows "scopes_ok (fst (publish_step_finish p r)) sf \<and> steps_ok (fst (publish_step_finish p r)) (tf(k := None))"
proof -
  let ?r = "fst (publish_step_finish p r)"
  have k: "pending_step p = k" using steps_okD(1)[OF inv(2) p] .
  have fl: "step_flight tf k = Some (pending_step_status p, pending_step_previous p)" using p by (simp add: step_flight_def)
  then obtain s where s: "map_of (steps r) k = Some s" using steps_okD(3)[OF inv(2), of k] by (cases "map_of (steps r) k") auto
  have keys: "pending_step q = x" if "(tf(k := None)) x = Some q" for x q
    using that steps_okD(1)[OF inv(2)] by (auto split: if_splits)
  show ?thesis
  proof (cases rule: publish_cases[of "StepFinished (rec_run_id r) (pending_step_scope p) k (pending_step_status p)" r])
    case (ok c)
    obtain c' t where t: "read_clock (r\<lparr>rec_console := c\<rparr>) = (r\<lparr>rec_console := c'\<rparr>, Inr t)" "accepted c' = accepted c"
      by (rule read_clock_cases[of "r\<lparr>rec_console := c\<rparr>"]) simp
    let ?f = "\<lambda>s. s\<lparr>lifecycle := Finished, finished_at := Some t\<rparr>"
    have r: "?r = set_step k ?f (r\<lparr>rec_console := c'\<rparr>)"
      using ok t k by (simp add: publish_step_finish_def io_bind_def)
    have "steps_ok ?r (tf(k := None))"
    proof (rule steps_change[OF inv(2) s, where f = ?f])
      show "tracked_ok (marks step_mark (log r) k @ [MFinished (pending_step_status p)]) None (?f s)"
        if "tracked_ok (marks step_mark (log r) k) (step_flight tf k) s"
        using that unfolding fl by (rule tracked_ok_finish) simp_all
      show "pending_step q = x" if "(tf(k := None)) x = Some q" for x q by (rule keys[OF that])
    qed (simp_all add: r set_step_def ok t k)
    then show ?thesis using scopes_frame[OF inv(1)] ok t by (simp add: r set_step_def)
  next
    case (rejected c m)
    let ?f = "\<lambda>s. s\<lparr>lifecycle := pending_step_previous p\<rparr>"
    have r: "?r = set_step k ?f (r\<lparr>rec_console := c\<rparr>)"
      using rejected k by (simp add: publish_step_finish_def)
    have "steps_ok ?r (tf(k := None))"
    proof (rule steps_change[OF inv(2) s, where f = ?f])
      show "tracked_ok (marks step_mark (log r) k) None (?f s)"
        if "tracked_ok (marks step_mark (log r) k) (step_flight tf k) s"
        using that unfolding fl by (rule tracked_ok_rollback) simp_all
      show "pending_step q = x" if "(tf(k := None)) x = Some q" for x q by (rule keys[OF that])
    qed (simp_all add: r set_step_def rejected)
    then show ?thesis using scopes_frame[OF inv(1)] rejected by (simp add: r set_step_def)
  qed
qed

lemma map_of_map_snd: "map_of (map (\<lambda>(k, s). (k, f s)) m) x = map_option f (map_of m x)"
  by (induction m) auto

lemma map_of_pending:
  assumes "distinct (map fst m)" "\<And>k s. (k, s) \<in> set m \<Longrightarrow> key (g (k, s)) = k"
  shows "map_of (map (\<lambda>p. (key p, p)) (map g (filter (\<lambda>(_, s). Q s) m))) x =
    (case map_of m x of None \<Rightarrow> None | Some s \<Rightarrow> if Q s then Some (g (x, s)) else None)"
  using assms
proof (induction m)
  case (Cons e m)
  obtain k s where e: "e = (k, s)" by (cases e)
  have k: "key (g (k, s)) = k" using Cons.prems(2)[of k s] e by simp
  have "(k', s') \<in> set m \<Longrightarrow> key (g (k', s')) = k'" for k' s' using Cons.prems(2)[of k' s'] by simp
  then have IH: "map_of (map (\<lambda>p. (key p, p)) (map g (filter (\<lambda>(_, s). Q s) m))) x =
    (case map_of m x of None \<Rightarrow> None | Some s \<Rightarrow> if Q s then Some (g (x, s)) else None)"
    using Cons.IH Cons.prems(1) by simp
  have "map_of m k = None" using Cons.prems(1) e by (simp add: map_of_eq_None_iff)
  then show ?case using IH k e by (cases "x = k") auto
qed simp

lemma tracked_ok_reserve_open:
  assumes "tracked_ok ms p s"
  shows "tracked_ok ms (if is_open s then Some (max (track_status s) (remaining_status st (lifecycle s)), lifecycle s) else p)
    (reserve_open st s)"
  using assms by (auto simp: tracked_ok_def reserve_open_def is_open_def)

lemma table_ok_reserve_open:
  assumes t: "table_ok ms p m"
    and p': "\<And>k. p' k = (case map_of m k of None \<Rightarrow> p k | Some s \<Rightarrow>
      if is_open s then Some (max (track_status s) (remaining_status st (lifecycle s)), lifecycle s) else p k)"
  shows "table_ok ms p' (map (\<lambda>(k, s). (k, reserve_open st s)) m)"
proof (rule table_okI)
  show "distinct (map fst (map (\<lambda>(k, s). (k, reserve_open st s)) m))"
    using t by (simp add: table_ok_def comp_def case_prod_beta)
  show "ms k = [] \<and> p' k = None" if "map_of (map (\<lambda>(k, s). (k, reserve_open st s)) m) k = None" for k
    using that table_ok_None[OF t, of k] by (simp add: map_of_map_snd p')
  show "tracked_ok (ms k) (p' k) s" if m: "map_of (map (\<lambda>(k, s). (k, reserve_open st s)) m) k = Some s" for k s
  proof -
    obtain s0 where s0: "map_of m k = Some s0" "s = reserve_open st s0"
      using m unfolding map_of_map_snd by blast
    show ?thesis using tracked_ok_reserve_open[OF table_okD[OF t s0(1)], of st] s0 by (simp add: p')
  qed
qed

lemma reserve_scopes_inv:
  assumes inv: "scopes_ok r sf" "steps_ok r tf" and ps: "reserve_remaining_scopes st r = (r', ps)"
  shows "scopes_ok r' (sf ++ map_of (map (\<lambda>p. (scope_key (pending_scope p), p)) ps)) \<and> steps_ok r' tf"
proof -
  let ?g = "\<lambda>(_ :: scope_ident, s). \<lparr>pending_scope = key_scope s,
    pending_status = max (track_status s) (remaining_status st (lifecycle s)), pending_previous = lifecycle s\<rparr>"
  let ?new = "map_of (map (\<lambda>p. (scope_key (pending_scope p), p)) ps)"
  have r: "r' = r\<lparr>states := map (\<lambda>(k, s). (k, reserve_open st s)) (states r)\<rparr>"
    and ps': "ps = map ?g (filter (\<lambda>(_, s). is_open s) (states r))"
    using ps by (simp_all add: reserve_remaining_scopes_def)
  have new: "?new k = (case map_of (states r) k of None \<Rightarrow> None | Some s \<Rightarrow> if is_open s then Some (?g (k, s)) else None)" for k
    unfolding ps'
  proof (rule map_of_pending[OF scopes_okD(5)[OF inv(1)]])
    show "scope_key (pending_scope (?g (k, s))) = k" if "(k, s) \<in> set (states r)" for k s
      using scopes_okD(2)[OF inv(1) map_of_is_SomeI[OF scopes_okD(5)[OF inv(1)] that]] by simp
  qed
  have t: "table_ok (marks scope_mark (log r)) (scope_flight sf) (states r)"
    using inv(1) unfolding scopes_ok_def by blast
  have "scope_flight (sf ++ ?new) k = (case map_of (states r) k of None \<Rightarrow> scope_flight sf k | Some s \<Rightarrow>
      if is_open s then Some (max (track_status s) (remaining_status st (lifecycle s)), lifecycle s) else scope_flight sf k)" for k
    by (simp add: scope_flight_def map_add_def new split: option.splits)
  then have "table_ok (marks scope_mark (log r')) (scope_flight (sf ++ ?new)) (states r')"
    using table_ok_reserve_open[OF t] by (simp add: r)
  moreover have "scope_key (pending_scope p) = k" if "(sf ++ ?new) k = Some p" for k p
    using that scopes_okD(1)[OF inv(1), of k p] scopes_okD(2)[OF inv(1), of k]
    by (cases "map_of (states r) k") (auto simp: map_add_def new split: if_splits)
  moreover have "scope_key (key_scope s) = k" if "map_of (states r') k = Some s" for k s
    using that scopes_okD(2)[OF inv(1), of k] by (auto simp: r map_of_map_snd reserve_open_def)
  ultimately have "scopes_ok r' (sf ++ ?new)" unfolding scopes_ok_def by blast
  then show ?thesis using steps_frame[OF inv(2)] by (simp add: r)
qed

lemma reserve_steps_inv:
  assumes inv: "scopes_ok r sf" "steps_ok r tf" and ps: "reserve_remaining_steps st r = (r', ps)"
  shows "scopes_ok r' sf \<and> steps_ok r' (tf ++ map_of (map (\<lambda>p. (pending_step p, p)) ps))"
proof -
  let ?g = "\<lambda>(k, s). \<lparr>pending_step = k, pending_step_scope = owner s,
    pending_step_status = max (track_status s) (remaining_status st (lifecycle s)), pending_step_previous = lifecycle s\<rparr>"
  let ?new = "map_of (map (\<lambda>p. (pending_step p, p)) ps)"
  have r: "r' = r\<lparr>steps := map (\<lambda>(k, s). (k, reserve_open st s)) (steps r)\<rparr>"
    and ps': "ps = map ?g (filter (\<lambda>(_, s). is_open s) (steps r))"
    using ps by (simp_all add: reserve_remaining_steps_def)
  have new: "?new k = (case map_of (steps r) k of None \<Rightarrow> None | Some s \<Rightarrow> if is_open s then Some (?g (k, s)) else None)" for k
    unfolding ps' by (intro map_of_pending[OF steps_okD(4)[OF inv(2)]]) simp
  have t: "table_ok (marks step_mark (log r)) (step_flight tf) (steps r)"
    using inv(2) unfolding steps_ok_def by blast
  have "step_flight (tf ++ ?new) k = (case map_of (steps r) k of None \<Rightarrow> step_flight tf k | Some s \<Rightarrow>
      if is_open s then Some (max (track_status s) (remaining_status st (lifecycle s)), lifecycle s) else step_flight tf k)" for k
    by (simp add: step_flight_def map_add_def new split: option.splits)
  then have "table_ok (marks step_mark (log r')) (step_flight (tf ++ ?new)) (steps r')"
    using table_ok_reserve_open[OF t] by (simp add: r)
  moreover have "pending_step p = k" if "(tf ++ ?new) k = Some p" for k p
    using that steps_okD(1)[OF inv(2), of k p]
    by (cases "map_of (steps r) k") (auto simp: map_add_def new split: if_splits)
  ultimately have "steps_ok r' (tf ++ ?new)" unfolding steps_ok_def by blast
  then show ?thesis using scopes_frame[OF inv(1)] by (simp add: r)
qed

lemma other_inv:
  assumes inv: "scopes_ok r sf" "steps_ok r tf" and e: "scope_mark e = None" "step_mark e = None"
  shows "scopes_ok (fst (publish e r)) sf \<and> steps_ok (fst (publish e r)) tf"
  by (cases rule: publish_cases[of e r])
     (use e in \<open>simp_all add: scopes_frame[OF inv(1)] steps_frame[OF inv(2)]\<close>)

lemma tick_inv:
  assumes inv: "scopes_ok r sf" "steps_ok r tf"
  shows "scopes_ok (fst (read_clock r)) sf \<and> steps_ok (fst (read_clock r)) tf"
  by (rule read_clock_cases[of r]) (simp add: scopes_frame[OF inv(1)] steps_frame[OF inv(2)])

lemma section_step_inv:
  assumes st: "section_step (r, sf, tf) (r', sf', tf')" and inv: "scopes_ok r sf" "steps_ok r tf"
  shows "scopes_ok r' sf' \<and> steps_ok r' tf'"
  using st
proof cases
  case (declare_scope k s)
  then show ?thesis using declare_scope_inv[OF inv] by simp
next
  case (close_empty scope s st p)
  then show ?thesis using reserve_scope_inv[OF inv, of scope s st r' p] by (simp add: is_open_def)
next
  case (declare_step k s)
  then show ?thesis using declare_step_inv[OF inv] by simp
next
  case (start_scope b)
  then show ?thesis using start_scope_inv[OF inv] by simp
next
  case (start_step b)
  then show ?thesis using start_step_inv[OF inv] by simp
next
  case (other e)
  then show ?thesis using other_inv[OF inv] by simp
next
  case tick
  then show ?thesis using tick_inv[OF inv] by simp
next
  case (reserve_step k st f outs p)
  then show ?thesis using reserve_step_inv[OF inv] by simp
next
  case (publish_step k p)
  then show ?thesis using publish_step_inv[OF inv] by simp
next
  case (commit_node scope st f at outs)
  then show ?thesis using commit_node_inv[OF inv, of scope st f at outs r' None] by simp
next
  case (commit_last scope st f at outs p)
  then show ?thesis using commit_node_inv[OF inv, of scope st f at outs r' "Some p"] by simp
next
  case (publish_scope k p)
  then show ?thesis using publish_scope_inv[OF inv] by simp
next
  case (reserve_steps st ps)
  then show ?thesis using reserve_steps_inv[OF inv] by simp
next
  case (reserve_scopes st ps)
  then show ?thesis using reserve_scopes_inv[OF inv] by simp
qed

section \<open>A new recorder\<close>

definition unused :: "'a Tracked_scheme \<Rightarrow> bool" where
  "unused s \<longleftrightarrow> lifecycle s = Planned \<and> finished_at s = None \<and> started_at s = None"

definition fresh :: "'v ExecutionRecorder \<Rightarrow> bool" where
  "fresh r \<longleftrightarrow> distinct (map fst (states r)) \<and> distinct (map fst (steps r)) \<and>
     (\<forall>e \<in> set (states r). unused (snd e) \<and> scope_key (key_scope (snd e)) = fst e) \<and>
     (\<forall>e \<in> set (steps r). unused (snd e))"

lemma entry_update_elem:
  "e \<in> set (entry_update k d f m) \<Longrightarrow> e \<in> set m \<or> e = (k, f d) \<or> (\<exists>v. (k, v) \<in> set m \<and> e = (k, f v))"
  by (induction k d f m rule: entry_update.induct) (auto split: if_splits)

lemma fresh_add_binding:
  assumes "fresh r"
  shows "fresh (add_binding r b)"
  using assms unfolding fresh_def
  by (fastforce simp: Let_def entry_update_distinct default_scope_state_def new_step_state_def unused_def
      split: option.splits dest!: entry_update_elem)

lemma fresh_scopes:
  assumes "fresh (r\<lparr>states := m\<rparr>)"
  shows "fresh (r\<lparr>states := entry_update (scope_key scope) (default_scope_state scope)
    (\<lambda>s. default_scope_state (key_scope s)) m\<rparr>)"
  using assms unfolding fresh_def
  by (fastforce simp: entry_update_distinct default_scope_state_def unused_def dest!: entry_update_elem)

lemma fresh_new: "fresh (recorder_new c run scopes bindings)"
proof -
  let ?r = "\<lparr>rec_console = c, rec_run_id = run, states = [], steps = []\<rparr> :: 'a ExecutionRecorder"
  let ?f = "\<lambda>m scope. entry_update (scope_key scope) (default_scope_state scope) (\<lambda>s. default_scope_state (key_scope s)) m"
  have "fresh (?r\<lparr>states := m\<rparr>) \<Longrightarrow> fresh (?r\<lparr>states := foldl ?f m scopes\<rparr>)" for m
    by (induction scopes arbitrary: m) (use fresh_scopes[where r = ?r] in auto)
  from this[of "[]"] have "fresh (?r\<lparr>states := foldl ?f [] scopes\<rparr>)" by (simp add: fresh_def)
  then have "fresh (foldl add_binding (?r\<lparr>states := foldl ?f [] scopes\<rparr>) bindings)"
    by (rule foldl_invariant) (rule fresh_add_binding)
  then show ?thesis by (simp add: recorder_new_def)
qed

lemma new_console [simp]: "rec_console (recorder_new c run scopes bindings) = c"
proof -
  have "rec_console (foldl add_binding r bs) = rec_console r" for r :: "'a ExecutionRecorder" and bs
    by (induction bs arbitrary: r) (auto simp: Let_def split: option.splits)
  then show ?thesis by (simp add: recorder_new_def)
qed

lemma fresh_ok:
  assumes "fresh r" "log r = []"
  shows "scopes_ok r Map.empty" and "steps_ok r Map.empty"
proof -
  have "table_ok (marks scope_mark (log r)) (scope_flight Map.empty) (states r)"
    by (rule table_okI) (use assms in \<open>auto simp: fresh_def scope_flight_def unused_def dest!: map_of_SomeD\<close>)
  moreover have "scope_key (key_scope s) = k" if "map_of (states r) k = Some s" for k s
    using assms(1) map_of_SomeD[OF that] by (auto simp: fresh_def)
  ultimately show "scopes_ok r Map.empty" unfolding scopes_ok_def by auto
  have "table_ok (marks step_mark (log r)) (step_flight Map.empty) (steps r)"
    by (rule table_okI) (use assms in \<open>auto simp: fresh_def step_flight_def unused_def dest!: map_of_SomeD\<close>)
  then show "steps_ok r Map.empty" unfolding steps_ok_def by auto
qed

lemma reachable_ok:
  assumes "reachable (recorder_new c run scopes bindings) x" "offered c = []"
  shows "case x of (r, sf, tf) \<Rightarrow> scopes_ok r sf \<and> steps_ok r tf"
  using assms(1)
proof induction
  case start
  have "log (recorder_new c run scopes bindings) = []" using assms(2) by (simp add: accepted_def map_filter_simps)
  then show ?case using fresh_ok[OF fresh_new, of c run scopes bindings] by simp
next
  case (step x y)
  obtain r sf tf r' sf' tf' where xy: "x = (r, sf, tf)" "y = (r', sf', tf')" by (cases x, cases y)
  then show ?case using section_step_inv[of r sf tf r' sf' tf'] step by simp
qed

text \<open>The lifecycles an observer may see.\<close>

fun valid_lifecycle :: "mark list \<Rightarrow> bool" where
  "valid_lifecycle [] = True"
| "valid_lifecycle [MDeclared] = True"
| "valid_lifecycle [MDeclared, MStarted] = True"
| "valid_lifecycle [MDeclared, MFinished _] = True"
| "valid_lifecycle [MDeclared, MStarted, MFinished _] = True"
| "valid_lifecycle _ = False"

lemma tracked_ok_valid: "tracked_ok ms p s \<Longrightarrow> valid_lifecycle ms"
  by (cases "lifecycle s") (auto simp: tracked_ok_def)

lemma table_ok_valid: "table_ok ms p m \<Longrightarrow> valid_lifecycle (ms k)"
  using table_ok_None[of ms p m k] table_okD[of ms p m k] tracked_ok_valid by (cases "map_of m k") auto


section \<open>Results and events\<close>

definition steps_of :: "u64 \<Rightarrow> u64 \<Rightarrow> (ConsoleStep \<times> 'v StepState) list \<Rightarrow> 'v StepResult list" where
  "steps_of run i m = map (snd \<circ> projr \<circ> step_result run) (filter (\<lambda>(_, s). scope_id (owner s) = i) m)"

lemma step_result_Ok:
  "step_result run (k, s) = Inr y \<Longrightarrow> finished_at s \<noteq> None \<and> fst y = scope_id (owner s)"
  by (auto simp: step_result_def split: option.splits)

lemma group_steps:
  assumes "try_fold (group_step run) g m = Inr g'"
  shows "(\<forall>e \<in> set m. finished_at (snd e) \<noteq> None) \<and>
    (case map_of g' i of None \<Rightarrow> [] | Some l \<Rightarrow> l) = (case map_of g i of None \<Rightarrow> [] | Some l \<Rightarrow> l) @ steps_of run i m"
  using assms
proof (induction m arbitrary: g)
  case (Cons e m)
  obtain k s where e: "e = (k, s)" by (cases e)
  obtain j sr where sr: "step_result run e = Inr (j, sr)"
    and rest: "try_fold (group_step run) (entry_update j [] (\<lambda>l. l @ [sr]) g) m = Inr g'"
    using Cons.prems unfolding try_fold.simps result_simps group_step_def[of run g e] by (auto simp: result_simps)
  have j: "finished_at s \<noteq> None" "j = scope_id (owner s)" using step_result_Ok sr e by fastforce+
  show ?case using Cons.IH[OF rest] j sr e
    by (auto simp: entry_update_map_of steps_of_def split: option.splits)
qed (simp add: steps_of_def)

lemma group_steps_total:
  "(\<forall>e \<in> set m. finished_at (snd e) \<noteq> None) \<Longrightarrow> \<exists>g'. try_fold (group_step run) g m = Inr g'"
  by (induction m arbitrary: g) (auto simp: group_step_def step_result_def)

lemma task_results_eq:
  assumes "distinct (map (scope_id \<circ> key_scope \<circ> snd) m)" "\<forall>e \<in> set m. finished_at (snd e) \<noteq> None"
  shows "task_results run g m = Inr (map (\<lambda>(_, s).
    task_result run (case map_of g (scope_id (key_scope s)) of None \<Rightarrow> [] | Some l \<Rightarrow> l) s (the (finished_at s))) m)"
  using assms
proof (induction m arbitrary: g)
  case (Cons e m)
  obtain k s t where e: "e = (k, s)" "finished_at s = Some t" using Cons.prems(2) by (cases e) auto
  let ?g = "filter (\<lambda>(j, _). j \<noteq> scope_id (key_scope s)) g"
  have "map_of ?g j = map_of g j" if "j \<noteq> scope_id (key_scope s)" for j
    using that by (induction g) auto
  then have g: "map_of ?g (scope_id (key_scope s')) = map_of g (scope_id (key_scope s'))" if "(k', s') \<in> set m" for k' s'
    using that Cons.prems(1) e by force
  have "task_results run ?g m = Inr (map (\<lambda>(_, s).
    task_result run (case map_of ?g (scope_id (key_scope s)) of None \<Rightarrow> [] | Some l \<Rightarrow> l) s (the (finished_at s))) m)"
    using Cons by simp
  also have "\<dots> = Inr (map (\<lambda>(_, s).
    task_result run (case map_of g (scope_id (key_scope s)) of None \<Rightarrow> [] | Some l \<Rightarrow> l) s (the (finished_at s))) m)"
    using g by (intro arg_cong[where f = Inr] map_cong) auto
  finally show ?case using e by (simp add: Let_def)
qed simp

lemma task_results_finished:
  "task_results run g m = Inr ts \<Longrightarrow> \<forall>e \<in> set m. finished_at (snd e) \<noteq> None"
  by (induction m arbitrary: g ts) (fastforce simp: Let_def result_simps split: option.splits)+

text \<open>All scopes of one run come from one allocator, so their numbers are distinct.\<close>

definition one_allocator :: "'v ExecutionRecorder \<Rightarrow> bool" where
  "one_allocator r \<longleftrightarrow> (\<exists>a. \<forall>k \<in> fst ` set (states r). fst k = a)"

lemma scope_ids_distinct:
  assumes "scopes_ok r sf" "one_allocator r"
  shows "distinct (map (scope_id \<circ> key_scope \<circ> snd) (states r))"
proof -
  obtain a where a: "\<forall>k \<in> fst ` set (states r). fst k = a" using assms(2) unfolding one_allocator_def by blast
  have "(scope_id \<circ> key_scope \<circ> snd) e = snd (fst e)" if "e \<in> set (states r)" for e
    using scopes_okD(2)[OF assms(1) map_of_is_SomeI[OF scopes_okD(5)[OF assms(1)]], of "fst e" "snd e"] that
    by (simp add: scope_key_def) (metis snd_conv)
  then have eq: "map (scope_id \<circ> key_scope \<circ> snd) (states r) = map snd (map fst (states r))"
    by (simp cong: map_cong)
  have "inj_on snd (set (map fst (states r)))"
    by (rule inj_onI) (metis a image_set prod_eqI)
  then show ?thesis unfolding eq using scopes_okD(5)[OF assms(1)] by (simp add: distinct_map del: map_map)
qed

lemma results_eq:
  assumes "scopes_ok r sf" "one_allocator r"
  shows "results r = Inr ts \<longleftrightarrow>
    (\<forall>e \<in> set (steps r). finished_at (snd e) \<noteq> None) \<and> (\<forall>e \<in> set (states r). finished_at (snd e) \<noteq> None) \<and>
    ts = map (\<lambda>(_, s). task_result (rec_run_id r) (steps_of (rec_run_id r) (scope_id (key_scope s)) (steps r)) s
      (the (finished_at s))) (states r)"
    (is "?L \<longleftrightarrow> ?R")
proof -
  note d = scope_ids_distinct[OF assms]
  have eq: "task_results (rec_run_id r) g (states r) = Inr (map (\<lambda>(_, s).
      task_result (rec_run_id r) (steps_of (rec_run_id r) (scope_id (key_scope s)) (steps r)) s
      (the (finished_at s))) (states r))"
    if "try_fold (group_step (rec_run_id r)) [] (steps r) = Inr g" "\<forall>e \<in> set (states r). finished_at (snd e) \<noteq> None" for g
    using task_results_eq[OF d that(2)] group_steps[OF that(1)] by simp
  show ?thesis
  proof
    assume ?L
    then obtain g where g: "try_fold (group_step (rec_run_id r)) [] (steps r) = Inr g"
      "task_results (rec_run_id r) g (states r) = Inr ts" by (auto simp: results_def result_simps)
    then show ?R using eq[OF g(1) task_results_finished[OF g(2)]] task_results_finished[OF g(2)] group_steps[OF g(1)] by simp
  next
    assume R: ?R
    then obtain g where g: "try_fold (group_step (rec_run_id r)) [] (steps r) = Inr g"
      using group_steps_total by blast
    then show ?L using eq[OF g] R by (simp add: results_def)
  qed
qed

lemma tracked_ok_finished:
  "tracked_ok ms p s \<Longrightarrow> finished_at s \<noteq> None \<Longrightarrow> \<exists>pre. ms = pre @ [MFinished (track_status s)]"
  by (auto simp: tracked_ok_def)

lemma task_result_sel [simp]:
  "tr_task_id (task_result run srs s t) = scope_id (key_scope s)"
  "tr_conclusion (task_result run srs s t) = conclusion (track_status s) (track_failure s) (Some (scope_id (key_scope s))) None"
  "tr_steps (task_result run srs s t) = srs"
  by (simp_all add: task_result_def Let_def)

text \<open>The result and the last accepted event of one scope.\<close>

definition task_agrees :: "'v ExecutionRecorder \<Rightarrow> scope_ident \<times> 'v ScopeState \<Rightarrow> 'v TaskResult \<Rightarrow> bool" where
  "task_agrees r e t \<longleftrightarrow>
     tr_task_id t = scope_id (key_scope (snd e)) \<and>
     (\<exists>pre. marks scope_mark (accepted (rec_console r)) (fst e) =
        pre @ [MFinished (conclusion_status (tr_conclusion t))]) \<and>
     list_all2 (\<lambda>x sr. sr_step_id sr = step_id (fst x) \<and>
         (\<exists>pre. marks step_mark (accepted (rec_console r)) (fst x) =
            pre @ [MFinished (conclusion_status (sr_conclusion sr))]))
       (filter (\<lambda>(_, s). scope_id (owner s) = tr_task_id t) (steps r)) (tr_steps t)"

lemma step_agrees:
  assumes inv: "steps_ok r tf" and x: "x \<in> set (steps r)" "finished_at (snd x) \<noteq> None"
  shows "sr_step_id (snd (projr (step_result run x))) = step_id (fst x) \<and>
    (\<exists>pre. marks step_mark (log r) (fst x) = pre @ [MFinished (conclusion_status (sr_conclusion (snd (projr (step_result run x)))))])"
proof -
  obtain k s t where e: "x = (k, s)" "finished_at s = Some t" using x(2) by (cases x) auto
  have "map_of (steps r) k = Some s" using x(1) e steps_okD(4)[OF inv] by simp
  then show ?thesis using tracked_ok_finished[OF steps_okD(2)[OF inv]] e by (force simp: step_result_def)
qed


section \<open>Operations are sequences of sections\<close>

abbreviation quiet :: "'v ExecutionRecorder \<Rightarrow> 'v ExecutionRecorder \<Rightarrow> bool" where
  "quiet r0 r \<equiv> reachable r0 (r, Map.empty, Map.empty)"

lemma reach_scope_finish:
  assumes "reachable r0 (r, sf, tf)" "sf k = Some p"
  shows "reachable r0 (fst (publish_scope_finish p r), sf(k := None), tf)"
  by (rule reachable.step[OF assms(1)], rule section_step.publish_scope, rule assms(2))

lemma reach_step_finish:
  assumes "reachable r0 (r, sf, tf)" "tf k = Some p"
  shows "reachable r0 (fst (publish_step_finish p r), sf, tf(k := None))"
  by (rule reachable.step[OF assms(1)], rule section_step.publish_step, rule assms(2))

lemma quiet_other:
  assumes "reachable r0 (r, sf, tf)" "scope_mark e = None" "step_mark e = None"
  shows "reachable r0 (fst (publish e r), sf, tf)"
  by (rule reachable.step[OF assms(1) section_step.other[OF assms(2,3)]])

lemma quiet_each:
  assumes "\<And>x r. x \<in> set xs \<Longrightarrow> quiet r0 r \<Longrightarrow> quiet r0 (fst (f x r))" "quiet r0 r"
  shows "quiet r0 (fst (io_each f xs r))"
  using assms
proof (induction xs arbitrary: r)
  case (Cons x xs)
  have "quiet r0 (fst (f x r))" using Cons.prems by simp
  then show ?case using Cons.IH[of "fst (f x r)"] Cons.prems(1)
    by (cases "f x r") (auto simp: io_bind_def split: sum.splits)
qed simp

lemma quiet_bind:
  assumes "quiet r0 (fst (m r))" "\<And>x r'. m r = (r', Inr x) \<Longrightarrow> quiet r0 r' \<Longrightarrow> quiet r0 (fst (f x r'))"
  shows "quiet r0 (fst (io_bind m f r))"
  using assms by (cases "m r") (auto simp: io_bind_def split: sum.splits)

lemma quiet_finish_step:
  assumes "quiet r0 r"
  shows "quiet r0 (fst (finish_step stp st f outs r))"
proof (cases stp)
  case (Some k)
  show ?thesis
  proof (cases "snd (reserve_step k st f outs r)")
    case (Inl e)
    then have "fst (reserve_step k st f outs r) = r"
      by (auto simp: reserve_step_def split: option.splits if_splits)
    then show ?thesis using assms Some Inl by (cases "reserve_step k st f outs r") (simp add: finish_step_def io_bind_def)
  next
    case (Inr p)
    then obtain r' where r': "reserve_step k st f outs r = (r', Inr p)" by (cases "reserve_step k st f outs r") auto
    have "reachable r0 (r', Map.empty, Map.empty(k \<mapsto> p))"
      by (rule reachable.step[OF assms section_step.reserve_step[OF r']])
    then have "quiet r0 (fst (publish_step_finish p r'))"
      using reach_step_finish[where k = k and p = p] by fastforce
    then show ?thesis using Some r' by (simp add: finish_step_def io_bind_def)
  qed
qed (simp add: finish_step_def assms)

lemma quiet_commit_node:
  assumes "quiet r0 r"
  shows "quiet r0 (fst (io_bind (commit_node scope st f at outs)
    (\<lambda>p r. case p of None \<Rightarrow> (r, Ok ()) | Some p \<Rightarrow> publish_scope_finish p r) r))"
proof (cases "snd (commit_node scope st f at outs r)")
  case (Inl e)
  then have "fst (commit_node scope st f at outs r) = r"
    by (auto simp: commit_node_def split: sum.splits)
  then show ?thesis using assms Inl by (cases "commit_node scope st f at outs r") (simp add: io_bind_def)
next
  case (Inr p)
  then obtain r' where r': "commit_node scope st f at outs r = (r', Inr p)"
    by (cases "commit_node scope st f at outs r") auto
  show ?thesis
  proof (cases p)
    case None
    then have "quiet r0 r'" using reachable.step[OF assms section_step.commit_node] r' by blast
    then show ?thesis using r' None by (simp add: io_bind_def)
  next
    case (Some q)
    then have "reachable r0 (r', Map.empty(scope_key scope \<mapsto> q), Map.empty)"
      using reachable.step[OF assms section_step.commit_last] r' by blast
    then have "quiet r0 (fst (publish_scope_finish q r'))"
      using reach_scope_finish[where k = "scope_key scope" and p = q] by fastforce
    then show ?thesis using r' Some by (simp add: io_bind_def)
  qed
qed

lemma quiet_complete:
  assumes "quiet r0 r"
  shows "quiet r0 (fst (complete b st f outs r))"
proof -
  obtain r1 at where start: "(case f of None \<Rightarrow> (r, None) | Some _ \<Rightarrow> (case utc_now (rec_console r) of
      (c, t) \<Rightarrow> (r\<lparr>rec_console := c\<rparr>, Some t))) = (r1, at)" by (meson surj_pair)
  have "r1 = r \<or> r1 = fst (read_clock r)"
    using start by (auto simp: read_clock_def utc_now_def split: option.splits)
  then have r1: "quiet r0 r1" using assms reachable.step[OF assms section_step.tick] by auto
  have "quiet r0 (fst (register_resources b outs r1))"
    unfolding register_resources_def Let_def
    by (rule quiet_bind) (auto intro!: quiet_each quiet_other r1)
  then have "quiet r0 (fst (io_bind (register_resources b outs) (\<lambda>_. io_bind (finish_step (binding_step b) st f outs)
      (\<lambda>_. io_bind (commit_node (binding_scope b) st f at outs) (\<lambda>p r.
        case p of None \<Rightarrow> (r, Ok ()) | Some p \<Rightarrow> publish_scope_finish p r))) r1))"
    by (intro quiet_bind quiet_finish_step quiet_commit_node)
  then show ?thesis using r1 start by (simp add: complete_def Let_def split: sum.splits)
qed

lemma quiet_starts:
  assumes "quiet r0 r"
  shows "quiet r0 (fst (start_scope b r))" "quiet r0 (fst (start_step b r))"
  by (rule reachable.step[OF assms section_step.start_scope], rule reachable.step[OF assms section_step.start_step])

text \<open>Publishing a list of reserved terminal events uses up their reservations.\<close>

lemma reach_all_steps:
  assumes "reachable r0 (r, sf, tf)" "distinct (map pending_step ps)" "\<And>p. p \<in> set ps \<Longrightarrow> tf (pending_step p) = Some p"
  shows "reachable r0 (fst (io_all publish_step_finish first ps r), sf, tf |` (- pending_step ` set ps))"
  using assms
proof (induction ps arbitrary: r tf first)
  case (Cons p ps)
  let ?tf = "tf(pending_step p := None)"
  have "reachable r0 (fst (publish_step_finish p r), sf, ?tf)"
    using reach_step_finish[OF Cons.prems(1)] Cons.prems(3) by simp
  moreover have "?tf (pending_step q) = Some q" if "q \<in> set ps" for q
  proof -
    have "pending_step q \<noteq> pending_step p" using Cons.prems(2) imageI[OF that, of pending_step] by auto
    then show ?thesis using Cons.prems(3) that by simp
  qed
  moreover have eq: "tf |` (- pending_step ` set (p # ps)) = ?tf |` (- pending_step ` set ps)"
    by (auto simp: restrict_map_def fun_eq_iff)
  ultimately have "reachable r0 (fst (io_all publish_step_finish first' ps (fst (publish_step_finish p r))), sf,
      tf |` (- pending_step ` set (p # ps)))" for first'
    unfolding eq using Cons.prems(2) by (intro Cons.IH) (auto simp del: fun_upd_apply)
  then show ?case by (cases "publish_step_finish p r") (auto split: sum.splits)
qed (simp add: restrict_map_def)

lemma reach_all_scopes:
  assumes "reachable r0 (r, sf, tf)" "distinct (map (scope_key \<circ> pending_scope) ps)"
    "\<And>p. p \<in> set ps \<Longrightarrow> sf (scope_key (pending_scope p)) = Some p"
  shows "reachable r0 (fst (io_all publish_scope_finish first ps r), sf |` (- (scope_key \<circ> pending_scope) ` set ps), tf)"
  using assms
proof (induction ps arbitrary: r sf first)
  case (Cons p ps)
  let ?sf = "sf(scope_key (pending_scope p) := None)"
  have "reachable r0 (fst (publish_scope_finish p r), ?sf, tf)"
    using reach_scope_finish[OF Cons.prems(1)] Cons.prems(3) by simp
  moreover have "?sf (scope_key (pending_scope q)) = Some q" if "q \<in> set ps" for q
  proof -
    have "scope_key (pending_scope q) \<noteq> scope_key (pending_scope p)"
      using Cons.prems(2) imageI[OF that, of "scope_key \<circ> pending_scope"] by auto
    then show ?thesis using Cons.prems(3) that by simp
  qed
  moreover have eq: "sf |` (- (scope_key \<circ> pending_scope) ` set (p # ps)) = ?sf |` (- (scope_key \<circ> pending_scope) ` set ps)"
    by (auto simp: restrict_map_def fun_eq_iff)
  ultimately have "reachable r0 (fst (io_all publish_scope_finish first' ps (fst (publish_scope_finish p r))),
      sf |` (- (scope_key \<circ> pending_scope) ` set (p # ps)), tf)" for first'
    unfolding eq using Cons.prems(2) by (intro Cons.IH) (auto simp del: fun_upd_apply)
  then show ?case by (cases "publish_scope_finish p r") (auto split: sum.splits)
qed (simp add: restrict_map_def)

lemma finish_remaining_sections:
  assumes q: "quiet (recorder_new c run scopes bindings) r" and c: "offered c = []"
  defines "r0 \<equiv> recorder_new c run scopes bindings"
  shows "quiet r0 (fst (recorder_finish_remaining st r))" and "quiet r0 (fst (finish_remaining_steps st r))"
proof -
  have inv: "scopes_ok r Map.empty" "steps_ok r Map.empty" using reachable_ok[OF q c] by simp_all
  obtain r1 ps where r1: "reserve_remaining_steps st r = (r1, ps)" by (cases "reserve_remaining_steps st r")
  let ?tf = "map_of (map (\<lambda>p. (pending_step p, p)) ps)"
  have "reachable r0 (r1, Map.empty, ?tf)"
    using reachable.step[OF q section_step.reserve_steps[OF r1]] by (simp add: r0_def)
  moreover have "map pending_step ps = map fst (filter (\<lambda>(_, s). is_open s) (steps r))"
    using r1 by (auto simp: reserve_remaining_steps_def)
  then have d: "distinct (map pending_step ps)"
    using steps_okD(4)[OF inv(2)] by (auto simp: distinct_map intro: inj_on_subset)
  moreover have "?tf (pending_step p) = Some p" if "p \<in> set ps" for p
    using that d by (intro map_of_is_SomeI) (auto simp: comp_def)
  ultimately have "reachable r0 (fst (io_all publish_step_finish None ps r1), Map.empty, ?tf |` (- pending_step ` set ps))"
    using d by (intro reach_all_steps) simp_all
  moreover have "?tf |` (- pending_step ` set ps) = Map.empty"
    by (auto simp: restrict_map_def fun_eq_iff map_of_eq_None_iff)
  ultimately show steps: "quiet r0 (fst (finish_remaining_steps st r))"
    using r1 by (simp add: finish_remaining_steps_def)
  obtain r2 res where r2: "finish_remaining_steps st r = (r2, res)" by (cases "finish_remaining_steps st r")
  then have q2: "quiet r0 r2" using steps by simp
  then have inv2: "scopes_ok r2 Map.empty" using reachable_ok[of c run scopes bindings] c by (fastforce simp: r0_def)
  obtain r3 qs where r3: "reserve_remaining_scopes st r2 = (r3, qs)" by (cases "reserve_remaining_scopes st r2")
  let ?sf = "map_of (map (\<lambda>p. (scope_key (pending_scope p), p)) qs)"
  have "reachable r0 (r3, ?sf, Map.empty)"
    using reachable.step[OF q2 section_step.reserve_scopes[OF r3]] by simp
  moreover have keys: "map (scope_key \<circ> pending_scope) qs = map fst (filter (\<lambda>(_, s). is_open s) (states r2))"
    using r3 scopes_okD(2)[OF inv2] scopes_okD(5)[OF inv2] by (auto simp: reserve_remaining_scopes_def)
  have d: "distinct (map (scope_key \<circ> pending_scope) qs)"
    unfolding keys using scopes_okD(5)[OF inv2] by (auto simp: distinct_map intro: inj_on_subset)
  moreover have "?sf (scope_key (pending_scope p)) = Some p" if "p \<in> set qs" for p
    using that d by (intro map_of_is_SomeI) (auto simp: comp_def)
  ultimately have "reachable r0 (fst (io_all publish_scope_finish f qs r3),
      ?sf |` (- (scope_key \<circ> pending_scope) ` set qs), Map.empty)" for f
    by (intro reach_all_scopes) simp_all
  moreover have "?sf |` (- (scope_key \<circ> pending_scope) ` set qs) = Map.empty"
    by (auto simp: restrict_map_def fun_eq_iff map_of_eq_None_iff)
  ultimately show "quiet r0 (fst (recorder_finish_remaining st r))"
    using r2 r3 by (simp add: recorder_finish_remaining_def)
qed

section \<open>Declaration\<close>

definition is_planned :: "ConsoleScope \<Rightarrow> 'v ExecutionRecorder \<Rightarrow> bool" where
  "is_planned scope r \<longleftrightarrow>
     (\<exists>s. map_of (states r) (scope_key scope) = Some s \<and> lifecycle s = Planned \<and> key_scope s = scope)"

definition planned_key :: "scope_ident \<Rightarrow> 'v ExecutionRecorder \<Rightarrow> bool" where
  "planned_key k r \<longleftrightarrow> (\<exists>s. map_of (states r) k = Some s \<and> lifecycle s = Planned)"

lemma planned_key_frame: "map_of (states r') k = map_of (states r) k \<Longrightarrow> planned_key k r' = planned_key k r"
  by (simp add: planned_key_def)

lemma is_planned_frame:
  "map_of (states r') (scope_key x) = map_of (states r) (scope_key x) \<Longrightarrow> is_planned x r' = is_planned x r"
  by (simp add: is_planned_def)

lemma declare_scope_effect:
  obtains c where "declare_scope scope r = (set_scope (scope_key scope) (\<lambda>s. s\<lparr>lifecycle := Declared\<rparr>) (r\<lparr>rec_console := c\<rparr>), Inr ())"
  | c m where "declare_scope scope r = (r\<lparr>rec_console := c\<rparr>, Inl m)"
  by (cases rule: publish_cases[of "ScopeDeclared (rec_run_id r) scope" r]) (auto simp: declare_scope_def io_bind_def)

lemma publish_scope_finish_effect:
  "\<exists>f c. fst (publish_scope_finish p r) = set_scope (scope_key (pending_scope p)) f (r\<lparr>rec_console := c\<rparr>) \<and>
     (pending_previous p \<noteq> Planned \<longrightarrow> (\<forall>s. lifecycle (f s) \<noteq> Planned))"
proof (cases rule: publish_cases[of "ScopeFinished (rec_run_id r) (pending_scope p) (pending_status p)" r])
  case (ok c)
  then show ?thesis
    by (auto simp: publish_scope_finish_def io_bind_def read_clock_def utc_now_def
        intro!: exI[of _ "\<lambda>s. s\<lparr>lifecycle := Finished, finished_at := Some (clock c (ticks c))\<rparr>"])
next
  case (rejected c m)
  then show ?thesis
    by (auto simp: publish_scope_finish_def intro!: exI[of _ "\<lambda>s. s\<lparr>lifecycle := pending_previous p\<rparr>"])
qed

lemma declare_one_scope_sections:
  assumes q: "quiet r0 r" and p: "is_planned scope r"
  shows "quiet r0 (fst (declare_one_scope scope r))"
    and "steps (fst (declare_one_scope scope r)) = steps r"
    and "map fst (states (fst (declare_one_scope scope r))) = map fst (states r)"
    and "k \<noteq> scope_key scope \<Longrightarrow> map_of (states (fst (declare_one_scope scope r))) k = map_of (states r) k"
    and "snd (declare_one_scope scope r) = Inr () \<Longrightarrow> \<not> planned_key (scope_key scope) (fst (declare_one_scope scope r))"
proof -
  let ?k = "scope_key scope"
  obtain s where s: "map_of (states r) ?k = Some s" "lifecycle s = Planned" "key_scope s = scope"
    using p by (auto simp: is_planned_def)
  have "quiet r0 (fst (declare_one_scope scope r)) \<and> steps (fst (declare_one_scope scope r)) = steps r \<and>
    map fst (states (fst (declare_one_scope scope r))) = map fst (states r) \<and>
    (\<forall>k. k \<noteq> ?k \<longrightarrow> map_of (states (fst (declare_one_scope scope r))) k = map_of (states r) k) \<and>
    (snd (declare_one_scope scope r) = Inr () \<longrightarrow> \<not> planned_key ?k (fst (declare_one_scope scope r)))"
  proof (cases rule: declare_scope_effect[of scope r])
    case (1 c)
    let ?r = "set_scope ?k (\<lambda>s. s\<lparr>lifecycle := Declared\<rparr>) (r\<lparr>rec_console := c\<rparr>)"
    have q1: "quiet r0 ?r" using reachable.step[OF q section_step.declare_scope[OF s(1,2)]] s(3) 1 by simp
    have s1: "map_of (states ?r) ?k = Some (s\<lparr>lifecycle := Declared\<rparr>)" using s by (simp add: set_scope_def)
    show ?thesis
    proof (cases "is_empty_scope scope ?r")
      case False
      then show ?thesis using 1 q1 s1 by (auto simp: declare_one_scope_def io_bind_def set_scope_def planned_key_def)
    next
      case True
      obtain r2 pd where pd: "reserve_scope scope Skipped ?r = (r2, Inr pd)" "pending_scope pd = scope"
        "pending_previous pd = Declared" "r2 = set_scope ?k (\<lambda>s. s\<lparr>lifecycle := PublishingFinish,
          track_status := max (track_status s) Skipped\<rparr>) ?r"
        using s1 by (simp add: reserve_scope_def)
      have "reachable r0 (r2, Map.empty(?k \<mapsto> pd), Map.empty)"
        using reachable.step[OF q1 section_step.close_empty[OF s1 _ pd(1)]] by simp
      then have q2: "quiet r0 (fst (publish_scope_finish pd r2))" using reach_scope_finish[where k = ?k and p = pd] by fastforce
      obtain f c2 where f: "fst (publish_scope_finish pd r2) = set_scope ?k f (r2\<lparr>rec_console := c2\<rparr>)"
        "\<And>s. lifecycle (f s) \<noteq> Planned"
        using publish_scope_finish_effect[of pd r2] pd(2,3) by auto
      have "declare_one_scope scope r = publish_scope_finish pd r2"
        using 1 True pd(1) by (simp add: declare_one_scope_def finish_scope_def io_bind_def)
      then show ?thesis using q2 f pd(4) s by (auto simp: set_scope_def planned_key_def)
    qed
  next
    case (2 c m)
    then have "quiet r0 (r\<lparr>rec_console := c\<rparr>)"
      using reachable.step[OF q section_step.declare_scope[OF s(1,2)]] s(3) by simp
    then show ?thesis using 2 by (simp add: declare_one_scope_def io_bind_def)
  qed
  then show "quiet r0 (fst (declare_one_scope scope r))"
    "steps (fst (declare_one_scope scope r)) = steps r"
    "map fst (states (fst (declare_one_scope scope r))) = map fst (states r)"
    "k \<noteq> scope_key scope \<Longrightarrow> map_of (states (fst (declare_one_scope scope r))) k = map_of (states r) k"
    "snd (declare_one_scope scope r) = Inr () \<Longrightarrow> \<not> planned_key (scope_key scope) (fst (declare_one_scope scope r))"
    by blast+
qed

lemma declare_scopes_sections:
  assumes "quiet r0 r" "distinct (map scope_key ss)" "\<And>x. x \<in> set ss \<Longrightarrow> is_planned x r"
  shows "quiet r0 (fst (io_each declare_one_scope ss r)) \<and>
    (\<forall>k. k \<notin> scope_key ` set ss \<longrightarrow> map_of (states (fst (io_each declare_one_scope ss r))) k = map_of (states r) k) \<and>
    (snd (io_each declare_one_scope ss r) = Inr () \<longrightarrow>
       (\<forall>k \<in> scope_key ` set ss. \<not> planned_key k (fst (io_each declare_one_scope ss r))))"
  using assms
proof (induction ss arbitrary: r)
  case (Cons x ss)
  note one = declare_one_scope_sections[OF Cons.prems(1) Cons.prems(3)[OF list.set_intros(1)]]
  obtain r1 res where p: "declare_one_scope x r = (r1, res)" by (cases "declare_one_scope x r")
  have x: "scope_key x \<notin> scope_key ` set ss" using Cons.prems(2) by simp
  have keep: "map_of (states r1) k = map_of (states r) k" if "k \<noteq> scope_key x" for k
    using one(4)[OF that] p by simp
  have "is_planned y r1" if y: "y \<in> set ss" for y
  proof -
    have "scope_key y \<noteq> scope_key x" using x imageI[OF y, of scope_key] by metis
    then show ?thesis using is_planned_frame[OF keep] Cons.prems(3)[of y] y by simp
  qed
  then have IH: "quiet r0 (fst (io_each declare_one_scope ss r1)) \<and>
    (\<forall>k. k \<notin> scope_key ` set ss \<longrightarrow> map_of (states (fst (io_each declare_one_scope ss r1))) k = map_of (states r1) k) \<and>
    (snd (io_each declare_one_scope ss r1) = Inr () \<longrightarrow>
       (\<forall>k \<in> scope_key ` set ss. \<not> planned_key k (fst (io_each declare_one_scope ss r1))))"
    using Cons.IH[of r1] Cons.prems(2) one(1) p by simp
  show ?case
  proof (cases res)
    case (Inl e)
    then show ?thesis using p one(1) keep by (simp add: io_bind_def)
  next
    case (Inr u)
    let ?r = "fst (io_each declare_one_scope ss r1)"
    have eq: "io_each declare_one_scope (x # ss) r = io_each declare_one_scope ss r1"
      using p Inr by (simp add: io_bind_def)
    have "planned_key (scope_key x) ?r = planned_key (scope_key x) r1"
      using IH x by (intro planned_key_frame) blast
    then have "\<not> planned_key (scope_key x) ?r" using one(5) p Inr by simp
    moreover have "map_of (states ?r) k = map_of (states r) k" if "k \<notin> scope_key ` set (x # ss)" for k
      using that IH keep[of k] by (cases k) simp
    ultimately show ?thesis unfolding eq using IH by simp
  qed
qed simp

lemma planned_scopes_key:
  assumes "scopes_ok r sf"
  shows "distinct (map scope_key (planned_scopes r))" and "x \<in> set (planned_scopes r) \<longleftrightarrow> is_planned x r"
proof -
  note key = scopes_okD(2)[OF assms] and d = scopes_okD(5)[OF assms]
  have eq: "map scope_key (planned_scopes r) = map fst (filter (\<lambda>(_, s). lifecycle s = Planned) (states r))"
    using key d by (auto simp: planned_scopes_def)
  show "distinct (map scope_key (planned_scopes r))"
    unfolding eq using d by (auto simp: distinct_map intro: inj_on_subset)
  show "x \<in> set (planned_scopes r) \<longleftrightarrow> is_planned x r"
  proof
    assume "x \<in> set (planned_scopes r)"
    then obtain k s where "(k, s) \<in> set (states r)" "lifecycle s = Planned" "key_scope s = x" by (auto simp: planned_scopes_def)
    then show "is_planned x r" using key[of k s] d by (auto simp: is_planned_def)
  next
    assume "is_planned x r"
    then show "x \<in> set (planned_scopes r)" by (force simp: is_planned_def planned_scopes_def dest: map_of_SomeD)
  qed
qed

lemma declare_steps_sections:
  assumes "quiet r0 r" "planned_scopes r = []" "distinct (map fst ss)"
    "\<And>k sc. (k, sc) \<in> set ss \<Longrightarrow> \<exists>s. map_of (steps r) k = Some s \<and> lifecycle s = Planned \<and> owner s = sc"
  shows "quiet r0 (fst (io_each declare_step ss r))"
  using assms
proof (induction ss arbitrary: r)
  case (Cons x ss)
  obtain k sc where x: "x = (k, sc)" by (cases x)
  then obtain s where s: "map_of (steps r) k = Some s" "lifecycle s = Planned" "owner s = sc"
    using Cons.prems(4)[of k sc] by auto
  have q: "quiet r0 (fst (declare_step x r))"
    using reachable.step[OF Cons.prems(1) section_step.declare_step[OF s(1,2) Cons.prems(2)]] s(3) x by simp
  show ?case
  proof (cases rule: publish_cases[of "StepDeclared (rec_run_id r) sc k" r])
    case (ok c)
    let ?r = "set_step k (\<lambda>s. s\<lparr>lifecycle := Declared\<rparr>) (r\<lparr>rec_console := c\<rparr>)"
    have r1: "declare_step x r = (?r, Inr ())" using ok x by (simp add: declare_step_def io_bind_def)
    have "\<exists>s. map_of (steps ?r) k' = Some s \<and> lifecycle s = Planned \<and> owner s = sc'" if "(k', sc') \<in> set ss" for k' sc'
    proof -
      have "k' \<noteq> k" using Cons.prems(3) x imageI[OF that, of fst] by auto
      then show ?thesis using Cons.prems(4)[of k' sc'] that by (simp add: set_step_def)
    qed
    moreover have "quiet r0 ?r" using q r1 by simp
    moreover have "planned_scopes ?r = []" using Cons.prems(2) by (simp add: planned_scopes_def set_step_def)
    ultimately have "quiet r0 (fst (io_each declare_step ss ?r))" using Cons.IH Cons.prems(3) by simp
    then show ?thesis using r1 by (simp add: io_bind_def)
  next
    case (rejected c m)
    then show ?thesis using q x by (simp add: declare_step_def io_bind_def)
  qed
qed simp

lemma declare_sections:
  assumes q: "quiet (recorder_new c run scopes bindings) r" and c: "offered c = []"
  defines "r0 \<equiv> recorder_new c run scopes bindings"
  shows "quiet r0 (fst (recorder_declare r))"
proof -
  have q0: "quiet r0 r" using q by (simp add: r0_def)
  have inv: "scopes_ok r Map.empty" using reachable_ok[OF q c] by simp
  obtain r1 res where r1: "io_each declare_one_scope (planned_scopes r) r = (r1, res)" by (meson surj_pair)
  note d = declare_scopes_sections[OF q0 planned_scopes_key(1)[OF inv]] 
  have D: "quiet r0 r1" "\<And>k. k \<notin> scope_key ` set (planned_scopes r) \<Longrightarrow> map_of (states r1) k = map_of (states r) k"
    "res = Inr () \<Longrightarrow> \<forall>k \<in> scope_key ` set (planned_scopes r). \<not> planned_key k r1"
    using d planned_scopes_key(2)[OF inv] r1 by auto
  show ?thesis
  proof (cases res)
    case (Inr u)
    have inv1: "scopes_ok r1 Map.empty" "steps_ok r1 Map.empty"
      using reachable_ok[of c run scopes bindings "(r1, Map.empty, Map.empty)"] D(1) c by (simp_all add: r0_def)
    have "\<not> is_planned x r1" for x
    proof (cases "scope_key x \<in> scope_key ` set (planned_scopes r)")
      case True
      then show ?thesis using D(3) Inr by (auto simp: is_planned_def planned_key_def)
    next
      case False
      then show ?thesis using is_planned_frame[OF D(2)[OF False]] planned_scopes_key(2)[OF inv, of x] by auto
    qed
    then have "planned_scopes r1 = []" using planned_scopes_key(2)[OF inv1(1)] by (metis all_not_in_conv set_empty)
    moreover have "distinct (map fst (planned_steps r1))"
      using steps_okD(4)[OF inv1(2)] by (auto simp: planned_steps_def comp_def case_prod_beta distinct_map intro: inj_on_subset)
    ultimately have "quiet r0 (fst (io_each declare_step (planned_steps r1) r1))"
      using steps_okD(4)[OF inv1(2)] by (intro declare_steps_sections[OF D(1)]) (auto simp: planned_steps_def)
    then show ?thesis using r1 Inr by (simp add: recorder_declare_def io_bind_def)
  next
    case (Inl e)
    then show ?thesis using D(1) r1 by (simp add: recorder_declare_def io_bind_def)
  qed
qed


section \<open>Shutdown\<close>

definition accepts :: "'v ExecutionRecorder \<Rightarrow> bool" where
  "accepts r \<longleftrightarrow> (\<forall>h e. answer (rec_console r) h e = None)"

lemma accepts_frame [simp]: "accepts (set_scope k f r) = accepts r" "accepts (set_step k' g r) = accepts r"
  "accepts (r\<lparr>states := m\<rparr>) = accepts r" "accepts (r\<lparr>steps := m'\<rparr>) = accepts r"
  by (simp_all add: accepts_def set_scope_def set_step_def)

lemma publish_accepted:
  assumes "accepts r"
  obtains c where "publish e r = (r\<lparr>rec_console := c\<rparr>, Inr ())" "accepts (r\<lparr>rec_console := c\<rparr>)"
  using assms by (simp add: publish_def console_event_def emit_def accepts_def)

lemma read_clock_accepted:
  assumes "accepts r"
  obtains c t where "read_clock r = (r\<lparr>rec_console := c\<rparr>, Inr t)" "accepts (r\<lparr>rec_console := c\<rparr>)"
  using assms by (simp add: read_clock_def utc_now_def accepts_def)

lemma publish_scope_finish_accepted:
  assumes "accepts r"
  obtains c t where "publish_scope_finish p r =
      (set_scope (scope_key (pending_scope p)) (\<lambda>s. s\<lparr>lifecycle := Finished, finished_at := Some t\<rparr>) (r\<lparr>rec_console := c\<rparr>), Inr ())"
    "accepts (r\<lparr>rec_console := c\<rparr>)"
proof -
  obtain c where c: "publish (ScopeFinished (rec_run_id r) (pending_scope p) (pending_status p)) r = (r\<lparr>rec_console := c\<rparr>, Inr ())"
    "accepts (r\<lparr>rec_console := c\<rparr>)" using publish_accepted[OF assms] .
  obtain c' t where "read_clock (r\<lparr>rec_console := c\<rparr>) = (r\<lparr>rec_console := c'\<rparr>, Inr t)" "accepts (r\<lparr>rec_console := c'\<rparr>)"
    by (rule read_clock_accepted[OF c(2)]) simp
  then show thesis using that c(1) by (simp add: publish_scope_finish_def io_bind_def)
qed

lemma publish_step_finish_accepted:
  assumes "accepts r"
  obtains c t where "publish_step_finish p r =
      (set_step (pending_step p) (\<lambda>s. s\<lparr>lifecycle := Finished, finished_at := Some t\<rparr>) (r\<lparr>rec_console := c\<rparr>), Inr ())"
    "accepts (r\<lparr>rec_console := c\<rparr>)"
proof -
  obtain c where c: "publish (StepFinished (rec_run_id r) (pending_step_scope p) (pending_step p) (pending_step_status p)) r =
      (r\<lparr>rec_console := c\<rparr>, Inr ())"
    "accepts (r\<lparr>rec_console := c\<rparr>)" using publish_accepted[OF assms] .
  obtain c' t where "read_clock (r\<lparr>rec_console := c\<rparr>) = (r\<lparr>rec_console := c'\<rparr>, Inr t)" "accepts (r\<lparr>rec_console := c'\<rparr>)"
    by (rule read_clock_accepted[OF c(2)]) simp
  then show thesis using that c(1) by (simp add: publish_step_finish_def io_bind_def Let_def)
qed

lemma publish_scopes_accepted:
  assumes "accepts r"
  shows "\<exists>r'. io_all publish_scope_finish None ps r = (r', Inr ()) \<and> steps r' = steps r \<and>
    map fst (states r') = map fst (states r) \<and>
    (\<forall>k s. map_of (states r') k = Some s \<longrightarrow> finished_at s \<noteq> None \<or>
       k \<notin> (scope_key \<circ> pending_scope) ` set ps \<and> map_of (states r) k = Some s)"
  using assms
proof (induction ps arbitrary: r)
  case (Cons p ps)
  let ?k = "scope_key (pending_scope p)"
  obtain c t where p: "publish_scope_finish p r =
      (set_scope ?k (\<lambda>s. s\<lparr>lifecycle := Finished, finished_at := Some t\<rparr>) (r\<lparr>rec_console := c\<rparr>), Inr ())"
    and a: "accepts (r\<lparr>rec_console := c\<rparr>)"
    using publish_scope_finish_accepted[OF Cons.prems] .
  let ?r = "set_scope ?k (\<lambda>s. s\<lparr>lifecycle := Finished, finished_at := Some t\<rparr>) (r\<lparr>rec_console := c\<rparr>)"
  obtain r' where r': "io_all publish_scope_finish None ps ?r = (r', Inr ())" "steps r' = steps ?r"
    "map fst (states r') = map fst (states ?r)"
    "\<forall>k s. map_of (states r') k = Some s \<longrightarrow> finished_at s \<noteq> None \<or>
       k \<notin> (scope_key \<circ> pending_scope) ` set ps \<and> map_of (states ?r) k = Some s"
    using Cons.IH[of ?r] a by auto
  have "finished_at s \<noteq> None \<or> k \<notin> (scope_key \<circ> pending_scope) ` set (p # ps) \<and> map_of (states r) k = Some s"
    if "map_of (states r') k = Some s" for k s
    using r'(4)[rule_format, OF that] by (cases "k = ?k") (auto simp: set_scope_def)
  then show ?case using p r' by (auto simp: set_scope_def)
qed simp

lemma publish_steps_accepted:
  assumes "accepts r"
  shows "\<exists>r'. io_all publish_step_finish None ps r = (r', Inr ()) \<and> states r' = states r \<and> accepts r' \<and>
    map fst (steps r') = map fst (steps r) \<and>
    (\<forall>k s. map_of (steps r') k = Some s \<longrightarrow> finished_at s \<noteq> None \<or>
       k \<notin> pending_step ` set ps \<and> map_of (steps r) k = Some s)"
  using assms
proof (induction ps arbitrary: r)
  case (Cons p ps)
  let ?k = "pending_step p"
  obtain c t where p: "publish_step_finish p r =
      (set_step ?k (\<lambda>s. s\<lparr>lifecycle := Finished, finished_at := Some t\<rparr>) (r\<lparr>rec_console := c\<rparr>), Inr ())"
    and a: "accepts (r\<lparr>rec_console := c\<rparr>)"
    using publish_step_finish_accepted[OF Cons.prems] .
  let ?r = "set_step ?k (\<lambda>s. s\<lparr>lifecycle := Finished, finished_at := Some t\<rparr>) (r\<lparr>rec_console := c\<rparr>)"
  obtain r' where r': "io_all publish_step_finish None ps ?r = (r', Inr ())" "states r' = states ?r" "accepts r'"
    "map fst (steps r') = map fst (steps ?r)"
    "\<forall>k s. map_of (steps r') k = Some s \<longrightarrow> finished_at s \<noteq> None \<or>
       k \<notin> pending_step ` set ps \<and> map_of (steps ?r) k = Some s"
    using Cons.IH[of ?r] a by auto
  have "finished_at s \<noteq> None \<or> k \<notin> pending_step ` set (p # ps) \<and> map_of (steps r) k = Some s"
    if "map_of (steps r') k = Some s" for k s
    using r'(5)[rule_format, OF that] by (cases "k = ?k") (auto simp: set_step_def)
  then show ?case using p r' by (auto simp: set_step_def)
qed simp

lemma tracked_ok_closed:
  "tracked_ok ms None s \<Longrightarrow> \<not> is_open s \<Longrightarrow> lifecycle s \<noteq> Planned \<Longrightarrow> finished_at s \<noteq> None"
  by (cases "lifecycle s") (auto simp: tracked_ok_def is_open_def)

lemma finish_remaining_finishes:
  assumes inv: "scopes_ok r Map.empty" "steps_ok r Map.empty" and a: "accepts r"
    and p: "\<And>k s. map_of (states r) k = Some s \<Longrightarrow> lifecycle s \<noteq> Planned"
      "\<And>k s. map_of (steps r) k = Some s \<Longrightarrow> lifecycle s \<noteq> Planned"
  shows "\<exists>r'. recorder_finish_remaining st r = (r', Ok ()) \<and> map fst (states r') = map fst (states r) \<and>
    (\<forall>k s. map_of (states r') k = Some s \<longrightarrow> finished_at s \<noteq> None) \<and>
    (\<forall>k s. map_of (steps r') k = Some s \<longrightarrow> finished_at s \<noteq> None)"
proof -
  let ?r1 = "fst (reserve_remaining_steps st r)" and ?ps = "snd (reserve_remaining_steps st r)"
  have r1: "?r1 = r\<lparr>steps := map (\<lambda>(k, s). (k, reserve_open st s)) (steps r)\<rparr>"
    and keys: "pending_step ` set ?ps = {k. \<exists>s. (k, s) \<in> set (steps r) \<and> is_open s}"
    by (auto simp: reserve_remaining_steps_def image_iff)
  obtain r2 where r2: "io_all publish_step_finish None ?ps ?r1 = (r2, Inr ())" "states r2 = states r" "accepts r2"
    "\<forall>k s. map_of (steps r2) k = Some s \<longrightarrow> finished_at s \<noteq> None \<or>
       k \<notin> pending_step ` set ?ps \<and> map_of (steps ?r1) k = Some s"
    using publish_steps_accepted[of ?r1 ?ps] a r1 by auto
  have steps: "finished_at s \<noteq> None" if s: "map_of (steps r2) k = Some s" for k s
  proof (rule ccontr)
    assume n: "\<not> finished_at s \<noteq> None"
    then have k: "k \<notin> pending_step ` set ?ps" "map_of (steps ?r1) k = Some s" using r2(4) s by blast+
    obtain s0 where s0: "map_of (steps r) k = Some s0" "s = reserve_open st s0"
      using k(2) unfolding r1 by (auto simp: map_of_map_snd)
    have "\<not> is_open s0" using k(1) keys map_of_SomeD[OF s0(1)] by blast
    then have "finished_at s0 \<noteq> None"
      using tracked_ok_closed steps_okD(2)[OF inv(2) s0(1)] p(2)[OF s0(1)] by (fastforce simp: step_flight_def)
    then show False using n s0(2) \<open>\<not> is_open s0\<close> by (simp add: reserve_open_def)
  qed
  let ?r3 = "fst (reserve_remaining_scopes st r2)" and ?qs = "snd (reserve_remaining_scopes st r2)"
  have r3: "?r3 = r2\<lparr>states := map (\<lambda>(k, s). (k, reserve_open st s)) (states r)\<rparr>"
    using r2(2) by (simp add: reserve_remaining_scopes_def)
  have qkeys: "k \<in> (scope_key \<circ> pending_scope) ` set ?qs" if "map_of (states r) k = Some s" "is_open s" for k s
  proof -
    have "(k, s) \<in> set (filter (\<lambda>(_, s). is_open s) (states r2))" using that map_of_SomeD[OF that(1)] r2(2) by simp
    then have "\<lparr>pending_scope = key_scope s, pending_status = max (track_status s)
        (remaining_status st (lifecycle s)), pending_previous = lifecycle s\<rparr> \<in> set ?qs"
      by (simp add: reserve_remaining_scopes_def) (rule image_eqI[of _ _ "(k, s)"], auto)
    from imageI[OF this, of "scope_key \<circ> pending_scope"] show ?thesis
      using scopes_okD(2)[OF inv(1) that(1)] by simp
  qed
  obtain r4 where r4: "io_all publish_scope_finish None ?qs ?r3 = (r4, Inr ())" "steps r4 = steps r2"
    "map fst (states r4) = map fst (states ?r3)"
    "\<forall>k s. map_of (states r4) k = Some s \<longrightarrow> finished_at s \<noteq> None \<or>
       k \<notin> (scope_key \<circ> pending_scope) ` set ?qs \<and> map_of (states ?r3) k = Some s"
    using publish_scopes_accepted[of ?r3 ?qs] r2(3) r3 by (auto simp del: split_paired_All)
  have states: "finished_at s \<noteq> None" if s: "map_of (states r4) k = Some s" for k s
  proof (rule ccontr)
    assume n: "\<not> finished_at s \<noteq> None"
    then have k: "k \<notin> (scope_key \<circ> pending_scope) ` set ?qs" "map_of (states ?r3) k = Some s"
      using r4(4) s by blast+
    obtain s0 where s0: "map_of (states r) k = Some s0" "s = reserve_open st s0"
      using k(2) unfolding r3 by (auto simp: map_of_map_snd)
    have "\<not> is_open s0" using k(1) qkeys[OF s0(1)] by blast
    then have "finished_at s0 \<noteq> None"
      using tracked_ok_closed scopes_okD(3)[OF inv(1) s0(1)] p(1)[OF s0(1)] by (fastforce simp: scope_flight_def)
    then show False using n s0(2) \<open>\<not> is_open s0\<close> by (simp add: reserve_open_def)
  qed
  have "recorder_finish_remaining st r = (r4, Ok ())"
    using r2(1) r4(1) by (simp add: recorder_finish_remaining_def finish_remaining_steps_def split_beta)
  moreover have "map fst (states r4) = map fst (states r)" using r4(3) r3 by (simp add: comp_def split_beta)
  ultimately show ?thesis using states steps r4(2) by auto
qed

text \<open>
  C30.  Shutdown completes every lifecycle.  After everything has been declared, from any reachable
  state without a terminal event in flight, and with a console that accepts, \<open>finish_remaining\<close>
  succeeds, and the results of the run can then be formed.
\<close>

theorem shutdown_completes:
  assumes "reachable (recorder_new c run scopes bindings) (r, Map.empty, Map.empty)" "offered c = []"
    and "one_allocator r" "\<And>h e. answer (rec_console r) h e = None"
    and "\<And>k s. map_of (states r) k = Some s \<Longrightarrow> lifecycle s \<noteq> Planned"
    and "\<And>k s. map_of (steps r) k = Some s \<Longrightarrow> lifecycle s \<noteq> Planned"
  shows "\<exists>r' ts. recorder_finish_remaining st r = (r', Ok ()) \<and> results r' = Ok ts"
proof -
  have inv: "scopes_ok r Map.empty" "steps_ok r Map.empty" using reachable_ok[OF assms(1,2)] by simp_all
  have a: "accepts r" using assms(4) by (simp add: accepts_def)
  obtain r' where r': "recorder_finish_remaining st r = (r', Ok ())" "map fst (states r') = map fst (states r)"
    "\<forall>k s. map_of (states r') k = Some s \<longrightarrow> finished_at s \<noteq> None"
    "\<forall>k s. map_of (steps r') k = Some s \<longrightarrow> finished_at s \<noteq> None"
    using finish_remaining_finishes[OF inv a, where st = st] assms(5,6) by metis
  have "quiet (recorder_new c run scopes bindings) r'"
    using finish_remaining_sections(1)[OF assms(1,2), of st] r'(1) by simp
  then have inv': "scopes_ok r' Map.empty" "steps_ok r' Map.empty" using reachable_ok[OF _ assms(2)] by fastforce+
  have one: "one_allocator r'" using assms(3) r'(2) unfolding one_allocator_def by (metis list.set_map)
  have "\<forall>e \<in> set (states r'). finished_at (snd e) \<noteq> None"
    using r'(3) scopes_okD(5)[OF inv'(1)] by (metis map_of_is_SomeI prod.collapse)
  moreover have "\<forall>e \<in> set (steps r'). finished_at (snd e) \<noteq> None"
    using r'(4) steps_okD(4)[OF inv'(2)] by (metis map_of_is_SomeI prod.collapse)
  ultimately show ?thesis using r'(1) results_eq[OF inv'(1) one] by blast
qed

section \<open>A sample run\<close>

definition open_console :: Console where
  "open_console = \<lparr>answer = (\<lambda>_ _. None), offered = [], clock = id, ticks = 0\<rparr>"

definition sample_scope :: ConsoleScope where
  "sample_scope = \<lparr>allocator_id = 1, scope_id = 0, parent_task_id = None, scope_label = ''build'',
     scope_prefix = None, render_mode = None, hide_stdout = False, hide_stderr = False\<rparr>"

definition sample_step :: ConsoleStep where
  "sample_step = \<lparr>step_allocator_id = 1, step_id = 0, step_parent_task_id = 0, step_label = ''shell''\<rparr>"

definition sample_recorder :: "unit ExecutionRecorder" where
  "sample_recorder = recorder_new open_console 7 [sample_scope]
     [\<lparr>binding_scope = sample_scope, binding_step = Some sample_step\<rparr>]"

definition declared_sample :: "unit ExecutionRecorder" where
  "declared_sample = fst (recorder_declare sample_recorder)"

lemma quiet_declared_sample: "quiet sample_recorder declared_sample"
  unfolding declared_sample_def sample_recorder_def
  by (rule declare_sections[OF reachable.start]) (simp add: open_console_def)

lemmas sample_defs =
  declared_sample_def sample_recorder_def open_console_def recorder_new_def recorder_declare_def
  default_scope_state_def new_step_state_def io_bind_def planned_scopes_def planned_steps_def
  declare_one_scope_def declare_scope_def declare_step_def is_empty_scope_def publish_def console_event_def emit_def
  set_scope_def set_step_def modify_def

lemma declared_sample_entries:
  "map_of (states declared_sample) k = Some s \<Longrightarrow> lifecycle s = Declared"
  "map_of (steps declared_sample) stp = Some t \<Longrightarrow> lifecycle t = Declared"
  "one_allocator declared_sample" "answer (rec_console declared_sample) h e = None"
  "accepted (rec_console declared_sample) = [ScopeDeclared 7 sample_scope, StepDeclared 7 sample_scope sample_step]"
  by (auto simp: sample_defs one_allocator_def accepted_def map_filter_simps split: if_splits)



theorem shutdown_completes_witness:
  "\<exists>r' ts. recorder_finish_remaining Cancelled declared_sample = (r', Ok ()) \<and> results r' = Ok ts"
  by (rule shutdown_completes[OF quiet_declared_sample[unfolded sample_recorder_def]])
     (use declared_sample_entries in \<open>auto simp: open_console_def\<close>)

definition finished_sample :: "unit ExecutionRecorder" where
  "finished_sample = fst (recorder_finish_remaining Cancelled declared_sample)"

lemma quiet_finished_sample: "quiet sample_recorder finished_sample"
  unfolding finished_sample_def sample_recorder_def
  by (rule finish_remaining_sections[OF quiet_declared_sample[unfolded sample_recorder_def]]) (simp add: open_console_def)

lemma finished_sample_results:
  "one_allocator finished_sample" "\<exists>ts. results finished_sample = Ok ts"
  by (simp_all add: finished_sample_def recorder_finish_remaining_def finish_remaining_steps_def
      reserve_remaining_steps_def reserve_remaining_scopes_def is_open_def reserve_open_def sample_defs
      publish_step_finish_def publish_scope_finish_def read_clock_def utc_now_def one_allocator_def
      results_def group_step_def step_result_def Let_def)


end
