(* ===== verification/Scheduler.thy ===== *)
theory Scheduler
  imports Task_Outputs
begin

text \<open>
  The scheduler of \<^verbatim>\<open>crates/octa-executor/src/executor.rs\<close> with the runtime lock of
  \<^verbatim>\<open>interactive_scope_tracker.rs\<close> and \<^verbatim>\<open>runtime_coordinator.rs\<close>.  The receiving loop and the spawned
  node tasks run concurrently; each piece of code between two points where another task can
  observe or change the shared state is one operation on the state, and \<open>step\<close> interleaves them.
  A node is its identifier, which is how the task nodes implement equality.  What the program
  does not decide is left open by the relation: the outcome of a task, a rejected output event,
  the order of the events, the moment the caller cancels.
\<close>

section \<open>Plans\<close>

text \<open>What the scheduler asks of a node (trait \<open>TaskItem\<close>).\<close>

record TaskItem =
  item_name :: string
  dependency_name :: string
  is_internal :: bool
  contributes_run_output :: bool
  item_failfast :: bool
  requires_concurrency_permit :: bool
  requires_runtime_lock :: bool
  interactive_session :: "string option"
  execution_binding :: bool

record 'p DeferredAction =
  action_command :: string
  action_plan :: 'p
  order :: nat
  registered_after :: "string list"

text \<open>The immutable part of the executor context.\<close>

record 'p ExecutorContext =
  dag :: "string DAG"
  item :: "string \<Rightarrow> TaskItem"
  deferred :: "(string \<times> 'p DeferredAction) list"
  failfast :: bool
  concurrency :: "nat option"

definition is_deferred :: "'p ExecutorContext \<Rightarrow> string \<Rightarrow> bool" where
  "is_deferred ctx t \<longleftrightarrow> map_of (deferred ctx) t \<noteq> None"

abbreviation dependants :: "'p ExecutorContext \<Rightarrow> string \<Rightarrow> string list" where
  "dependants ctx \<equiv> deps_of id (dag ctx)"

section \<open>The shared state\<close>

record InteractiveState =
  remaining :: nat
  guard :: bool

type_synonym tracker = "(string \<times> InteractiveState) list"

text \<open>
  Where a spawned node task is: waiting for the runtime lock, for a permit, before its step is
  started, executing, in the middle of \<open>handle_error\<close>, publishing its result to the dependants
  that remain, sending the dependants that became ready, between the increment of the counter and
  the send, in \<open>complete_scope\<close>, giving back the runtime lock, finished, or unwound by a panic.
\<close>

datatype 'v publication = Inherited "'v deps_result" | Published string "'v DependencyResult"

datatype 'v phase =
    Entering
  | Waiting
  | Starting
  | Executing
  | Failing ExecutorError
  | Publishing "'v publication" string "string list"
  | Sending string "string list"
  | Delivering string string "string list"
  | Closing "(ExecutorError, string) result"
  | Leaving "(ExecutorError, string) result"
  | Returned "(ExecutorError, string) result"
  | Panicked

record 'v sched =
  in_degree :: in_degree
  queue :: "string list"
  receiving :: bool
  active :: nat
  completed :: "string set"
  finished :: bool
  cancelled :: bool
  caller_cancelled :: bool
  available :: "nat option"
  permitted :: "string set"
  shared :: "string set"
  exclusive :: bool
  sessions :: tracker
  phase :: "string \<Rightarrow> 'v phase option"
  deps_res :: "string \<Rightarrow> 'v deps_result"

definition set_phase :: "string \<Rightarrow> 'v phase \<Rightarrow> 'v sched \<Rightarrow> 'v sched" where
  "set_phase t ph s = s\<lparr>phase := (phase s)(t \<mapsto> ph)\<rparr>"

section \<open>The runtime lock\<close>

definition tracker_new :: "(string option \<times> bool) list \<Rightarrow> tracker" where
  "tracker_new ns =
     foldl (\<lambda>m (session, needs_lock).
        case session of
          Some sess \<Rightarrow> if needs_lock
            then entry_update sess \<lparr>remaining = 0, guard = False\<rparr> (\<lambda>st. st\<lparr>remaining := remaining st + 1\<rparr>) m
            else m
        | None \<Rightarrow> m) [] ns"

definition tracker_of :: "'p ExecutorContext \<Rightarrow> tracker" where
  "tracker_of ctx =
     tracker_new (map (\<lambda>n. (interactive_session (item ctx n), requires_runtime_lock (item ctx n)))
       (nodes (dag ctx)))"

text \<open>
  \<open>enter\<close> ends at once, waits (no value), or panics because the session is unknown.  The lock is
  a readers-writer lock: shared guards exclude the exclusive one.
\<close>

definition enter :: "'p ExecutorContext \<Rightarrow> string \<Rightarrow> 'v sched \<Rightarrow> 'v sched option" where
  "enter ctx t s =
     (if \<not> requires_runtime_lock (item ctx t) then Some (set_phase t Waiting s)
      else case interactive_session (item ctx t) of
        None \<Rightarrow>
          if exclusive s then None
          else Some (set_phase t Waiting (s\<lparr>shared := insert t (shared s)\<rparr>))
      | Some sess \<Rightarrow>
          (case map_of (sessions s) sess of
             None \<Rightarrow> Some (set_phase t Panicked s)
           | Some st \<Rightarrow>
               if guard st then Some (set_phase t Waiting s)
               else if exclusive s \<or> shared s \<noteq> {} then None
               else Some (set_phase t Waiting
                 (s\<lparr>exclusive := True,
                    sessions := entry_update sess st (\<lambda>st. st\<lparr>guard := True\<rparr>) (sessions s)\<rparr>))))"

definition tracker_complete :: "'p ExecutorContext \<Rightarrow> string \<Rightarrow> 'v sched \<Rightarrow> 'v sched" where
  "tracker_complete ctx t s =
     (if \<not> requires_runtime_lock (item ctx t) then s
      else case interactive_session (item ctx t) of
        None \<Rightarrow> s
      | Some sess \<Rightarrow>
          (case map_of (sessions s) sess of
             None \<Rightarrow> s
           | Some st \<Rightarrow>
               if remaining st - 1 = 0
               then s\<lparr>sessions := entry_update sess st (\<lambda>st. \<lparr>remaining = 0, guard = False\<rparr>) (sessions s),
                      exclusive := exclusive s \<and> \<not> guard st\<rparr>
               else s\<lparr>sessions := entry_update sess st (\<lambda>st. st\<lparr>remaining := remaining st - 1\<rparr>) (sessions s)\<rparr>))"

definition finish_remaining :: "'v sched \<Rightarrow> 'v sched" where
  "finish_remaining s =
     s\<lparr>sessions := map (\<lambda>(sess, st). (sess, st\<lparr>guard := False\<rparr>)) (sessions s),
       exclusive := exclusive s \<and> \<not> list_ex (\<lambda>(_, st). guard st) (sessions s)\<rparr>"

section \<open>Starting a plan\<close>

definition node_degree_bump :: "in_degree \<Rightarrow> string \<Rightarrow> (ExecutorError, in_degree) result" where
  "node_degree_bump m n = (case bump n m of Inl _ \<Rightarrow> Err (TaskNotFound n) | Inr m' \<Rightarrow> Ok m')"

definition initialize_in_degrees :: "'p ExecutorContext \<Rightarrow> in_degree \<Rightarrow> (ExecutorError, in_degree) result" where
  "initialize_in_degrees ctx m = try_fold node_degree_bump m (concat (map snd (edges (dag ctx))))"

text \<open>The state of \<open>Executor::new\<close> after \<open>create_task_channel\<close>.\<close>

definition new_sched :: "'p ExecutorContext \<Rightarrow> 'v sched" where
  "new_sched ctx =
     \<lparr>in_degree = foldl (\<lambda>m n. entry_update n 0 (\<lambda>_. 0) m) [] (nodes (dag ctx)),
      queue = [], receiving = True, active = 0, completed = {}, finished = False, cancelled = False,
      caller_cancelled = False, available = concurrency ctx, permitted = {}, shared = {},
      exclusive = False, sessions = tracker_of ctx, phase = (\<lambda>_. None), deps_res = (\<lambda>_. [])\<rparr>"

definition initial_tasks :: "'p ExecutorContext \<Rightarrow> in_degree \<Rightarrow> string list" where
  "initial_tasks ctx m = filter (\<lambda>n. \<not> is_deferred ctx n \<and> map_of m n = Some 0) (nodes (dag ctx))"

definition schedule_initial_tasks :: "'p ExecutorContext \<Rightarrow> 'v sched \<Rightarrow> 'v sched" where
  "schedule_initial_tasks ctx s =
     (let initial = initial_tasks ctx (in_degree s)
      in s\<lparr>active := active s + length initial, queue := queue s @ initial,
           finished := finished s \<or> initial = []\<rparr>)"

definition start_plan :: "'p ExecutorContext \<Rightarrow> (ExecutorError, 'v sched) result" where
  "start_plan ctx =
     and_then (initialize_in_degrees ctx (in_degree (new_sched ctx :: 'v sched))) (\<lambda>m.
       Ok (schedule_initial_tasks ctx (new_sched ctx\<lparr>in_degree := m\<rparr>)))"

definition channel_capacity :: "'p ExecutorContext \<Rightarrow> nat" where
  "channel_capacity ctx = max 1 (node_count (dag ctx))"

section \<open>The operations of the receiving loop\<close>

definition spawn_task :: "string \<Rightarrow> 'v sched \<Rightarrow> 'v sched" where
  "spawn_task t s = set_phase t Entering (s\<lparr>queue := tl (queue s)\<rparr>)"

text \<open>The loop ends and the receiver is dropped together with what the channel still holds.\<close>

definition stop_receiving :: "'v sched \<Rightarrow> 'v sched" where
  "stop_receiving s = s\<lparr>receiving := False, queue := []\<rparr>"

definition cancel_caller :: "'v sched \<Rightarrow> 'v sched" where
  "cancel_caller s = s\<lparr>caller_cancelled := True, cancelled := True\<rparr>"

section \<open>The operations of a node task\<close>

text \<open>\<open>acquire_permit\<close> when it succeeds; it waits while no permit is available.\<close>

definition needs_permit :: "'p ExecutorContext \<Rightarrow> string \<Rightarrow> bool" where
  "needs_permit ctx t \<longleftrightarrow> requires_concurrency_permit (item ctx t) \<and> concurrency ctx \<noteq> None"

definition acquire_permit :: "'p ExecutorContext \<Rightarrow> string \<Rightarrow> 'v sched \<Rightarrow> 'v sched option" where
  "acquire_permit ctx t s =
     (if \<not> needs_permit ctx t then Some (set_phase t Starting s)
      else case available s of
        Some (Suc n) \<Rightarrow>
          Some (set_phase t Starting (s\<lparr>available := Some n, permitted := insert t (permitted s)\<rparr>))
      | _ \<Rightarrow> None)"

text \<open>Reaching a deferred barrier consumes its cleanup action before the nested plan runs.\<close>

definition begin_node :: "'p ExecutorContext \<Rightarrow> string \<Rightarrow> 'v sched \<Rightarrow> 'v sched" where
  "begin_node ctx t s =
     set_phase t Executing
       (if is_deferred ctx t then s\<lparr>completed := insert t (completed s)\<rparr> else s)"

text \<open>\<open>handle_error\<close>: first the execution token, then the \<open>finished\<close> token.\<close>

definition raise_error :: "'p ExecutorContext \<Rightarrow> string \<Rightarrow> ExecutorError \<Rightarrow> 'v sched \<Rightarrow> 'v sched" where
  "raise_error ctx t e s =
     set_phase t (Failing e)
       (s\<lparr>cancelled := cancelled s \<or> failfast ctx \<or> item_failfast (item ctx t)\<rparr>)"

definition finish_error :: "string \<Rightarrow> ExecutorError \<Rightarrow> 'v sched \<Rightarrow> 'v sched" where
  "finish_error t e s = set_phase t (Closing (Err e)) (s\<lparr>finished := True\<rparr>)"

definition publication_of ::
    "'p ExecutorContext \<Rightarrow> string \<Rightarrow> string \<Rightarrow> 'v TaskOutputs \<Rightarrow> 'v deps_result \<Rightarrow> 'v publication" where
  "publication_of ctx t stdout outs inherited =
     (if is_internal (item ctx t) then Inherited inherited
      else Published (dependency_name (item ctx t))
        (case map_of inherited (dependency_name (item ctx t)) of
           None \<Rightarrow> \<lparr>dep_stdout = stdout, dep_outputs = outs\<rparr>
         | Some previous \<Rightarrow> merge_missing \<lparr>dep_stdout = stdout, dep_outputs = outs\<rparr> previous))"

definition handle_success ::
    "'p ExecutorContext \<Rightarrow> string \<Rightarrow> string \<Rightarrow> 'v TaskOutputs \<Rightarrow> 'v sched \<Rightarrow> 'v sched" where
  "handle_success ctx t stdout outs s =
     (if cancelled s then set_phase t (Closing (Ok '''')) s
      else
        let s' = s\<lparr>completed := insert t (completed s)\<rparr>
        in case map_of (edges (dag ctx)) t of
             None \<Rightarrow> set_phase t (Sending stdout []) s'
           | Some deps \<Rightarrow>
               set_phase t (Publishing (publication_of ctx t stdout outs (deps_res s t)) stdout deps) s')"

definition publish_to :: "'v publication \<Rightarrow> 'v deps_result \<Rightarrow> 'v deps_result" where
  "publish_to pub res =
     (case pub of Inherited inherited \<Rightarrow> bypass_result inherited res | Published name r \<Rightarrow> set_result name r res)"

definition publish_one ::
    "string \<Rightarrow> 'v publication \<Rightarrow> string \<Rightarrow> string \<Rightarrow> string list \<Rightarrow> 'v sched \<Rightarrow> 'v sched" where
  "publish_one t pub stdout d ds s =
     set_phase t (Publishing pub stdout ds)
       (s\<lparr>deps_res := (deps_res s)(d := publish_to pub (deps_res s d))\<rparr>)"

text \<open>
  Lowering the counts of the dependants under the lock.  An unknown dependant is an error and a
  count below zero a panic; neither happens on a well-formed graph.
\<close>

definition release_dependants :: "'p ExecutorContext \<Rightarrow> string \<Rightarrow> string \<Rightarrow> 'v sched \<Rightarrow> 'v sched" where
  "release_dependants ctx t stdout s =
     (case relax (dependants ctx t) (in_degree s) [] of
        Inl (Error (NodeNotFound k)) \<Rightarrow> set_phase t (Closing (Err (TaskNotFound k))) s
      | Inl Panic \<Rightarrow> set_phase t Panicked s
      | Inr (m, ready) \<Rightarrow> set_phase t (Sending stdout ready) (s\<lparr>in_degree := m\<rparr>))"

definition check_ready :: "string \<Rightarrow> string \<Rightarrow> string \<Rightarrow> string list \<Rightarrow> 'v sched \<Rightarrow> 'v sched" where
  "check_ready t stdout d ds s =
     (if finished s then set_phase t (Sending stdout ds) s
      else set_phase t (Delivering stdout d ds) (s\<lparr>active := active s + 1\<rparr>))"

text \<open>\<open>tx.send\<close>: an error when the receiver is gone, waiting while the channel is full.\<close>

definition deliver :: "'p ExecutorContext \<Rightarrow> string \<Rightarrow> string \<Rightarrow> string \<Rightarrow> string list \<Rightarrow> 'v sched
    \<Rightarrow> 'v sched option" where
  "deliver ctx t stdout d ds s =
     (if \<not> receiving s then Some (set_phase t (Closing (Err ChannelError)) s)
      else if length (queue s) < channel_capacity ctx
        then Some (set_phase t (Sending stdout ds) (s\<lparr>queue := queue s @ [d]\<rparr>))
        else None)"

text \<open>\<open>fetch_sub\<close> wraps below zero, as the atomic does.\<close>

definition leave_graph :: "string \<Rightarrow> string \<Rightarrow> 'v sched \<Rightarrow> 'v sched" where
  "leave_graph t stdout s =
     set_phase t (Closing (Ok stdout))
       (s\<lparr>active := (if active s = 0 then 2 ^ 64 - 1 else active s - 1), finished := finished s \<or> active s = 1\<rparr>)"

text \<open>
  \<open>complete_scope\<close>, whose recorder may reject the terminal event of a node with a binding, and the
  release of the permit when \<open>execute_locked\<close> returns.
\<close>

definition complete_scope ::
    "bool \<Rightarrow> string option \<Rightarrow> (ExecutorError, string) result \<Rightarrow> (ExecutorError, string) result" where
  "complete_scope bound rejected r =
     (if \<not> bound then r
      else case r of
        Inl e \<Rightarrow> Err e
      | Inr stdout \<Rightarrow> (case rejected of None \<Rightarrow> Ok stdout | Some m \<Rightarrow> Err (IoError m)))"

definition drop_permit :: "string \<Rightarrow> 'v sched \<Rightarrow> 'v sched" where
  "drop_permit t s =
     (if t \<in> permitted s
      then s\<lparr>permitted := permitted s - {t}, available := map_option Suc (available s)\<rparr> else s)"

definition close_node ::
    "'p ExecutorContext \<Rightarrow> string \<Rightarrow> string option \<Rightarrow> (ExecutorError, string) result \<Rightarrow> 'v sched \<Rightarrow> 'v sched" where
  "close_node ctx t rejected r s =
     set_phase t (Leaving (complete_scope (execution_binding (item ctx t)) rejected r)) (drop_permit t s)"

definition return_node ::
    "'p ExecutorContext \<Rightarrow> string \<Rightarrow> (ExecutorError, string) result \<Rightarrow> 'v sched \<Rightarrow> 'v sched" where
  "return_node ctx t r s =
     set_phase t (Returned r) ((tracker_complete ctx t s)\<lparr>shared := shared s - {t}\<rparr>)"

text \<open>A panic of the task's own code unwinds through \<open>execute\<close>: the guards are dropped, nothing else runs.\<close>

definition panic_node :: "string \<Rightarrow> 'v sched \<Rightarrow> 'v sched" where
  "panic_node t s = set_phase t Panicked ((drop_permit t s)\<lparr>shared := shared s - {t}\<rparr>)"

section \<open>Interleavings\<close>

text \<open>
  The events of a run.  The environment chooses the outcome of a task (\<open>EvSucceed\<close>, \<open>EvError\<close>,
  \<open>EvPanic\<close>), whether an output event is rejected (\<open>EvScopeFailed\<close>, \<open>EvStepFailed\<close>, the argument of
  \<open>EvClose\<close>), and when the caller cancels; everything else is the scheduler's own work.
\<close>

datatype 'v event =
    EvSpawn string
  | EvStop
  | EvCancel
  | EvEnter string
  | EvScopeFailed string string
  | EvPermit string
  | EvPermitFailed string ExecutorError
  | EvBegin string
  | EvStepFailed string string
  | EvSucceed string string "'v TaskOutputs"
  | EvError string ExecutorError
  | EvPanic string
  | EvFail string
  | EvPublish string string
  | EvRelease string
  | EvCheck string string
  | EvDeliver string string
  | EvLeave string
  | EvClose string "string option"
  | EvReturn string

inductive step :: "'p ExecutorContext \<Rightarrow> 'v sched \<Rightarrow> 'v event \<Rightarrow> 'v sched \<Rightarrow> bool" for ctx where
  spawn: "receiving s \<Longrightarrow> queue s = t # q \<Longrightarrow> step ctx s (EvSpawn t) (spawn_task t s)"
| stop: "receiving s \<Longrightarrow> finished s \<or> cancelled s \<Longrightarrow> step ctx s EvStop (stop_receiving s)"
| cancel: "\<not> caller_cancelled s \<Longrightarrow> step ctx s EvCancel (cancel_caller s)"
| enter: "phase s t = Some Entering \<Longrightarrow> enter ctx t s = Some s' \<Longrightarrow> step ctx s (EvEnter t) s'"
| scope_failed: "phase s t = Some Waiting \<Longrightarrow> execution_binding (item ctx t) \<Longrightarrow>
    step ctx s (EvScopeFailed t m) (raise_error ctx t (IoError m) s)"
| permit: "phase s t = Some Waiting \<Longrightarrow> acquire_permit ctx t s = Some s' \<Longrightarrow> step ctx s (EvPermit t) s'"
| permit_failed: "phase s t = Some Waiting \<Longrightarrow> needs_permit ctx t \<Longrightarrow>
    e = ConcurrencyLimiterClosed \<or> cancelled s \<and> e = TaskCancelled (item_name (item ctx t)) \<Longrightarrow>
    step ctx s (EvPermitFailed t e) (raise_error ctx t e s)"
| begin_step: "phase s t = Some Starting \<Longrightarrow> step ctx s (EvBegin t) (begin_node ctx t s)"
| step_failed: "phase s t = Some Starting \<Longrightarrow> execution_binding (item ctx t) \<Longrightarrow>
    step ctx s (EvStepFailed t m) (raise_error ctx t (IoError m) s)"
| succeed: "phase s t = Some Executing \<Longrightarrow>
    step ctx s (EvSucceed t stdout outs) (handle_success ctx t stdout outs s)"
| error: "phase s t = Some Executing \<Longrightarrow> step ctx s (EvError t e) (raise_error ctx t e s)"
| panic: "phase s t = Some Executing \<Longrightarrow> step ctx s (EvPanic t) (panic_node t s)"
| fail: "phase s t = Some (Failing e) \<Longrightarrow> step ctx s (EvFail t) (finish_error t e s)"
| publish: "phase s t = Some (Publishing pub stdout (d # ds)) \<Longrightarrow>
    step ctx s (EvPublish t d) (publish_one t pub stdout d ds s)"
| release: "phase s t = Some (Publishing pub stdout []) \<Longrightarrow>
    step ctx s (EvRelease t) (release_dependants ctx t stdout s)"
| check: "phase s t = Some (Sending stdout (d # ds)) \<Longrightarrow>
    step ctx s (EvCheck t d) (check_ready t stdout d ds s)"
| deliver: "phase s t = Some (Delivering stdout d ds) \<Longrightarrow> deliver ctx t stdout d ds s = Some s' \<Longrightarrow>
    step ctx s (EvDeliver t d) s'"
| leave: "phase s t = Some (Sending stdout []) \<Longrightarrow> step ctx s (EvLeave t) (leave_graph t stdout s)"
| close: "phase s t = Some (Closing r) \<Longrightarrow> step ctx s (EvClose t rejected) (close_node ctx t rejected r s)"
| return: "phase s t = Some (Leaving r) \<Longrightarrow> step ctx s (EvReturn t) (return_node ctx t r s)"

text \<open>The runs of a plan from its start, with the events so far.\<close>

inductive run :: "'p ExecutorContext \<Rightarrow> 'v event list \<Rightarrow> 'v sched \<Rightarrow> bool" for ctx where
  start: "start_plan ctx = Inr s \<Longrightarrow> run ctx [] s"
| step: "run ctx es s \<Longrightarrow> step ctx s ev s' \<Longrightarrow> run ctx (es @ [ev]) s'"

inductive_cases run_snocE: "run ctx (es @ [ev]) s"

lemma run_prefix: "run ctx (es @ es') s \<Longrightarrow> \<exists>s0. run ctx es s0"
proof (induction es' arbitrary: s rule: rev_induct)
  case (snoc e es')
  then have "run ctx ((es @ es') @ [e]) s" by simp
  then obtain s1 where "run ctx (es @ es') s1" by (rule run_snocE)
  then show ?case by (rule snoc.IH)
qed auto

lemma run_split:
  assumes "run ctx (es @ ev # es') s"
  obtains s0 s1 where "run ctx es s0" "step ctx s0 ev s1" "run ctx (es @ [ev]) s1"
proof -
  obtain s1 where r: "run ctx (es @ [ev]) s1" using run_prefix[of ctx "es @ [ev]" es' s] assms by auto
  then obtain s0 where "run ctx es s0" "step ctx s0 ev s1" by (rule run_snocE)
  then show thesis using that r by blast
qed

text \<open>\<open>execute_plan\<close> can only return once the loop has ended and every node task has.\<close>

fun joined :: "'v phase option \<Rightarrow> bool" where
  "joined None = True"
| "joined (Some (Returned r)) = True"
| "joined (Some Panicked) = True"
| "joined (Some _) = False"

definition quiescent :: "'p ExecutorContext \<Rightarrow> 'v sched \<Rightarrow> bool" where
  "quiescent ctx s \<longleftrightarrow> \<not> receiving s \<and> (\<forall>t \<in> set (nodes (dag ctx)). joined (phase s t))"

lemmas op_defs =
  spawn_task_def stop_receiving_def cancel_caller_def raise_error_def finish_error_def
  publish_one_def check_ready_def leave_graph_def close_node_def return_node_def
  panic_node_def set_phase_def

section \<open>Executing a given interleaving\<close>

text \<open>The step relation as a function of the event, for evaluating concrete runs.\<close>

fun fire :: "'p ExecutorContext \<Rightarrow> 'v event \<Rightarrow> 'v sched \<Rightarrow> 'v sched option" where
  "fire ctx (EvSpawn t) s =
     (if receiving s \<and> queue s \<noteq> [] \<and> hd (queue s) = t then Some (spawn_task t s) else None)"
| "fire ctx EvStop s = (if receiving s \<and> (finished s \<or> cancelled s) then Some (stop_receiving s) else None)"
| "fire ctx EvCancel s = (if caller_cancelled s then None else Some (cancel_caller s))"
| "fire ctx (EvEnter t) s = (case phase s t of Some Entering \<Rightarrow> enter ctx t s | _ \<Rightarrow> None)"
| "fire ctx (EvScopeFailed t m) s =
     (case phase s t of
        Some Waiting \<Rightarrow> if execution_binding (item ctx t) then Some (raise_error ctx t (IoError m) s) else None
      | _ \<Rightarrow> None)"
| "fire ctx (EvPermit t) s = (case phase s t of Some Waiting \<Rightarrow> acquire_permit ctx t s | _ \<Rightarrow> None)"
| "fire ctx (EvPermitFailed t e) s =
     (case phase s t of
        Some Waiting \<Rightarrow>
          if needs_permit ctx t \<and>
             (e = ConcurrencyLimiterClosed \<or> cancelled s \<and> e = TaskCancelled (item_name (item ctx t)))
          then Some (raise_error ctx t e s) else None
      | _ \<Rightarrow> None)"
| "fire ctx (EvBegin t) s = (case phase s t of Some Starting \<Rightarrow> Some (begin_node ctx t s) | _ \<Rightarrow> None)"
| "fire ctx (EvStepFailed t m) s =
     (case phase s t of
        Some Starting \<Rightarrow> if execution_binding (item ctx t) then Some (raise_error ctx t (IoError m) s) else None
      | _ \<Rightarrow> None)"
| "fire ctx (EvSucceed t stdout outs) s =
     (case phase s t of Some Executing \<Rightarrow> Some (handle_success ctx t stdout outs s) | _ \<Rightarrow> None)"
| "fire ctx (EvError t e) s =
     (case phase s t of Some Executing \<Rightarrow> Some (raise_error ctx t e s) | _ \<Rightarrow> None)"
| "fire ctx (EvPanic t) s = (case phase s t of Some Executing \<Rightarrow> Some (panic_node t s) | _ \<Rightarrow> None)"
| "fire ctx (EvFail t) s = (case phase s t of Some (Failing e) \<Rightarrow> Some (finish_error t e s) | _ \<Rightarrow> None)"
| "fire ctx (EvPublish t d) s =
     (case phase s t of
        Some (Publishing pub stdout (x # ds)) \<Rightarrow> if x = d then Some (publish_one t pub stdout d ds s) else None
      | _ \<Rightarrow> None)"
| "fire ctx (EvRelease t) s =
     (case phase s t of Some (Publishing pub stdout []) \<Rightarrow> Some (release_dependants ctx t stdout s) | _ \<Rightarrow> None)"
| "fire ctx (EvCheck t d) s =
     (case phase s t of
        Some (Sending stdout (x # ds)) \<Rightarrow> if x = d then Some (check_ready t stdout d ds s) else None
      | _ \<Rightarrow> None)"
| "fire ctx (EvDeliver t d) s =
     (case phase s t of
        Some (Delivering stdout x ds) \<Rightarrow> if x = d then deliver ctx t stdout d ds s else None | _ \<Rightarrow> None)"
| "fire ctx (EvLeave t) s =
     (case phase s t of Some (Sending stdout []) \<Rightarrow> Some (leave_graph t stdout s) | _ \<Rightarrow> None)"
| "fire ctx (EvClose t rejected) s =
     (case phase s t of Some (Closing r) \<Rightarrow> Some (close_node ctx t rejected r s) | _ \<Rightarrow> None)"
| "fire ctx (EvReturn t) s = (case phase s t of Some (Leaving r) \<Rightarrow> Some (return_node ctx t r s) | _ \<Rightarrow> None)"

fun fire_all :: "'p ExecutorContext \<Rightarrow> 'v event list \<Rightarrow> 'v sched \<Rightarrow> 'v sched option" where
  "fire_all ctx [] s = Some s"
| "fire_all ctx (ev # evs) s = (case fire ctx ev s of None \<Rightarrow> None | Some s' \<Rightarrow> fire_all ctx evs s')"

lemma hd_queue: "q \<noteq> [] \<and> hd q = t \<longleftrightarrow> (\<exists>r. q = t # r)"
  by (cases q) auto

lemma fire_step: "fire ctx ev s = Some s' \<longleftrightarrow> step ctx s ev s'"
proof
  show "step ctx s ev s'" if "fire ctx ev s = Some s'"
    using that
    by (cases ev) (auto split: option.splits phase.splits list.splits if_splits simp: hd_queue intro: step.intros)
  show "fire ctx ev s = Some s'" if "step ctx s ev s'"
    using that by cases auto
qed

lemma fire_all_run:
  assumes "run ctx es s" "fire_all ctx evs s = Some s'"
  shows "run ctx (es @ evs) s'"
  using assms
proof (induction evs arbitrary: es s)
  case (Cons ev evs)
  then obtain s1 where s1: "fire ctx ev s = Some s1" "fire_all ctx evs s1 = Some s'"
    by (auto split: option.splits)
  have "run ctx (es @ [ev]) s1" using run.step[OF Cons.prems(1)] s1(1) fire_step by blast
  from Cons.IH[OF this s1(2)] show ?case by simp
qed simp

text \<open>The state an interleaving of a plan leads to.\<close>

definition play :: "'p ExecutorContext \<Rightarrow> 'v event list \<Rightarrow> 'v sched option" where
  "play ctx evs = (case start_plan ctx of Inl _ \<Rightarrow> None | Inr s \<Rightarrow> fire_all ctx evs s)"

lemma play_run: "play ctx evs = Some s \<Longrightarrow> run ctx evs s"
  using fire_all_run[of ctx "[]" _ evs s] by (auto simp: play_def intro: run.start split: sum.splits)

end
