(* ===== verification/Scheduler_Locks.thy ===== *)
theory Scheduler_Locks
  imports Scheduler_Order
begin

text \<open>
  The two resources a node task holds while it runs: the permit of the shared concurrency limiter
  and the runtime lock that isolates interactive sessions.  The invariants tie the holders to the
  phases of the node tasks; the properties are the bound on concurrent work, the return of every
  permit, and mutual exclusion of interactive sessions.
\<close>

section \<open>Permits\<close>

fun holding :: "'v phase option \<Rightarrow> bool" where
  "holding (Some Starting) = True"
| "holding (Some Executing) = True"
| "holding (Some (Publishing pub stdout ds)) = True"
| "holding (Some (Sending stdout ds)) = True"
| "holding (Some (Delivering stdout d ds)) = True"
| "holding _ = False"

text \<open>A failed node may have failed before or after it got its permit.\<close>

fun may_hold :: "'v phase option \<Rightarrow> bool" where
  "may_hold (Some (Failing e)) = True"
| "may_hold (Some (Closing r)) = True"
| "may_hold ph = holding ph"

definition permit_inv :: "'p ExecutorContext \<Rightarrow> 'v sched \<Rightarrow> bool" where
  "permit_inv ctx s \<longleftrightarrow>
     (\<forall>t \<in> permitted s. t \<in> task_ids ctx \<and> needs_permit ctx t \<and> may_hold (phase s t)) \<and>
     (\<forall>t. needs_permit ctx t \<longrightarrow> holding (phase s t) \<longrightarrow> t \<in> permitted s) \<and>
     (case concurrency ctx of
        None \<Rightarrow> available s = None
      | Some l \<Rightarrow> \<exists>a. available s = Some a \<and> a + card (permitted s) = l)"

lemma permit_invD:
  assumes "permit_inv ctx s"
  shows "t \<in> permitted s \<Longrightarrow> t \<in> task_ids ctx \<and> needs_permit ctx t \<and> may_hold (phase s t)"
    and "needs_permit ctx t \<Longrightarrow> holding (phase s t) \<Longrightarrow> t \<in> permitted s"
    and "concurrency ctx = Some l \<Longrightarrow> \<exists>a. available s = Some a \<and> a + card (permitted s) = l"
    and "finite (permitted s)"
proof -
  show "finite (permitted s)"
    by (rule finite_subset[of _ "task_ids ctx"]) (use assms in \<open>auto simp: permit_inv_def\<close>)
qed (use assms in \<open>auto simp: permit_inv_def\<close>)

lemma permit_inv_quiet:
  assumes inv: "permit_inv ctx s"
    and s': "permitted s' = permitted s" "available s' = available s" "phase s' = (phase s)(t \<mapsto> ph)"
    and ph: "t \<in> permitted s \<Longrightarrow> may_hold (Some ph)" "needs_permit ctx t \<Longrightarrow> holding (Some ph) \<Longrightarrow> holding (phase s t)"
  shows "permit_inv ctx s'"
  using inv s' ph unfolding permit_inv_def by (auto split: option.splits)

lemma permit_inv_raise: "permit_inv ctx s \<Longrightarrow> permit_inv ctx (raise_error ctx t e s)"
  by (erule permit_inv_quiet[of _ _ _ t "Failing e"]) (simp_all add: op_defs)

lemma permit_inv_drop:
  assumes inv: "permit_inv ctx s"
    and s': "permitted s' = permitted (drop_permit t s)" "available s' = available (drop_permit t s)"
      "phase s' = (phase s)(t \<mapsto> ph)"
    and ph: "\<not> holding (Some ph)"
  shows "permit_inv ctx s'"
proof -
  have p: "permitted s' = permitted s - {t}" using s' by (simp add: drop_permit_def)
  have "\<exists>a. available s' = Some a \<and> a + card (permitted s') = l" if l: "concurrency ctx = Some l" for l
  proof -
    obtain a where a: "available s = Some a" "a + card (permitted s) = l"
      using permit_invD(3)[OF inv l] by blast
    show ?thesis
    proof (cases "t \<in> permitted s")
      case True
      then have "card (permitted s) = Suc (card (permitted s - {t}))"
        using card.remove[OF permit_invD(4)[OF inv]] by simp
      then show ?thesis using True a s' p by (simp add: drop_permit_def)
    next
      case False
      then show ?thesis using a s' by (simp add: drop_permit_def)
    qed
  qed
  moreover have "available s' = None" if "concurrency ctx = None"
    using that inv s' by (simp add: permit_inv_def drop_permit_def)
  moreover have "\<forall>u \<in> permitted s'. u \<in> task_ids ctx \<and> needs_permit ctx u \<and> may_hold (phase s' u)"
    using permit_invD(1)[OF inv] p s'(3) by auto
  moreover have "\<forall>u. needs_permit ctx u \<longrightarrow> holding (phase s' u) \<longrightarrow> u \<in> permitted s'"
    using permit_invD(2)[OF inv] p s'(3) ph by auto
  ultimately show ?thesis unfolding permit_inv_def by (auto split: option.splits)
qed

lemma permit_inv_acquire:
  assumes inv: "permit_inv ctx s" and t: "phase s t = Some Waiting" "t \<in> task_ids ctx"
    and s': "acquire_permit ctx t s = Some s'"
  shows "permit_inv ctx s'"
proof (cases "needs_permit ctx t")
  case False
  then have "s' = set_phase t Starting s" using s' by (simp add: acquire_permit_def)
  then show ?thesis using False by (intro permit_inv_quiet[OF inv, of s' t Starting]) (simp_all add: set_phase_def)
next
  case True
  then obtain n where n: "available s = Some (Suc n)"
    and s2: "s' = set_phase t Starting (s\<lparr>available := Some n, permitted := insert t (permitted s)\<rparr>)"
    using s' by (auto simp: acquire_permit_def split: option.splits nat.splits)
  obtain l where l: "concurrency ctx = Some l" using True by (auto simp: needs_permit_def)
  have "t \<notin> permitted s" using permit_invD(1)[OF inv, of t] t by auto
  then have "card (insert t (permitted s)) = Suc (card (permitted s))"
    using permit_invD(4)[OF inv] by simp
  then show ?thesis using permit_invD(1,2)[OF inv] permit_invD(3)[OF inv l] True t n l
    unfolding permit_inv_def s2 by (auto simp: set_phase_def)
qed

lemma permit_inv_step:
  assumes wf: "wf_context ctx" and g: "graph_inv ctx (released es) s"
    and inv: "permit_inv ctx s" and st: "step ctx s ev s'"
  shows "permit_inv ctx s'"
  using st
proof cases
  case (spawn t q)
  have "phase s t = None" using graph_invD(3)[OF g, of t] spawn by simp
  then have "t \<notin> permitted s" using permit_invD(1)[OF inv, of t] by auto
  then show ?thesis using spawn
    by (intro permit_inv_quiet[OF inv, of s' t Entering]) (simp_all add: op_defs)
next
  case stop
  then show ?thesis using inv by (simp add: permit_inv_def op_defs split: option.splits)
next
  case cancel
  then show ?thesis using inv by (simp add: permit_inv_def op_defs split: option.splits)
next
  case (begin_step t)
  then show ?thesis by (intro permit_inv_quiet[OF inv, of s' t Executing]) simp_all
next
  case (fail t e)
  then show ?thesis
    by (intro permit_inv_quiet[OF inv, of s' t "Closing (Err e)"]) (simp_all add: op_defs)
next
  case (publish t pub stdout d ds)
  then show ?thesis
    by (intro permit_inv_quiet[OF inv, of s' t "Publishing pub stdout ds"]) (simp_all add: op_defs)
next
  case (leave t stdout)
  then show ?thesis
    by (intro permit_inv_quiet[OF inv, of s' t "Closing (Ok stdout)"]) (simp_all add: op_defs)
next
  case (enter t)
  have "t \<notin> permitted s" using permit_invD(1)[OF inv, of t] enter by auto
  moreover note e = enter_effect[OF enter(3)]
  ultimately show ?thesis using enter_phase[OF enter(3)]
    by (elim disjE; intro permit_inv_quiet[OF inv, of s' t "the (phase s' t)"]) simp_all
next
  case (permit t)
  then show ?thesis using permit_inv_acquire[OF inv] graph_invD(1)[OF g, of t] by (simp add: idle_def)
next
  case (succeed t stdout outs)
  obtain ph where ph: "phase s' = (phase s)(t \<mapsto> ph)" "may_hold (Some ph)"
    using handle_success_effect(1)[of ctx t stdout outs s] succeed by (auto split: if_splits)
  then show ?thesis
    using succeed handle_success_effect[of ctx t stdout outs s]
    by (intro permit_inv_quiet[OF inv, of s' t ph]) simp_all
next
  case (release t pub stdout)
  obtain m ready where "s' = set_phase t (Sending stdout ready) (s\<lparr>in_degree := m\<rparr>)"
    using release_effect[OF wf g release(3)] release by blast
  then show ?thesis using release
    by (intro permit_inv_quiet[OF inv, of s' t "Sending stdout ready"]) (simp_all add: set_phase_def)
next
  case (check t stdout d ds)
  then show ?thesis
    by (cases "finished s"; intro permit_inv_quiet[OF inv, of s' t "the (phase s' t)"])
       (simp_all add: op_defs)
next
  case (deliver t stdout d ds)
  then show ?thesis
    by (intro permit_inv_quiet[OF inv, of s' t "the (phase s' t)"])
       (auto simp: deliver_def set_phase_def split: if_splits)
next
  case (panic t)
  then show ?thesis by (intro permit_inv_drop[OF inv, of s' t Panicked]) (simp_all add: op_defs)
next
  case (close t r rejected)
  then show ?thesis
    by (intro permit_inv_drop[OF inv, of s' t "the (phase s' t)"]) (simp_all add: op_defs)
next
  case (return t r)
  then have "t \<notin> permitted s" using permit_invD(1)[OF inv, of t] by auto
  then show ?thesis using return
    by (intro permit_inv_quiet[OF inv, of s' t "Returned r"]) (simp_all add: op_defs)
qed (simp_all add: permit_inv_raise[OF inv])

lemma permit_inv_run:
  assumes wf: "wf_context ctx" and r: "run ctx es s"
  shows "permit_inv ctx s"
  using r
proof induction
  case (start s)
  then obtain m where "s = schedule_initial_tasks ctx (new_sched ctx\<lparr>in_degree := m\<rparr>)"
    by (rule start_state[OF wf])
  then show ?case
    by (auto simp: permit_inv_def schedule_initial_tasks_def new_sched_def Let_def split: option.splits)
next
  case (step es s ev s')
  then show ?case using permit_inv_step[OF wf graph_inv_run[OF wf]] by blast
qed

text \<open>
  C11.  The concurrency limit holds and no permit leaks.  In every reachable state at most as many
  nodes that need a permit execute as the limiter was created with; and when the loop has ended
  and every node task is finished, however it finished, all permits are available again.
\<close>

theorem concurrency_limit:
  assumes wf: "wf_context ctx" and r: "run ctx es s" and l: "concurrency ctx = Some l"
  shows "card {t. requires_concurrency_permit (item ctx t) \<and> phase s t = Some Executing} \<le> l \<and>
    (quiescent ctx s \<longrightarrow> available s = Some l)"
proof -
  note inv = permit_inv_run[OF wf r]
  obtain a where a: "available s = Some a" "a + card (permitted s) = l" using permit_invD(3)[OF inv l] by blast
  have "{t. requires_concurrency_permit (item ctx t) \<and> phase s t = Some Executing} \<subseteq> permitted s"
    using permit_invD(2)[OF inv] l by (auto simp: needs_permit_def)
  from card_mono[OF permit_invD(4)[OF inv] this] have b: "card {t. requires_concurrency_permit (item ctx t) \<and>
      phase s t = Some Executing} \<le> l" using a by simp
  have "permitted s = {}" if q: "quiescent ctx s"
  proof -
    have "\<not> may_hold ph" if "joined ph" for ph :: "'b phase option" using that by (cases ph rule: joined.cases) auto
    then show ?thesis using q permit_invD(1)[OF inv] unfolding quiescent_def by blast
  qed
  then show ?thesis using a b by auto
qed

definition pair_finish :: "unit event list" where
  "pair_finish =
     [EvLeave ''a'', EvClose ''a'' None, EvReturn ''a'',
      EvSpawn ''b'', EvEnter ''b'', EvPermit ''b'', EvBegin ''b'', EvSucceed ''b'' ''y'' no_outputs,
      EvRelease ''b'', EvLeave ''b'', EvClose ''b'' None, EvReturn ''b'', EvStop]"

lemma pair_complete:
  "\<exists>s. play pair_context (pair_events @ pair_finish) = Some s \<and> quiescent pair_context s"
  by (simp add: pair_context_def pair_dag_def pair_events_def pair_finish_def plain_item_def play_simps quiescent_def)

theorem concurrency_limit_witness:
  "\<exists>s. play pair_context (pair_events @ pair_finish) = Some s \<and> available s = Some 1"
proof -
  obtain s where s: "play pair_context (pair_events @ pair_finish) = Some s" "quiescent pair_context s"
    using pair_complete by blast
  from concurrency_limit[OF pair_context_wf play_run[OF s(1)], of 1] show ?thesis
    using s by (simp add: pair_context_def)
qed

section \<open>The runtime lock\<close>

fun inside :: "'v phase option \<Rightarrow> bool" where
  "inside None = False"
| "inside (Some Entering) = False"
| "inside (Some (Returned r)) = False"
| "inside (Some Panicked) = False"
| "inside (Some _) = True"

abbreviation locks :: "'p ExecutorContext \<Rightarrow> string \<Rightarrow> bool" where
  "locks ctx t \<equiv> requires_runtime_lock (item ctx t)"

abbreviation session_of :: "'p ExecutorContext \<Rightarrow> string \<Rightarrow> string option" where
  "session_of ctx t \<equiv> interactive_session (item ctx t)"

fun returned :: "'v phase option \<Rightarrow> bool" where
  "returned (Some (Returned r)) = True"
| "returned _ = False"

definition members_left :: "'p ExecutorContext \<Rightarrow> 'v sched \<Rightarrow> string \<Rightarrow> string set" where
  "members_left ctx s sess =
     {t \<in> task_ids ctx. locks ctx t \<and> session_of ctx t = Some sess \<and> \<not> returned (phase s t)}"

text \<open>
  Who holds the lock: the shared guards are the guards of the session-less nodes inside; the
  exclusive guard belongs to the one session whose guard is set; that session still has all its
  unfinished members to wait for.
\<close>

definition lock_inv :: "'p ExecutorContext \<Rightarrow> 'v sched \<Rightarrow> bool" where
  "lock_inv ctx s \<longleftrightarrow>
     shared s = {t. locks ctx t \<and> session_of ctx t = None \<and> inside (phase s t)} \<and>
     (exclusive s \<longrightarrow> shared s = {}) \<and>
     (exclusive s \<longleftrightarrow> (\<exists>sess st. map_of (sessions s) sess = Some st \<and> guard st)) \<and>
     (\<forall>a b st st'. map_of (sessions s) a = Some st \<longrightarrow> guard st \<longrightarrow> map_of (sessions s) b = Some st' \<longrightarrow>
        guard st' \<longrightarrow> a = b) \<and>
     (\<forall>t sess. locks ctx t \<longrightarrow> session_of ctx t = Some sess \<longrightarrow> inside (phase s t) \<longrightarrow>
        (\<exists>st. map_of (sessions s) sess = Some st \<and> guard st)) \<and>
     (\<forall>sess st. map_of (sessions s) sess = Some st \<longrightarrow> remaining st = card (members_left ctx s sess)) \<and>
     (\<forall>t \<in> task_ids ctx. \<forall>sess. locks ctx t \<longrightarrow> session_of ctx t = Some sess \<longrightarrow> map_of (sessions s) sess \<noteq> None)"

lemma lock_invD:
  assumes "lock_inv ctx s"
  shows "shared s = {t. locks ctx t \<and> session_of ctx t = None \<and> inside (phase s t)}"
    and "exclusive s \<Longrightarrow> shared s = {}"
    and "exclusive s \<longleftrightarrow> (\<exists>sess st. map_of (sessions s) sess = Some st \<and> guard st)"
    and "map_of (sessions s) a = Some st \<Longrightarrow> guard st \<Longrightarrow> map_of (sessions s) b = Some st' \<Longrightarrow> guard st' \<Longrightarrow> a = b"
    and "locks ctx t \<Longrightarrow> session_of ctx t = Some sess \<Longrightarrow> inside (phase s t) \<Longrightarrow>
      \<exists>st. map_of (sessions s) sess = Some st \<and> guard st"
    and "map_of (sessions s) sess = Some st \<Longrightarrow> remaining st = card (members_left ctx s sess)"
    and "t \<in> task_ids ctx \<Longrightarrow> locks ctx t \<Longrightarrow> session_of ctx t = Some sess \<Longrightarrow> map_of (sessions s) sess \<noteq> None"
  using assms unfolding lock_inv_def by blast+

lemma lock_invI:
  assumes "shared s = {t. locks ctx t \<and> session_of ctx t = None \<and> inside (phase s t)}"
    and "exclusive s \<Longrightarrow> shared s = {}"
    and "exclusive s \<longleftrightarrow> (\<exists>sess st. map_of (sessions s) sess = Some st \<and> guard st)"
    and "\<And>a b st st'. map_of (sessions s) a = Some st \<Longrightarrow> guard st \<Longrightarrow> map_of (sessions s) b = Some st' \<Longrightarrow>
      guard st' \<Longrightarrow> a = b"
    and "\<And>t sess. locks ctx t \<Longrightarrow> session_of ctx t = Some sess \<Longrightarrow> inside (phase s t) \<Longrightarrow>
      \<exists>st. map_of (sessions s) sess = Some st \<and> guard st"
    and "\<And>sess st. map_of (sessions s) sess = Some st \<Longrightarrow> remaining st = card (members_left ctx s sess)"
    and "\<And>t sess. t \<in> task_ids ctx \<Longrightarrow> locks ctx t \<Longrightarrow> session_of ctx t = Some sess \<Longrightarrow> map_of (sessions s) sess \<noteq> None"
  shows "lock_inv ctx s"
  unfolding lock_inv_def using assms by blast

text \<open>A node moves without touching the lock, from inside to inside or from outside to outside.\<close>

lemma lock_inv_quiet:
  assumes inv: "lock_inv ctx s"
    and s': "shared s' = shared s" "exclusive s' = exclusive s" "sessions s' = sessions s"
      "phase s' = (phase s)(t \<mapsto> ph)"
    and ph: "inside (Some ph) = inside (phase s t)" "returned (Some ph) = returned (phase s t)"
  shows "lock_inv ctx s'"
proof -
  have i: "inside (phase s' u) = inside (phase s u)" and r: "returned (phase s' u) = returned (phase s u)" for u
    using s'(4) ph by auto
  show ?thesis using inv unfolding lock_inv_def members_left_def s'(1-3) i r .
qed

lemma lock_inv_raise:
  "lock_inv ctx s \<Longrightarrow> inside (phase s t) \<Longrightarrow> lock_inv ctx (raise_error ctx t e s)"
  by (rule lock_inv_quiet[of _ _ _ t "Failing e"]) (auto simp: op_defs elim: inside.elims)

lemma members_left_update:
  "phase s' = (phase s)(t \<mapsto> ph) \<Longrightarrow> returned (Some ph) = returned (phase s t) \<Longrightarrow>
     members_left ctx s' sess = members_left ctx s sess"
  by (auto simp: members_left_def)

lemma finite_members_left [simp]: "finite (members_left ctx s sess)"
  by (simp add: members_left_def)

lemma lock_inv_enter:
  assumes inv: "lock_inv ctx s" and t: "phase s t = Some Entering" "t \<in> task_ids ctx"
    and e: "enter ctx t s = Some s'"
  shows "lock_inv ctx s'"
  using e
proof (cases rule: enter_cases)
  case unlocked
  have ml: "members_left ctx s' sess = members_left ctx s sess" for sess
    using members_left_update[of s' s t Waiting] unlocked t by (simp add: set_phase_def)
  have p: "phase s' = (phase s)(t \<mapsto> Waiting)" "shared s' = shared s" "exclusive s' = exclusive s"
    "sessions s' = sessions s" using unlocked by (simp_all add: set_phase_def)
  show ?thesis
  proof (rule lock_invI, unfold p(2-4) ml)
    show "shared s = {u. locks ctx u \<and> session_of ctx u = None \<and> inside (phase s' u)}"
      using lock_invD(1)[OF inv] unlocked(1) p(1) by auto
    show "\<exists>st. map_of (sessions s) sess = Some st \<and> guard st"
      if "locks ctx u" "session_of ctx u = Some sess" "inside (phase s' u)" for u sess
      using lock_invD(5)[OF inv that(1,2)] that unlocked(1) p(1) by (cases "u = t") auto
  qed (use lock_invD(2-4,6,7)[OF inv] in blast)+
next
  case reader
  have ml: "members_left ctx s' sess = members_left ctx s sess" for sess
    using members_left_update[of s' s t Waiting] reader t by (simp add: set_phase_def)
  have p: "phase s' = (phase s)(t \<mapsto> Waiting)" "shared s' = insert t (shared s)" "exclusive s' = exclusive s"
    "sessions s' = sessions s" using reader by (simp_all add: set_phase_def)
  show ?thesis
  proof (rule lock_invI, unfold p(2-4) ml)
    show "insert t (shared s) = {u. locks ctx u \<and> session_of ctx u = None \<and> inside (phase s' u)}"
      using lock_invD(1)[OF inv] reader(1,2) p(1) by auto
    show "insert t (shared s) = {}" if "exclusive s" using that reader(3) by simp
    show "\<exists>st. map_of (sessions s) sess = Some st \<and> guard st"
      if "locks ctx u" "session_of ctx u = Some sess" "inside (phase s' u)" for u sess
      using lock_invD(5)[OF inv that(1,2)] that reader(2) p(1) by (cases "u = t") auto
  qed (use lock_invD(3,4,6,7)[OF inv] in blast)+
next
  case (unknown sess)
  then show ?thesis using lock_invD(7)[OF inv t(2)] by blast
next
  case (member sess st)
  have ml: "members_left ctx s' b = members_left ctx s b" for b
    using members_left_update[of s' s t Waiting] member t by (simp add: set_phase_def)
  have p: "phase s' = (phase s)(t \<mapsto> Waiting)" "shared s' = shared s" "exclusive s' = exclusive s"
    "sessions s' = sessions s" using member by (simp_all add: set_phase_def)
  show ?thesis
  proof (rule lock_invI, unfold p(2-4) ml)
    show "shared s = {u. locks ctx u \<and> session_of ctx u = None \<and> inside (phase s' u)}"
      using lock_invD(1)[OF inv] member(2) p(1) by auto
    show "\<exists>st. map_of (sessions s) b = Some st \<and> guard st"
      if "locks ctx u" "session_of ctx u = Some b" "inside (phase s' u)" for u b
      using lock_invD(5)[OF inv that(1,2)] that member p(1) by (cases "u = t") auto
  qed (use lock_invD(2-4,6,7)[OF inv] in blast)+
next
  case (writer sess st)
  have ml: "members_left ctx s' b = members_left ctx s b" for b
    using members_left_update[of s' s t Waiting] writer t by (simp add: set_phase_def)
  have p: "phase s' = (phase s)(t \<mapsto> Waiting)" "shared s' = shared s" "exclusive s' = True"
    "map_of (sessions s') = (map_of (sessions s))(sess \<mapsto> st\<lparr>guard := True\<rparr>)"
    using writer by (simp_all add: set_phase_def entry_update_map_of)
  have none: "\<not> guard st'" if "map_of (sessions s) b = Some st'" for b st'
    using lock_invD(3)[OF inv] writer(5) that by blast
  show ?thesis
  proof (rule lock_invI, unfold p(2-4) ml)
    show "shared s = {u. locks ctx u \<and> session_of ctx u = None \<and> inside (phase s' u)}"
      using lock_invD(1)[OF inv] writer(2) p(1) by auto
    show "shared s = {}" by (rule writer(6))
    show "\<exists>st'. ((map_of (sessions s))(sess \<mapsto> st\<lparr>guard := True\<rparr>)) b = Some st' \<and> guard st'"
      if "locks ctx u" "session_of ctx u = Some b" "inside (phase s' u)" for u b
    proof (cases "u = t")
      case True
      then show ?thesis using that writer(2) by auto
    next
      case False
      then show ?thesis using lock_invD(5)[OF inv that(1,2)] that p(1) none by auto
    qed
    show "remaining st' = card (members_left ctx s b)"
      if "((map_of (sessions s))(sess \<mapsto> st\<lparr>guard := True\<rparr>)) b = Some st'" for b st'
      using lock_invD(6)[OF inv, of b] writer(3) that by (auto split: if_splits)
    show "((map_of (sessions s))(sess \<mapsto> st\<lparr>guard := True\<rparr>)) b \<noteq> None"
      if "u \<in> task_ids ctx" "locks ctx u" "session_of ctx u = Some b" for u b
      using lock_invD(7)[OF inv that] by simp
    show "True = (\<exists>b st'. ((map_of (sessions s))(sess \<mapsto> st\<lparr>guard := True\<rparr>)) b = Some st' \<and> guard st')"
      by (auto intro: exI[of _ sess])
  qed (use none in \<open>auto split: if_splits\<close>)
qed

lemma lock_inv_same:
  assumes "lock_inv ctx s" "phase s' = phase s" "shared s' = shared s" "exclusive s' = exclusive s"
    "sessions s' = sessions s"
  shows "lock_inv ctx s'"
  using assms(1) unfolding lock_inv_def members_left_def assms(2-5) .

lemma inside_active: "inside ph \<Longrightarrow> ph \<noteq> None \<and> \<not> returned ph"
  by (cases ph rule: inside.cases) auto

lemma lock_inv_panic:
  assumes inv: "lock_inv ctx s" and t: "phase s t = Some Executing"
  shows "lock_inv ctx (panic_node t s)"
proof -
  let ?s = "panic_node t s"
  have p: "phase ?s = (phase s)(t \<mapsto> Panicked)" "shared ?s = shared s - {t}" "exclusive ?s = exclusive s"
    "sessions ?s = sessions s" by (simp_all add: op_defs)
  have ml: "members_left ctx ?s sess = members_left ctx s sess" for sess
    using members_left_update[OF p(1)] t by simp
  show ?thesis
  proof (rule lock_invI, unfold p(2-4) ml)
    show "shared s - {t} = {u. locks ctx u \<and> session_of ctx u = None \<and> inside (phase ?s u)}"
      using lock_invD(1)[OF inv] p(1) by auto
    show "\<exists>st. map_of (sessions s) sess = Some st \<and> guard st"
      if "locks ctx u" "session_of ctx u = Some sess" "inside (phase ?s u)" for u sess
      using lock_invD(5)[OF inv that(1,2)] that(3) p(1) by (cases "u = t") auto
  qed (use lock_invD(2-4,6,7)[OF inv] in blast)+
qed

text \<open>A session member leaves: the guard is dropped with the last one.\<close>

lemma lock_inv_return_member:
  assumes inv: "lock_inv ctx s" and t: "phase s t = Some (Leaving r)" "t \<in> task_ids ctx"
    and nodes: "\<And>u. phase s u \<noteq> None \<Longrightarrow> u \<in> task_ids ctx"
    and lk: "locks ctx t" "session_of ctx t = Some sess"
  shows "lock_inv ctx (return_node ctx t r s)"
proof -
  let ?s = "return_node ctx t r s"
  obtain st where st: "map_of (sessions s) sess = Some st" "guard st"
    using lock_invD(5)[OF inv lk] t(1) by auto
  have ex: "exclusive s" "shared s = {}" using lock_invD(2,3)[OF inv] st by auto
  let ?st = "if remaining st - 1 = 0 then \<lparr>remaining = 0, guard = False\<rparr> else st\<lparr>remaining := remaining st - 1\<rparr>"
  have p: "phase ?s = (phase s)(t \<mapsto> Returned r)" "shared ?s = {}"
    "exclusive ?s = (remaining st - 1 \<noteq> 0)" "map_of (sessions ?s) = (map_of (sessions s))(sess \<mapsto> ?st)"
    using lk st ex by (auto simp: op_defs tracker_complete_def entry_update_map_of)
  have tin: "t \<in> members_left ctx s sess" using t lk by (simp add: members_left_def)
  have ml: "members_left ctx ?s b = (if b = sess then members_left ctx s sess - {t} else members_left ctx s b)" for b
    using p(1) lk t by (auto simp: members_left_def)
  have c: "card (members_left ctx s sess - {t}) = remaining st - 1"
    using tin lock_invD(6)[OF inv st(1)] by simp
  have only: "b = sess" if "map_of (sessions s) b = Some st'" "guard st'" for b st'
    using lock_invD(4)[OF inv that st] .
  have still: "remaining st - 1 \<noteq> 0 \<and> b = sess"
    if u: "locks ctx u" "session_of ctx u = Some b" "inside (phase ?s u)" for u b
  proof -
    have ut: "u \<noteq> t" "inside (phase s u)" using u p(1) by (auto split: if_splits)
    obtain st' where "map_of (sessions s) b = Some st'" "guard st'" using lock_invD(5)[OF inv u(1,2) ut(2)] by blast
    then have b: "b = sess" by (rule only)
    have "phase s u \<noteq> None" "\<not> returned (phase s u)" using inside_active[OF ut(2)] by simp_all
    then have "u \<in> members_left ctx s sess - {t}" using nodes u b ut(1) by (simp add: members_left_def)
    then have "card (members_left ctx s sess - {t}) \<noteq> 0" by auto
    then show ?thesis using c b by simp
  qed
  show ?thesis
  proof (rule lock_invI, unfold p(2-4))
    show "{} = {u. locks ctx u \<and> session_of ctx u = None \<and> inside (phase ?s u)}"
      using lock_invD(1)[OF inv] ex(2) p(1) by auto
    show "(remaining st - 1 \<noteq> 0) = (\<exists>b st'. ((map_of (sessions s))(sess \<mapsto> ?st)) b = Some st' \<and> guard st')"
    proof
      assume "remaining st - 1 \<noteq> 0"
      then show "\<exists>b st'. ((map_of (sessions s))(sess \<mapsto> ?st)) b = Some st' \<and> guard st'"
        using st(2) by (intro exI[of _ sess] exI[of _ ?st]) simp
    next
      assume "\<exists>b st'. ((map_of (sessions s))(sess \<mapsto> ?st)) b = Some st' \<and> guard st'"
      then obtain b st' where b: "((map_of (sessions s))(sess \<mapsto> ?st)) b = Some st'" "guard st'" by blast
      then have "b = sess" using only[of b st'] by (cases "b = sess") simp_all
      then show "remaining st - 1 \<noteq> 0" using b by (auto split: if_splits)
    qed
    show "\<exists>st'. ((map_of (sessions s))(sess \<mapsto> ?st)) b = Some st' \<and> guard st'"
      if "locks ctx u" "session_of ctx u = Some b" "inside (phase ?s u)" for u b
      using still[OF that] st by simp
    show "remaining st' = card (members_left ctx ?s b)"
      if "((map_of (sessions s))(sess \<mapsto> ?st)) b = Some st'" for b st'
      using that c lock_invD(6)[OF inv, of b] unfolding ml by (auto split: if_splits)
    show "((map_of (sessions s))(sess \<mapsto> ?st)) b \<noteq> None"
      if "u \<in> task_ids ctx" "locks ctx u" "session_of ctx u = Some b" for u b
      using lock_invD(7)[OF inv that] by simp
    show "a = b" if "((map_of (sessions s))(sess \<mapsto> ?st)) a = Some x" "guard x"
      "((map_of (sessions s))(sess \<mapsto> ?st)) b = Some y" "guard y" for a b x y
      using that only by (auto split: if_splits)
  qed simp
qed

lemma lock_inv_return:
  assumes inv: "lock_inv ctx s" and t: "phase s t = Some (Leaving r)"
    and nodes: "\<And>u. phase s u \<noteq> None \<Longrightarrow> u \<in> task_ids ctx"
  shows "lock_inv ctx (return_node ctx t r s)"
proof (cases "locks ctx t \<and> session_of ctx t \<noteq> None")
  case True
  then show ?thesis using lock_inv_return_member[OF inv t] nodes t by auto
next
  case False
  let ?s = "return_node ctx t r s"
  have "tracker_complete ctx t s = s" using False by (auto simp: tracker_complete_def)
  then have p: "phase ?s = (phase s)(t \<mapsto> Returned r)" "shared ?s = shared s - {t}"
    "exclusive ?s = exclusive s" "sessions ?s = sessions s" by (simp_all add: op_defs)
  have ml: "members_left ctx ?s b = members_left ctx s b" for b
    using p(1) False by (auto simp: members_left_def)
  show ?thesis
  proof (rule lock_invI, unfold p(2-4) ml)
    show "shared s - {t} = {u. locks ctx u \<and> session_of ctx u = None \<and> inside (phase ?s u)}"
      using lock_invD(1)[OF inv] p(1) by auto
    show "\<exists>st. map_of (sessions s) sess = Some st \<and> guard st"
      if "locks ctx u" "session_of ctx u = Some sess" "inside (phase ?s u)" for u sess
      using lock_invD(5)[OF inv that(1,2)] that(3) p(1) by (cases "u = t") auto
  qed (use lock_invD(2-4,6,7)[OF inv] in blast)+
qed

lemma lock_inv_step:
  assumes wf: "wf_context ctx" and g: "graph_inv ctx (released es) s"
    and inv: "lock_inv ctx s" and st: "step ctx s ev s'"
  shows "lock_inv ctx s'"
  using st
proof cases
  case (spawn t q)
  then have "phase s t = None" using graph_invD(3)[OF g, of t] by simp
  then show ?thesis using spawn by (intro lock_inv_quiet[OF inv, of s' t Entering]) (simp_all add: op_defs)
next
  case stop
  then show ?thesis using lock_inv_same[OF inv, of s'] by (simp add: op_defs)
next
  case cancel
  then show ?thesis using lock_inv_same[OF inv, of s'] by (simp add: op_defs)
next
  case (enter t)
  then show ?thesis using lock_inv_enter[OF inv] graph_invD(1)[OF g, of t] by (simp add: idle_def)
next
  case (permit t)
  then show ?thesis using acquire_permit_effect[OF permit(3)]
    by (intro lock_inv_quiet[OF inv, of s' t Starting]) simp_all
next
  case (begin_step t)
  then show ?thesis by (intro lock_inv_quiet[OF inv, of s' t Executing]) simp_all
next
  case (succeed t stdout outs)
  obtain ph where "phase s' = (phase s)(t \<mapsto> ph)" "inside (Some ph)" "\<not> returned (Some ph)"
    using handle_success_effect(1)[of ctx t stdout outs s] succeed by (auto split: if_splits)
  then show ?thesis using succeed handle_success_effect[of ctx t stdout outs s]
    by (intro lock_inv_quiet[OF inv, of s' t ph]) simp_all
next
  case (panic t)
  then show ?thesis using lock_inv_panic[OF inv] by simp
next
  case (fail t e)
  then show ?thesis by (intro lock_inv_quiet[OF inv, of s' t "Closing (Err e)"]) (simp_all add: op_defs)
next
  case (publish t pub stdout d ds)
  then show ?thesis
    by (intro lock_inv_quiet[OF inv, of s' t "Publishing pub stdout ds"]) (simp_all add: op_defs)
next
  case (release t pub stdout)
  obtain m ready where "s' = set_phase t (Sending stdout ready) (s\<lparr>in_degree := m\<rparr>)"
    using release_effect[OF wf g release(3)] release by blast
  then show ?thesis using release
    by (intro lock_inv_quiet[OF inv, of s' t "Sending stdout ready"]) (simp_all add: set_phase_def)
next
  case (check t stdout d ds)
  then show ?thesis
    by (cases "finished s"; intro lock_inv_quiet[OF inv, of s' t "the (phase s' t)"])
       (simp_all add: op_defs)
next
  case (deliver t stdout d ds)
  then show ?thesis
    by (intro lock_inv_quiet[OF inv, of s' t "the (phase s' t)"])
       (auto simp: deliver_def set_phase_def split: if_splits)
next
  case (leave t stdout)
  then show ?thesis by (intro lock_inv_quiet[OF inv, of s' t "Closing (Ok stdout)"]) (simp_all add: op_defs)
next
  case (close t r rejected)
  then show ?thesis by (intro lock_inv_quiet[OF inv, of s' t "the (phase s' t)"]) (simp_all add: op_defs)
next
  case (return t r)
  then show ?thesis using lock_inv_return[OF inv] graph_invD(1)[OF g] by (simp add: idle_def)
qed (simp_all add: lock_inv_raise[OF inv])

lemma tracker_new_count:
  "map_of (tracker_new ns) sess =
     (let c = length (filter (\<lambda>n. n = (Some sess, True)) ns)
      in if c = 0 then None else Some \<lparr>remaining = c, guard = False\<rparr>)"
proof (induction ns rule: rev_induct)
  case (snoc n ns)
  obtain opt b where n: "n = (opt, b)" by fastforce
  have e: "tracker_new (ns @ [(opt, b)]) =
      (case opt of Some x \<Rightarrow> if b
         then entry_update x \<lparr>remaining = 0, guard = False\<rparr> (\<lambda>st. st\<lparr>remaining := remaining st + 1\<rparr>) (tracker_new ns)
         else tracker_new ns | None \<Rightarrow> tracker_new ns)"
    by (simp add: tracker_new_def split: option.splits)
  show ?case using snoc unfolding n e
    by (cases opt; cases b) (auto simp: entry_update_map_of Let_def split: option.splits if_splits)
qed (simp add: tracker_new_def)

lemma lock_inv_start:
  assumes wf: "wf_context ctx" and s: "start_plan ctx = Inr s"
  shows "lock_inv ctx s"
proof -
  obtain m where m: "s = schedule_initial_tasks ctx (new_sched ctx\<lparr>in_degree := m\<rparr>)"
    using start_state[OF wf s] by blast
  have p: "shared s = {}" "exclusive s = False" "sessions s = tracker_of ctx" "phase s = (\<lambda>_. None)"
    by (simp_all add: m schedule_initial_tasks_def new_sched_def Let_def)
  have d: "distinct (nodes (dag ctx))" using wf by (simp add: wf_context_def wf_dag_def node_ids_def)
  have "length (filter (\<lambda>n. n = (Some sess, True))
      (map (\<lambda>n. (session_of ctx n, locks ctx n)) (nodes (dag ctx)))) = card (members_left ctx s sess)" for sess
  proof -
    have "{n \<in> task_ids ctx. session_of ctx n = Some sess \<and> locks ctx n} = members_left ctx s sess"
      by (auto simp: members_left_def p(4))
    then show ?thesis using distinct_card[OF distinct_filter[OF d, of "\<lambda>n. session_of ctx n = Some sess \<and> locks ctx n"]]
      by (simp add: filter_map comp_def)
  qed
  then have tr: "map_of (sessions s) sess = (if card (members_left ctx s sess) = 0 then None
      else Some \<lparr>remaining = card (members_left ctx s sess), guard = False\<rparr>)" for sess
    by (simp add: p(3) tracker_of_def tracker_new_count Let_def)
  show ?thesis
  proof (rule lock_invI)
    show "map_of (sessions s) sess \<noteq> None"
      if "t \<in> task_ids ctx" "locks ctx t" "session_of ctx t = Some sess" for t sess
    proof -
      have "t \<in> members_left ctx s sess" using that by (simp add: members_left_def p(4))
      then show ?thesis using tr[of sess] by auto
    qed
  qed (auto simp: tr p(1,2,4) split: if_splits)
qed

lemma lock_inv_run:
  assumes wf: "wf_context ctx" and r: "run ctx es s"
  shows "lock_inv ctx s"
  using r
proof induction
  case (start s)
  then show ?case by (rule lock_inv_start[OF wf])
next
  case (step es s ev s')
  then show ?case using lock_inv_step[OF wf graph_inv_run[OF wf]] by blast
qed

text \<open>
  C12.  Interactive sessions are exclusive.  While a node of an interactive session is between
  entering and leaving, every other node that needs the runtime lock and is inside belongs to the
  same session, so two sessions, or a session and an ordinary task, never share the terminal.
\<close>

theorem interactive_exclusive:
  assumes wf: "wf_context ctx" and r: "run ctx es s"
    and t: "requires_runtime_lock (item ctx t)" "interactive_session (item ctx t) = Some sess" "inside (phase s t)"
    and u: "requires_runtime_lock (item ctx u)" "inside (phase s u)"
  shows "interactive_session (item ctx u) = Some sess"
proof -
  note inv = lock_inv_run[OF wf r]
  obtain st where st: "map_of (sessions s) sess = Some st" "guard st" using lock_invD(5)[OF inv t] by blast
  then have "u \<notin> shared s" using lock_invD(2,3)[OF inv] by blast
  then obtain b where b: "interactive_session (item ctx u) = Some b" using lock_invD(1)[OF inv] u by fastforce
  then obtain st' where "map_of (sessions s) b = Some st'" "guard st'" using lock_invD(5)[OF inv u(1) b u(2)] by blast
  from lock_invD(4)[OF inv this st] b show ?thesis by simp
qed

text \<open>An interactive task with two commands next to an ordinary one.\<close>

definition console_item :: "string \<Rightarrow> TaskItem" where
  "console_item n = (if n = ''other'' then plain_item n else (plain_item n)\<lparr>interactive_session := Some ''tty''\<rparr>)"

definition console_dag :: "string DAG" where
  "console_dag =
     \<lparr>nodes = [''one'', ''two'', ''other''], edges = [(''one'', [''two'']), (''two'', []), (''other'', [])]\<rparr>"

definition console_context :: "unit ExecutorContext" where
  "console_context =
     \<lparr>dag = console_dag, item = console_item, deferred = [], failfast = False, concurrency = None\<rparr>"

lemma console_context_wf: "wf_context console_context"
  by (simp add: wf_context_def console_context_def console_dag_def wf_dag_def node_ids_def)

definition console_events :: "unit event list" where
  "console_events = [EvSpawn ''one'', EvSpawn ''other'', EvEnter ''one'', EvPermit ''one'', EvBegin ''one'']"

lemma console_play:
  "\<exists>s. play console_context console_events = Some s \<and> inside (phase s ''one'')"
  by (simp add: console_context_def console_dag_def console_events_def console_item_def plain_item_def play_simps)

theorem interactive_exclusive_witness:
  "\<exists>s. play console_context console_events = Some s \<and> \<not> inside (phase s ''other'')"
proof -
  obtain s where s: "play console_context console_events = Some s" "inside (phase s ''one'')"
    using console_play by blast
  from interactive_exclusive[OF console_context_wf play_run[OF s(1)], of "''one''" "''tty''" "''other''"] s
  show ?thesis by (auto simp: console_context_def console_item_def plain_item_def)
qed

end
