(* ===== verification/Scheduler_Live.thy ===== *)
theory Scheduler_Live
  imports Scheduler_Locks
begin

text \<open>
  Liveness of the interleavings of \<open>Scheduler\<close>: every run is finite with an explicit bound, a run
  that is not over can always go on without help from the environment, and a run that nothing
  disturbed has executed every node the plan can reach.  The last section has the interleavings
  in which the program does get stuck or reports the wrong failure.
\<close>

section \<open>Every run ends\<close>

fun rank :: "nat \<Rightarrow> 'v phase option \<Rightarrow> nat" where
  "rank k None = 12 + 3 * k"
| "rank k (Some Entering) = 11 + 3 * k"
| "rank k (Some Waiting) = 10 + 3 * k"
| "rank k (Some Starting) = 9 + 3 * k"
| "rank k (Some Executing) = 8 + 3 * k"
| "rank k (Some (Publishing pub stdout ds)) = 7 + 2 * k + length ds"
| "rank k (Some (Sending stdout ds)) = 4 + 2 * length ds"
| "rank k (Some (Delivering stdout d ds)) = 5 + 2 * length ds"
| "rank k (Some (Failing e)) = 3"
| "rank k (Some (Closing r)) = 2"
| "rank k (Some (Leaving r)) = 1"
| "rank k (Some (Returned r)) = 0"
| "rank k (Some Panicked) = 0"

definition work_left :: "'p ExecutorContext \<Rightarrow> 'v sched \<Rightarrow> nat" where
  "work_left ctx s =
     (\<Sum>t \<in> task_ids ctx. rank (length (dependants ctx t)) (phase s t)) +
     (if receiving s then 1 else 0) + (if caller_cancelled s then 0 else 1)"

lemma sum_fun_upd:
  fixes f :: "'a \<Rightarrow> 'b \<Rightarrow> nat"
  assumes "finite A" "t \<in> A"
  shows "(\<Sum>x \<in> A. f x ((g(t := v)) x)) + f t (g t) = (\<Sum>x \<in> A. f x (g x)) + f t v"
proof -
  have "(\<Sum>x \<in> A. f x ((g(t := v)) x)) = f t v + (\<Sum>x \<in> A - {t}. f x (g x))"
    using assms by (subst sum.remove[of A t]) (auto intro!: sum.cong)
  moreover have "(\<Sum>x \<in> A. f x (g x)) = f t (g t) + (\<Sum>x \<in> A - {t}. f x (g x))"
    using assms by (rule sum.remove)
  ultimately show ?thesis by simp
qed

lemma work_left_move:
  assumes "t \<in> task_ids ctx" "phase s' = (phase s)(t \<mapsto> ph)" "receiving s' = receiving s"
    "caller_cancelled s' = caller_cancelled s"
    "rank (length (dependants ctx t)) (Some ph) < rank (length (dependants ctx t)) (phase s t)"
  shows "work_left ctx s' < work_left ctx s"
  using sum_fun_upd[of "task_ids ctx" t "\<lambda>x. rank (length (dependants ctx x))" "phase s" "Some ph"] assms
  by (simp add: work_left_def)

lemma handle_success_wf:
  assumes "wf_context ctx" "t \<in> task_ids ctx" "\<not> cancelled s"
  shows "phase (handle_success ctx t stdout outs s) =
    (phase s)(t \<mapsto> Publishing (publication_of ctx t stdout outs (deps_res s t)) stdout (dependants ctx t))"
  using assms wf_context_out(3)[OF assms(1,2)] by (simp add: handle_success_def set_phase_def)

lemma work_left_step:
  assumes wf: "wf_context ctx" and g: "graph_inv ctx (released es) s" and st: "step ctx s ev s'"
  shows "work_left ctx s' < work_left ctx s"
proof -
  have node: "t \<in> task_ids ctx" if "\<not> idle s t" for t using graph_invD(1)[OF g that] by simp
  have act: "t \<in> task_ids ctx" if "phase s t = Some ph" for t ph using node[of t] that by (simp add: idle_def)
  note move = work_left_move[where s = s and s' = s']
  show ?thesis using st
  proof cases
    case (spawn t q)
    then have "t \<in> task_ids ctx" "phase s t = None"
      using node[of t] graph_invD(3)[OF g, of t] by (simp_all add: idle_def)
    then show ?thesis using spawn by (intro move[of t _ Entering]) (simp_all add: op_defs)
  next
    case (enter t)
    then show ?thesis using enter_effect[OF enter(3)] enter_phase[OF enter(3)] act[of t]
      by (elim disjE; intro move[of t _ "the (phase s' t)"]) simp_all
  next
    case (permit t)
    then show ?thesis using acquire_permit_effect[OF permit(3)] act[of t]
      by (intro move[of t _ Starting]) simp_all
  next
    case (succeed t stdout outs)
    then have "t \<in> task_ids ctx" using act by blast
    then show ?thesis using succeed handle_success_wf[OF wf, of t s stdout outs]
        handle_success_effect[of ctx t stdout outs s]
      by (cases "cancelled s"; intro move[of t _ "the (phase s' t)"])
         (auto simp: handle_success_def set_phase_def)
  next
    case (release t pub stdout)
    obtain m ready where s': "s' = set_phase t (Sending stdout ready) (s\<lparr>in_degree := m\<rparr>)"
      and "length ready \<le> length (dependants ctx t)"
      using release_effect[OF wf g release(3)] release length_filter_le by blast
    then show ?thesis using release(3) act[OF release(3)]
      by (intro move[of t _ "the (phase s' t)"]) (simp_all add: s' set_phase_def)
  next
    case (check t stdout d ds)
    then show ?thesis using act[of t]
      by (cases "finished s"; intro move[of t _ "the (phase s' t)"]) (simp_all add: op_defs)
  next
    case (deliver t stdout d ds)
    then show ?thesis using act[of t]
      by (intro move[of t _ "the (phase s' t)"]) (auto simp: deliver_def set_phase_def split: if_splits)
  next
    case (scope_failed t m)
    then show ?thesis using act[of t] by (intro move[of t _ "Failing (IoError m)"]) (simp_all add: op_defs)
  next
    case (permit_failed t e)
    then show ?thesis using act[of t] by (intro move[of t _ "Failing e"]) (simp_all add: op_defs)
  next
    case (begin_step t)
    then show ?thesis using act[of t] by (intro move[of t _ Executing]) simp_all
  next
    case (step_failed t m)
    then show ?thesis using act[of t] by (intro move[of t _ "Failing (IoError m)"]) (simp_all add: op_defs)
  next
    case (error t e)
    then show ?thesis using act[of t] by (intro move[of t _ "Failing e"]) (simp_all add: op_defs)
  next
    case (panic t)
    then show ?thesis using act[of t] by (intro move[of t _ Panicked]) (simp_all add: op_defs)
  next
    case (fail t e)
    then show ?thesis using act[of t] by (intro move[of t _ "Closing (Err e)"]) (simp_all add: op_defs)
  next
    case (publish t pub stdout d ds)
    then show ?thesis using act[of t] by (intro move[of t _ "Publishing pub stdout ds"]) (simp_all add: op_defs)
  next
    case (leave t stdout)
    then show ?thesis using act[of t] by (intro move[of t _ "Closing (Ok stdout)"]) (simp_all add: op_defs)
  next
    case (close t r rejected)
    then show ?thesis using act[of t] by (intro move[of t _ "the (phase s' t)"]) (simp_all add: op_defs)
  next
    case (return t r)
    then show ?thesis using act[of t] by (intro move[of t _ "Returned r"]) (simp_all add: op_defs)
  qed (simp_all add: work_left_def op_defs)
qed

definition edge_count :: "'p ExecutorContext \<Rightarrow> nat" where
  "edge_count ctx = sum_list (map (\<lambda>t. length (dependants ctx t)) (nodes (dag ctx)))"

lemma work_left_start:
  assumes wf: "wf_context ctx" and s: "start_plan ctx = Inr s"
  shows "work_left ctx s = 12 * length (nodes (dag ctx)) + 3 * edge_count ctx + 2"
proof -
  obtain m where m: "s = schedule_initial_tasks ctx (new_sched ctx\<lparr>in_degree := m\<rparr>)"
    using start_state[OF wf s] by blast
  have d: "distinct (nodes (dag ctx))" using wf by (simp add: wf_context_def wf_dag_def node_ids_def)
  have "(\<Sum>t \<in> task_ids ctx. 12 + 3 * length (dependants ctx t)) = 12 * length (nodes (dag ctx)) + 3 * edge_count ctx"
    unfolding edge_count_def sum_list_distinct_conv_sum_set[OF d, symmetric]
    by (induction "nodes (dag ctx)") (simp_all add: sum_list_addf sum_list_triv sum_list_const_mult)
  then show ?thesis
    by (simp add: work_left_def m schedule_initial_tasks_def new_sched_def Let_def)
qed

lemma run_work_left:
  assumes wf: "wf_context ctx" and r: "run ctx es s"
  shows "length es + work_left ctx s \<le> 12 * length (nodes (dag ctx)) + 3 * edge_count ctx + 2"
  using r
proof induction
  case (start s)
  then show ?case using work_left_start[OF wf start] by simp
next
  case (step es s ev s')
  then show ?case using work_left_step[OF wf graph_inv_run[OF wf step(1)] step(2)] by simp
qed

text \<open>
  C13.  Every run ends.  Whatever the tasks, the output sink and the caller do, the scheduler makes
  at most twelve steps per node, three per dependency, and two more.
\<close>

theorem run_bounded:
  assumes "wf_context ctx" "run ctx es s"
  shows "length es \<le> 12 * length (nodes (dag ctx)) + 3 * edge_count ctx + 2"
  using run_work_left[OF assms] by simp

theorem run_bounded_witness: "length (pair_events @ pair_finish) \<le> 29"
proof -
  obtain s where "play pair_context (pair_events @ pair_finish) = Some s" using pair_complete by blast
  from run_bounded[OF pair_context_wf play_run[OF this]] show ?thesis
    by (simp add: pair_context_def pair_dag_def edge_count_def deps_of_def)
qed

section \<open>The count of active tasks\<close>

fun weight :: "'v phase option \<Rightarrow> nat" where
  "weight (Some Entering) = 1"
| "weight (Some Waiting) = 1"
| "weight (Some Starting) = 1"
| "weight (Some Executing) = 1"
| "weight (Some (Publishing pub stdout ds)) = 1"
| "weight (Some (Sending stdout ds)) = 1"
| "weight (Some (Delivering stdout d ds)) = 2"
| "weight _ = 0"

definition accounted :: "'p ExecutorContext \<Rightarrow> 'v sched \<Rightarrow> nat" where
  "accounted ctx s = length (queue s) + (\<Sum>t \<in> task_ids ctx. weight (phase s t))"

text \<open>Events in which the environment disturbs a run.\<close>

fun disturbing :: "'v event \<Rightarrow> bool" where
  "disturbing EvCancel = True"
| "disturbing (EvScopeFailed t m) = True"
| "disturbing (EvPermitFailed t e) = True"
| "disturbing (EvStepFailed t m) = True"
| "disturbing (EvError t e) = True"
| "disturbing (EvPanic t) = True"
| "disturbing _ = False"

definition calm :: "'v event list \<Rightarrow> bool" where
  "calm es \<longleftrightarrow> (\<forall>ev \<in> set es. \<not> disturbing ev)"

lemma calm_snoc [simp]: "calm (es @ [ev]) \<longleftrightarrow> calm es \<and> \<not> disturbing ev"
  by (auto simp: calm_def)

text \<open>
  The counter never falls below the number of queued and unfinished nodes.  In a calm run it is
  exactly that number, nothing is cancelled or failed, and \<open>finished\<close> means that it is zero.
\<close>

definition count_inv :: "'p ExecutorContext \<Rightarrow> 'v event list \<Rightarrow> 'v sched \<Rightarrow> bool" where
  "count_inv ctx es s \<longleftrightarrow>
     accounted ctx s \<le> active s \<and> (receiving s \<or> queue s = []) \<and> (receiving s \<or> finished s \<or> cancelled s) \<and>
     (calm es \<longrightarrow> active s = accounted ctx s \<and> (finished s \<longleftrightarrow> active s = 0) \<and> \<not> cancelled s \<and>
        (\<forall>t e. phase s t \<noteq> Some (Failing e)) \<and> (\<forall>t. phase s t \<noteq> Some Panicked))"

lemma accounted_move:
  assumes "t \<in> task_ids ctx" "phase s' = (phase s)(t \<mapsto> ph)"
  shows "accounted ctx s' + length (queue s) + weight (phase s t) =
    accounted ctx s + length (queue s') + weight (Some ph)"
  using sum_fun_upd[of "task_ids ctx" t "\<lambda>x. weight" "phase s" "Some ph"] assms
  by (simp add: accounted_def)

lemma accounted_ge:
  assumes "t \<in> task_ids ctx"
  shows "length (queue s) + weight (phase s t) \<le> accounted ctx s"
  using assms by (simp add: accounted_def sum.remove[of "task_ids ctx" t])

lemma count_inv_quiet:
  assumes inv: "count_inv ctx es s" and t: "t \<in> task_ids ctx"
    and s': "phase s' = (phase s)(t \<mapsto> ph)" "queue s' = queue s" "active s' = active s"
      "finished s \<Longrightarrow> finished s'" "cancelled s \<Longrightarrow> cancelled s'" "receiving s' = receiving s"
    and w: "weight (Some ph) \<le> weight (phase s t)"
    and c: "calm es' \<Longrightarrow> calm es \<and> weight (Some ph) = weight (phase s t) \<and> finished s' = finished s \<and>
      cancelled s' = cancelled s \<and> (\<forall>e. ph \<noteq> Failing e) \<and> ph \<noteq> Panicked"
  shows "count_inv ctx es' s'"
proof -
  have a: "accounted ctx s' + weight (phase s t) = accounted ctx s + weight (Some ph)"
    using accounted_move[OF t s'(1)] s'(2) by simp
  have base: "accounted ctx s \<le> active s" "receiving s \<or> queue s = []" "receiving s \<or> finished s \<or> cancelled s"
    using inv by (simp_all add: count_inv_def)
  have "accounted ctx s' \<le> active s'" using a w base(1) s'(3) by simp
  moreover have "active s' = accounted ctx s' \<and> (finished s' \<longleftrightarrow> active s' = 0) \<and> \<not> cancelled s' \<and>
      (\<forall>t e. phase s' t \<noteq> Some (Failing e)) \<and> (\<forall>t. phase s' t \<noteq> Some Panicked)" if "calm es'"
    using c[OF that] a inv s' by (auto simp: count_inv_def)
  ultimately show ?thesis using base s' by (auto simp: count_inv_def)
qed

lemma count_inv_raise:
  assumes inv: "count_inv ctx es s" and t: "t \<in> task_ids ctx" and d: "disturbing ev"
  shows "count_inv ctx (es @ [ev]) (raise_error ctx t e s)"
  using d by (intro count_inv_quiet[OF inv t, of _ "Failing e"]) (simp_all add: op_defs)

lemma count_inv_step:
  assumes wf: "wf_context ctx" and g: "graph_inv ctx (released es) s"
    and inv: "count_inv ctx es s" and lk: "lock_inv ctx s" and st: "step ctx s ev s'"
  shows "count_inv ctx (es @ [ev]) s'"
proof -
  have node: "t \<in> task_ids ctx" if "\<not> idle s t" for t using graph_invD(1)[OF g that] by simp
  have act: "t \<in> task_ids ctx" if "phase s t = Some ph" for t ph using node[of t] that by (simp add: idle_def)
  have pos: "length (queue s) + weight (phase s t) \<le> active s" if "phase s t = Some ph" for t ph
    using accounted_ge[OF act[OF that], of s] inv by (simp add: count_inv_def)
  note quiet = count_inv_quiet[OF inv]
  show ?thesis using st
  proof cases
    case (spawn t q)
    then have t: "t \<in> task_ids ctx" "phase s t = None"
      using node[of t] graph_invD(3)[OF g, of t] by (simp_all add: idle_def)
    have s': "phase s' = (phase s)(t \<mapsto> Entering)" "queue s' = q" "active s' = active s"
      "finished s' = finished s" "cancelled s' = cancelled s" "receiving s' = receiving s"
      using spawn by (simp_all add: op_defs)
    have "accounted ctx s' = accounted ctx s" using accounted_move[OF t(1) s'(1)] s'(2) t spawn by simp
    then show ?thesis using inv spawn s' by (auto simp: count_inv_def)
  next
    case stop
    then have s': "phase s' = phase s" "queue s' = []" "active s' = active s" "finished s' = finished s"
      "cancelled s' = cancelled s" "\<not> receiving s'" by (simp_all add: op_defs)
    then have "accounted ctx s' \<le> accounted ctx s" by (simp add: accounted_def)
    moreover have "accounted ctx s' = accounted ctx s" if "calm es"
      using that inv stop s' by (auto simp: count_inv_def accounted_def)
    ultimately show ?thesis using inv stop s' by (auto simp: count_inv_def)
  next
    case cancel
    then show ?thesis using inv by (simp add: count_inv_def accounted_def op_defs)
  next
    case (enter t)
    have "phase s' = (phase s)(t \<mapsto> Waiting)"
      using enter(3)
    proof (cases rule: enter_cases)
      case (unknown sess)
      then show ?thesis using lock_invD(7)[OF lk act[OF enter(2)]] by blast
    qed (simp_all add: set_phase_def)
    then show ?thesis using enter_effect[OF enter(3)] enter act[of t]
      by (intro quiet[of t _ Waiting]) simp_all
  next
    case (permit t)
    then show ?thesis using acquire_permit_effect[OF permit(3)] act[of t]
      by (intro quiet[of t _ Starting]) simp_all
  next
    case (begin_step t)
    then show ?thesis using act[of t] by (intro quiet[of t _ Executing]) simp_all
  next
    case (succeed t stdout outs)
    note e = handle_success_effect[of ctx t stdout outs s]
    show ?thesis
    proof (cases "cancelled s")
      case True
      then have "\<not> calm es" using inv by (auto simp: count_inv_def)
      then show ?thesis using succeed True e act[of t]
        by (intro quiet[of t _ "Closing (Ok [])"]) (simp_all add: handle_success_def set_phase_def)
    next
      case False
      then show ?thesis using succeed e act[of t] handle_success_wf[OF wf act False, of t _ stdout outs]
        by (intro quiet[of t _ "the (phase s' t)"]) simp_all
    qed
  next
    case (fail t e)
    then have "\<not> calm es" using inv by (auto simp: count_inv_def)
    then show ?thesis using fail act[of t] by (intro quiet[of t _ "Closing (Err e)"]) (simp_all add: op_defs)
  next
    case (publish t pub stdout d ds)
    then show ?thesis using act[of t] by (intro quiet[of t _ "Publishing pub stdout ds"]) (simp_all add: op_defs)
  next
    case (release t pub stdout)
    obtain m ready where s': "s' = set_phase t (Sending stdout ready) (s\<lparr>in_degree := m\<rparr>)"
      using release_effect[OF wf g release(3)] release by blast
    then show ?thesis using release(1,3) act[OF release(3)]
      by (intro quiet[of t _ "Sending stdout ready"]) (simp_all add: set_phase_def)
  next
    case (check t stdout d ds)
    show ?thesis
    proof (cases "finished s")
      case True
      then show ?thesis using check act[of t] by (intro quiet[of t _ "Sending stdout ds"]) (simp_all add: op_defs)
    next
      case False
      then have s': "phase s' = (phase s)(t \<mapsto> Delivering stdout d ds)" "queue s' = queue s"
        "active s' = active s + 1" "finished s' = finished s" "cancelled s' = cancelled s" "receiving s' = receiving s"
        using check by (simp_all add: op_defs)
      have "accounted ctx s' = accounted ctx s + 1"
        using accounted_move[OF act[OF check(3)] s'(1)] s'(2) check by simp
      then show ?thesis using inv check s' False by (auto simp: count_inv_def)
    qed
  next
    case (deliver t stdout d ds)
    show ?thesis
    proof (cases "receiving s")
      case False
      then have s': "s' = set_phase t (Closing (Err ChannelError)) s" using deliver by (simp add: deliver_def)
      have "\<not> calm es" using inv pos[OF deliver(2)] deliver False by (auto simp: count_inv_def)
      then show ?thesis using s' deliver act[of t]
        by (intro quiet[of t _ "Closing (Err ChannelError)"]) (simp_all add: set_phase_def)
    next
      case True
      then have s': "phase s' = (phase s)(t \<mapsto> Sending stdout ds)" "queue s' = queue s @ [d]"
        "active s' = active s" "finished s' = finished s" "cancelled s' = cancelled s" "receiving s' = receiving s"
        using deliver by (auto simp: deliver_def set_phase_def split: if_splits)
      have "accounted ctx s' = accounted ctx s"
        using accounted_move[OF act[OF deliver(2)] s'(1)] s'(2) deliver by simp
      then show ?thesis using inv deliver s' True by (auto simp: count_inv_def)
    qed
  next
    case (leave t stdout)
    have one: "1 \<le> active s" using pos[OF leave(3)] leave by simp
    have s': "phase s' = (phase s)(t \<mapsto> Closing (Ok stdout))" "queue s' = queue s"
      "active s' = active s - 1" "finished s' = (finished s \<or> active s = 1)" "cancelled s' = cancelled s"
      "receiving s' = receiving s"
      using leave one by (simp_all add: op_defs)
    have "accounted ctx s' + 1 = accounted ctx s"
      using accounted_move[OF act[OF leave(3)] s'(1)] s'(2) leave by simp
    then show ?thesis using inv leave(1) s' one by (auto simp: count_inv_def)
  next
    case (close t r rejected)
    then show ?thesis using act[of t] by (intro quiet[of t _ "the (phase s' t)"]) (simp_all add: op_defs)
  next
    case (return t r)
    then show ?thesis using act[of t] by (intro quiet[of t _ "Returned r"]) (simp_all add: op_defs)
  next
    case (panic t)
    then show ?thesis using act[of t] by (intro quiet[of t _ Panicked]) (simp_all add: op_defs)
  qed (use act in \<open>auto intro!: count_inv_raise[OF inv]\<close>)
qed

lemma count_inv_run:
  assumes wf: "wf_context ctx" and r: "run ctx es s"
  shows "count_inv ctx es s"
  using r
proof induction
  case (start s)
  obtain m where m: "s = schedule_initial_tasks ctx (new_sched ctx\<lparr>in_degree := m\<rparr>)" "active s = length (queue s)"
    "finished s \<longleftrightarrow> queue s = []" "phase s = (\<lambda>_. None)"
    by (rule start_state[OF wf start]) blast
  have "receiving s" "\<not> cancelled s"
    by (simp_all add: m(1) schedule_initial_tasks_def new_sched_def Let_def)
  then show ?case using m(2-4) by (simp add: count_inv_def accounted_def)
next
  case (step es s ev s')
  then show ?case
    using count_inv_step[OF wf graph_inv_run[OF wf step(1)] step(3) lock_inv_run[OF wf step(1)]] by simp
qed

section \<open>Nothing that is ready is forgotten\<close>

definition is_root_barrier :: "'p ExecutorContext \<Rightarrow> string \<Rightarrow> bool" where
  "is_root_barrier ctx t \<longleftrightarrow> is_deferred ctx t \<and> before ctx t = {}"

definition ready_inv :: "'p ExecutorContext \<Rightarrow> 'v event list \<Rightarrow> 'v sched \<Rightarrow> bool" where
  "ready_inv ctx es s \<longleftrightarrow> (calm es \<longrightarrow>
     (\<forall>t \<in> task_ids ctx. before ctx t \<subseteq> released es \<longrightarrow> \<not> is_root_barrier ctx t \<longrightarrow> \<not> idle s t) \<and>
     (\<forall>t. past (phase s t) \<longrightarrow> t \<in> released es))"

lemma idle_move:
  assumes "phase s t \<noteq> None" "phase s' = (phase s)(t \<mapsto> ph)" "set (queue s) \<subseteq> set (queue s')"
    "set (unsent (phase s t)) \<subseteq> set (unsent (Some ph)) \<union> set (queue s')" "idle s' x"
  shows "idle s x"
  unfolding idle_def
proof (intro conjI allI)
  have x: "phase s' x = None" "x \<notin> set (queue s')" "\<And>u. x \<notin> set (unsent (phase s' u))"
    using assms(5) by (simp_all add: idle_def)
  show "phase s x = None" using x(1) assms(2) by (auto split: if_splits)
  show "x \<notin> set (queue s)" using x(2) assms(3) by blast
  show "x \<notin> set (unsent (phase s u))" for u
    using x(2) x(3)[of u] assms(2,4) by (cases "u = t") auto
qed

lemma ready_inv_quiet:
  assumes inv: "ready_inv ctx es s" and t: "phase s t \<noteq> None"
    and s': "phase s' = (phase s)(t \<mapsto> ph)" "set (queue s) \<subseteq> set (queue s')"
    and ph: "calm es' \<Longrightarrow> calm es \<and> released es' = released es \<and>
      set (unsent (phase s t)) \<subseteq> set (unsent (Some ph)) \<union> set (queue s') \<and> (past (Some ph) \<longrightarrow> past (phase s t))"
  shows "ready_inv ctx es' s'"
  unfolding ready_inv_def
proof (intro impI conjI ballI allI notI)
  assume c: "calm es'"
  note p = ph[OF c]
  show False if "x \<in> task_ids ctx" "before ctx x \<subseteq> released es'" "\<not> is_root_barrier ctx x" "idle s' x" for x
    using idle_move[OF t s', of x] inv that p unfolding ready_inv_def by simp
  show "x \<in> released es'" if "past (phase s' x)" for x
    using that inv p s'(1) unfolding ready_inv_def by (cases "x = t") simp_all
qed

lemma ready_inv_step:
  assumes wf: "wf_context ctx" and g: "graph_inv ctx (released es) s" and c: "count_inv ctx es s"
    and inv: "ready_inv ctx es s" and st: "step ctx s ev s'"
  shows "ready_inv ctx (es @ [ev]) s'"
proof -
  have act: "t \<in> task_ids ctx" if "phase s t = Some ph" for t ph
    using graph_invD(1)[OF g, of t] that by (simp add: idle_def)
  note quiet = ready_inv_quiet[OF inv]
  show ?thesis using st
  proof cases
    case (spawn t q)
    then have s': "phase s' = (phase s)(t \<mapsto> Entering)" "queue s' = q" by (simp_all add: op_defs)
    have tn: "phase s t = None" using graph_invD(3)[OF g, of t] spawn by simp
    have "idle s x" if x: "idle s' x" for x
    proof -
      have "x \<noteq> t" "phase s x = None" "x \<notin> set q" using x s' by (auto simp: idle_def split: if_splits)
      moreover have "x \<notin> set (unsent (phase s u))" for u
        using x s' tn unfolding idle_def by (cases "u = t") (auto dest: spec[of _ u])
      ultimately show ?thesis using spawn by (simp add: idle_def)
    qed
    then show ?thesis using inv spawn s' tn unfolding ready_inv_def by auto
  next
    case stop
    show ?thesis
    proof (cases "calm es")
      case True
      then have "queue s = []" using c stop by (auto simp: count_inv_def accounted_def)
      then show ?thesis using inv stop unfolding ready_inv_def by (simp add: op_defs idle_def)
    qed (use stop in \<open>simp add: ready_inv_def\<close>)
  next
    case (enter t)
    then show ?thesis using enter_effect[OF enter(3)] enter_phase[OF enter(3)]
      by (elim disjE; intro quiet[of t _ "the (phase s' t)"]) simp_all
  next
    case (permit t)
    then show ?thesis using acquire_permit_effect[OF permit(3)] by (intro quiet[of t _ Starting]) simp_all
  next
    case (begin_step t)
    then show ?thesis by (intro quiet[of t _ Executing]) simp_all
  next
    case (succeed t stdout outs)
    note e = handle_success_effect[of ctx t stdout outs s]
    have "\<not> calm es" if "cancelled s" using that c by (auto simp: count_inv_def)
    then show ?thesis using succeed e handle_success_wf[OF wf act[OF succeed(3)], of s stdout outs]
      by (cases "cancelled s"; intro quiet[of t _ "the (phase s' t)"])
         (simp_all add: handle_success_def set_phase_def)
  next
    case (fail t e)
    then show ?thesis using c
      by (intro quiet[of t _ "Closing (Err e)"]) (auto simp: op_defs count_inv_def)
  next
    case (publish t pub stdout d ds)
    then show ?thesis by (intro quiet[of t _ "Publishing pub stdout ds"]) (simp_all add: op_defs)
  next
    case (check t stdout d ds)
    have "\<not> calm es" if "finished s"
      using that c accounted_ge[OF act[OF check(3)], of s] check by (auto simp: count_inv_def)
    then show ?thesis using check
      by (cases "finished s"; intro quiet[of t _ "the (phase s' t)"]) (auto simp: op_defs)
  next
    case (leave t stdout)
    then show ?thesis by (intro quiet[of t _ "Closing (Ok stdout)"]) (simp_all add: op_defs)
  next
    case (close t r rejected)
    then show ?thesis by (intro quiet[of t _ "the (phase s' t)"]) (simp_all add: op_defs)
  next
    case (return t r)
    then show ?thesis by (intro quiet[of t _ "Returned r"]) (simp_all add: op_defs)
  next
    case (deliver t stdout d ds)
    have "\<not> calm es" if "\<not> receiving s"
      using that c accounted_ge[OF act[OF deliver(2)], of s] deliver by (auto simp: count_inv_def)
    then show ?thesis using deliver
      by (intro quiet[of t _ "the (phase s' t)"]) (auto simp: deliver_def set_phase_def split: if_splits)
  next
    case (release t pub stdout)
    let ?ready = "filter (\<lambda>d. before ctx d - released es = {t}) (dependants ctx t)"
    obtain m where s': "s' = set_phase t (Sending stdout ?ready) (s\<lparr>in_degree := m\<rparr>)"
      using release_effect[OF wf g release(3)] release by blast
    have p: "phase s' = (phase s)(t \<mapsto> Sending stdout ?ready)" "queue s' = queue s"
      by (simp_all add: s' set_phase_def)
    have old: "idle s x" if "idle s' x" for x
      using idle_move[of s t s' "Sending stdout ?ready" x] p release(3) that by simp
    have "\<not> idle s' x" if x: "x \<in> task_ids ctx" "before ctx x \<subseteq> insert t (released es)"
      "\<not> is_root_barrier ctx x" "calm es" for x
    proof (cases "before ctx x \<subseteq> released es")
      case True
      then show ?thesis using inv x old unfolding ready_inv_def by blast
    next
      case False
      have "t \<notin> released es" using graph_invD(8)[OF g, of t] release(3) by auto
      then have b: "before ctx x - released es = {t}" using False x(2) by blast
      then have "x \<in> set ?ready" using x(1) by (auto simp: preds_def)
      then show ?thesis using p(1) by (auto simp: idle_def intro!: exI[of _ t])
    qed
    then show ?thesis using inv release(1) p(1) unfolding ready_inv_def by (auto split: if_splits)
  qed (auto simp: ready_inv_def)
qed

lemma ready_inv_run:
  assumes wf: "wf_context ctx" and r: "run ctx es s"
  shows "ready_inv ctx es s"
  using r
proof induction
  case (start s)
  have "set (queue s) = {t \<in> task_ids ctx. \<not> is_deferred ctx t \<and> before ctx t = {}}" "phase s = (\<lambda>_. None)"
    by (rule start_state[OF wf start], assumption)+
  then show ?case by (auto simp: ready_inv_def idle_def is_root_barrier_def)
next
  case (step es s ev s')
  then show ?case
    using ready_inv_step[OF wf graph_inv_run[OF wf step(1)] count_inv_run[OF wf step(1)]] by simp
qed

lemma quiescent_phase:
  assumes "graph_inv ctx Rel s" "quiescent ctx s"
  shows "joined (phase s t)"
  using graph_invD(1)[OF assms(1), of t] assms(2) by (cases "phase s t") (auto simp: idle_def quiescent_def)

lemma joined_unsent: "joined ph \<Longrightarrow> unsent ph = []"
  by (cases ph rule: joined.cases) auto

lemma calm_quiescent_released:
  assumes wf: "wf_context ctx" and ac: "acyclic (edge_rel id (dag ctx))"
    and r: "run ctx es s" and c: "calm es" and q: "quiescent ctx s"
    and t: "t \<in> task_ids ctx" "\<And>r. (r, t) \<in> (edge_rel id (dag ctx))\<^sup>* \<Longrightarrow> \<not> is_root_barrier ctx r"
  shows "t \<in> released es"
proof -
  let ?E = "edge_rel id (dag ctx)"
  note g = graph_inv_run[OF wf r] and cn = count_inv_run[OF wf r] and rd = ready_inv_run[OF wf r]
  have "wf ?E" using ac by (intro finite_acyclic_wf) (simp_all add: edge_rel_def)
  then show ?thesis using t
  proof (induction t rule: wf_induct_rule)
    case (less t)
    have "x \<in> released es" if x: "x \<in> before ctx t" for x
    proof (rule less.IH)
      show e: "(x, t) \<in> ?E" using before_edge_rel[OF wf] x by simp
      show "x \<in> task_ids ctx" using x by (simp add: preds_def)
      show "\<not> is_root_barrier ctx r" if "(r, x) \<in> ?E\<^sup>*" for r
        using less.prems(2) rtrancl_into_rtrancl[OF that e] by blast
    qed
    then have "\<not> idle s t" using rd c less.prems unfolding ready_inv_def by blast
    moreover have "queue s = []" using cn q by (auto simp: count_inv_def quiescent_def)
    moreover have "unsent (phase s u) = []" for u by (rule joined_unsent[OF quiescent_phase[OF g q]])
    ultimately have "phase s t \<noteq> None" by (simp add: idle_def)
    moreover have "phase s t \<noteq> Some Panicked" using cn c by (simp add: count_inv_def)
    ultimately have "past (phase s t)"
      using quiescent_phase[OF g q, of t] by (cases "phase s t" rule: joined.cases) auto
    then show ?case using rd c unfolding ready_inv_def by blast
  qed
qed

text \<open>
  C5.  A run that nothing disturbs executes the whole plan.  On an acyclic graph, when the loop has
  ended and every node task has returned, and no task failed or panicked and nobody cancelled,
  then every node has succeeded, except the deferred barriers that are graph roots (which the
  scheduler never starts) and the nodes behind them.
\<close>

theorem calm_run_completes:
  assumes "wf_context ctx" "acyclic (edge_rel id (dag ctx))" "run ctx es s" "calm es" "quiescent ctx s"
    and "t \<in> set (nodes (dag ctx))"
    and "\<And>r. (r, t) \<in> (edge_rel id (dag ctx))\<^sup>* \<Longrightarrow> \<not> is_root_barrier ctx r"
  shows "t \<in> succeeded es"
  using calm_quiescent_released[OF assms] history_invD(3)[OF history_inv_run[OF assms(1,3)]] by blast

theorem calm_run_completes_witness: "''b'' \<in> succeeded (pair_events @ pair_finish)"
proof -
  obtain s where s: "play pair_context (pair_events @ pair_finish) = Some s" "quiescent pair_context s"
    using pair_complete by blast
  have e: "edge_rel id (dag pair_context) = {(''a'', ''b'')}"
    by (simp add: pair_context_def pair_dag_def edge_rel_def edge_list_def)
  have ac: "acyclic (edge_rel id (dag pair_context))" by (simp add: e acyclic_def trancl_insert)
  have c: "calm (pair_events @ pair_finish)" by (simp add: calm_def pair_events_def pair_finish_def)
  show ?thesis
    by (rule calm_run_completes[OF pair_context_wf ac play_run[OF s(1)] c s(2)])
       (simp_all add: pair_context_def pair_dag_def is_root_barrier_def is_deferred_def)
qed

section \<open>A run can always go on\<close>

fun friendly :: "'v event \<Rightarrow> bool" where
  "friendly (EvClose t (Some m)) = False"
| "friendly ev = (\<not> disturbing ev)"

definition can_step :: "'p ExecutorContext \<Rightarrow> 'v sched \<Rightarrow> bool" where
  "can_step ctx s \<longleftrightarrow> (\<exists>ev s'. step ctx s ev s' \<and> friendly ev)"

lemma can_stepI: "step ctx s ev s' \<Longrightarrow> friendly ev \<Longrightarrow> can_step ctx s"
  by (auto simp: can_step_def)

lemma queue_room:
  assumes g: "graph_inv ctx Rel s" and t: "phase s t = Some (Delivering stdout d ds)"
  shows "length (queue s) < channel_capacity ctx"
proof -
  have d: "d \<notin> set (queue s)" using graph_invD(5)[OF g, of d t] t by simp
  have "d \<in> set (unsent (phase s t))" using t by simp
  then have "d \<in> task_ids ctx" using graph_invD(1)[OF g, of d] unfolding idle_def by blast
  moreover have "set (queue s) \<subseteq> task_ids ctx"
    using graph_invD(1)[OF g] by (auto simp: idle_def)
  ultimately have "set (d # queue s) \<subseteq> task_ids ctx" by simp
  then have "card (set (d # queue s)) \<le> card (task_ids ctx)" by (intro card_mono) auto
  moreover have "card (set (d # queue s)) = Suc (length (queue s))"
    using d graph_invD(2)[OF g] by (simp add: distinct_card)
  moreover have "card (task_ids ctx) \<le> node_count (dag ctx)" by (simp add: node_count_def card_length)
  ultimately show ?thesis by (simp add: channel_capacity_def)
qed

lemma working_can_step:
  assumes g: "graph_inv ctx Rel s" and t: "phase s t = Some ph"
    and ph: "\<not> joined (Some ph)" "ph \<noteq> Entering" "ph \<noteq> Waiting"
  shows "can_step ctx s"
proof (cases ph)
  case (Publishing pub stdout ds)
  then show ?thesis using t
    by (cases ds) (auto intro: can_stepI[OF step.release] can_stepI[OF step.publish])
next
  case (Sending stdout ds)
  then show ?thesis using t
    by (cases ds) (auto intro: can_stepI[OF step.leave] can_stepI[OF step.check])
next
  case (Delivering stdout d ds)
  have "\<exists>s'. deliver ctx t stdout d ds s = Some s'"
    using queue_room[OF g] t Delivering by (simp add: deliver_def)
  then show ?thesis using t Delivering by (auto intro: can_stepI[OF step.deliver])
next
  case (Closing r)
  then show ?thesis using t can_stepI[OF step.close[of s t r ctx None]] by simp
qed (use t ph in \<open>auto intro: can_stepI[OF step.begin_step] can_stepI[OF step.succeed] can_stepI[OF step.fail]
  can_stepI[OF step.return]\<close>)

text \<open>The tokens are never reset, and a failing task leaves its trace in one of them.\<close>

lemma step_tokens:
  assumes st: "step ctx s ev s'"
  shows "finished s \<Longrightarrow> finished s'" and "cancelled s \<Longrightarrow> cancelled s'"
  using st
  by (cases; auto simp: op_defs deliver_def drop_permit_effect tracker_complete_effect begin_node_effect
        handle_success_effect release_dependants_def
      dest!: enter_effect acquire_permit_effect split: if_splits sum.splits failure.splits DAGError.splits)+

lemma handle_success_other: "u \<noteq> t \<Longrightarrow> phase (handle_success ctx t stdout outs s) u = phase s u"
  using handle_success_effect(1)[of ctx t stdout outs s] by auto

lemma step_failing:
  assumes g: "graph_inv ctx Rel s" and st: "step ctx s ev s'" and f: "phase s t = Some (Failing e)"
  shows "phase s' t = Some (Failing e) \<or> finished s'"
  using st
proof cases
  case (spawn u q)
  then have "phase s u = None" using graph_invD(3)[OF g, of u] by simp
  then show ?thesis using spawn f by (auto simp: op_defs)
next
  case (succeed u stdout outs)
  then show ?thesis using f by (cases "t = u") (auto simp: handle_success_other)
qed (use f in \<open>auto simp: op_defs deliver_def release_dependants_def
      dest!: enter_phase acquire_permit_effect split: if_splits sum.splits failure.splits DAGError.splits\<close>)

lemma step_disturbed:
  assumes "step ctx s ev s'" "disturbing ev" "\<And>t. ev \<noteq> EvPanic t"
  shows "cancelled s' \<or> (\<exists>t e. phase s' t = Some (Failing e))"
  using assms by cases (auto simp: op_defs)

lemma step_panicked:
  assumes wf: "wf_context ctx" and g: "graph_inv ctx Rel s" and lk: "lock_inv ctx s"
    and st: "step ctx s ev s'" and p: "phase s' t = Some Panicked" "phase s t \<noteq> Some Panicked"
  shows "ev = EvPanic t"
  using st
proof cases
  case (enter u)
  have u: "u \<in> task_ids ctx" using graph_invD(1)[OF g, of u] enter by (simp add: idle_def)
  show ?thesis using enter(3)
  proof (cases rule: enter_cases)
    case (unknown sess)
    then show ?thesis using lock_invD(7)[OF lk u] by blast
  qed (use p in \<open>auto simp: set_phase_def split: if_splits\<close>)
next
  case (succeed u stdout outs)
  then show ?thesis using p handle_success_effect(1)[of ctx u stdout outs s] by (auto split: if_splits)
next
  case (release u pub stdout)
  then show ?thesis using p release_effect[OF wf g, of u pub stdout] by (auto simp: set_phase_def split: if_splits)
qed (use p in \<open>auto simp: op_defs deliver_def dest!: acquire_permit_effect split: if_splits\<close>)

definition trouble_inv :: "'v event list \<Rightarrow> 'v sched \<Rightarrow> bool" where
  "trouble_inv es s \<longleftrightarrow> ((\<forall>t. EvPanic t \<notin> set es) \<longrightarrow>
     (\<forall>t. phase s t \<noteq> Some Panicked) \<and>
     (calm es \<or> finished s \<or> cancelled s \<or> (\<exists>t e. phase s t = Some (Failing e))))"

lemma trouble_inv_run:
  assumes wf: "wf_context ctx" and r: "run ctx es s"
  shows "trouble_inv es s"
  using r
proof induction
  case (start s)
  then obtain m where "s = schedule_initial_tasks ctx (new_sched ctx\<lparr>in_degree := m\<rparr>)"
    by (rule start_state[OF wf]) blast
  then show ?case by (simp add: trouble_inv_def calm_def schedule_initial_tasks_def new_sched_def Let_def)
next
  case (step es s ev s')
  note g = graph_inv_run[OF wf step(1)] and lk = lock_inv_run[OF wf step(1)]
  show ?case unfolding trouble_inv_def
  proof (intro impI conjI allI)
    assume np: "\<forall>t. EvPanic t \<notin> set (es @ [ev])"
    then have p: "\<forall>t. phase s t \<noteq> Some Panicked"
      and t: "calm es \<or> finished s \<or> cancelled s \<or> (\<exists>t e. phase s t = Some (Failing e))"
      using step.IH by (simp_all add: trouble_inv_def)
    show "phase s' t \<noteq> Some Panicked" for t using step_panicked[OF wf g lk step(2)] p np by auto
    show "calm (es @ [ev]) \<or> finished s' \<or> cancelled s' \<or> (\<exists>t e. phase s' t = Some (Failing e))"
    proof (cases "disturbing ev")
      case True
      then show ?thesis using step_disturbed[OF step(2)] np by auto
    next
      case False
      then show ?thesis using t step_tokens[OF step(2)] step_failing[OF g step(2)] by (metis calm_snoc)
    qed
  qed
qed

text \<open>Without interactive sessions the writer side of the runtime lock is never taken.\<close>

definition session_free :: "'p ExecutorContext \<Rightarrow> bool" where
  "session_free ctx \<longleftrightarrow> (\<forall>t \<in> set (nodes (dag ctx)). locks ctx t \<longrightarrow> session_of ctx t = None)"

lemma not_exclusive_run:
  assumes wf: "wf_context ctx" and sf: "session_free ctx" and r: "run ctx es s"
  shows "\<not> exclusive s"
  using r
proof induction
  case (start s)
  then obtain m where "s = schedule_initial_tasks ctx (new_sched ctx\<lparr>in_degree := m\<rparr>)"
    by (rule start_state[OF wf]) blast
  then show ?case by (simp add: schedule_initial_tasks_def new_sched_def Let_def)
next
  case (step es s ev s')
  note g = graph_inv_run[OF wf step(1)]
  from step(2) show ?case
  proof cases
    case (enter t)
    then have "t \<in> task_ids ctx" using graph_invD(1)[OF g, of t] by (simp add: idle_def)
    then show ?thesis using enter(3) sf step.IH
      by (auto elim!: enter_cases simp: session_free_def set_phase_def)
  next
    case (return t r)
    then show ?thesis using step.IH
      by (auto simp: op_defs tracker_complete_def split: option.splits)
  qed (use step.IH in \<open>auto simp: op_defs deliver_def handle_success_effect release_dependants_def
      dest!: acquire_permit_effect split: if_splits sum.splits failure.splits DAGError.splits\<close>)
qed

lemma waiting_can_step:
  assumes p: "permit_inv ctx s" and g: "graph_inv ctx Rel s" and c: "concurrency ctx \<noteq> Some 0"
    and t: "phase s t = Some Waiting"
  shows "can_step ctx s"
proof (cases "needs_permit ctx t \<and> available s = Some 0")
  case True
  then obtain l where l: "concurrency ctx = Some l" "l \<noteq> 0" using c by (auto simp: needs_permit_def)
  then have "card (permitted s) = l" using permit_invD(3)[OF p l(1)] True by auto
  then obtain u where "u \<in> permitted s" using l(2) by fastforce
  then have u: "may_hold (phase s u)" using permit_invD(1)[OF p] by blast
  then obtain ph where "phase s u = Some ph" "\<not> joined (Some ph)" "ph \<noteq> Entering" "ph \<noteq> Waiting"
    by (cases "phase s u" rule: may_hold.cases) auto
  then show ?thesis by (rule working_can_step[OF g])
next
  case False
  have "available s \<noteq> None" if "needs_permit ctx t"
    using that permit_invD(3)[OF p] by (auto simp: needs_permit_def)
  then have "\<exists>s'. acquire_permit ctx t s = Some s'"
    using False by (auto simp: acquire_permit_def split: option.splits nat.splits)
  then show ?thesis using t by (auto intro: can_stepI[OF step.permit])
qed

lemma node_can_step:
  assumes p: "permit_inv ctx s" and g: "graph_inv ctx Rel s" and c: "concurrency ctx \<noteq> Some 0"
    and ex: "\<not> exclusive s" and sf: "session_free ctx" and t: "t \<in> task_ids ctx" "\<not> joined (phase s t)"
  shows "can_step ctx s"
proof -
  obtain ph where ph: "phase s t = Some ph" using t by (cases "phase s t") auto
  consider "ph = Entering" | "ph = Waiting" | "ph \<noteq> Entering" "ph \<noteq> Waiting" by blast
  then show ?thesis
  proof cases
    case 1
    have "session_of ctx t = None" if "locks ctx t" using sf t(1) that unfolding session_free_def by blast
    then have "\<exists>s'. enter ctx t s = Some s'" using ex by (auto simp: enter_def)
    then show ?thesis using ph 1 by (auto intro: can_stepI[OF step.enter])
  next
    case 2
    then show ?thesis using waiting_can_step[OF p g c] ph by simp
  next
    case 3
    then show ?thesis using working_can_step[OF g ph] t ph by simp
  qed
qed

lemma loop_can_step:
  assumes cn: "count_inv ctx es s" and tr: "trouble_inv es s" and np: "\<And>t. EvPanic t \<notin> set es"
    and g: "graph_inv ctx Rel s" and r: "receiving s" and j: "\<And>t. t \<in> task_ids ctx \<Longrightarrow> joined (phase s t)"
  shows "can_step ctx s"
proof (cases "queue s")
  case (Cons t q)
  then show ?thesis using r can_stepI[OF step.spawn[of s t q ctx]] by simp
next
  case Nil
  have joined: "joined (phase s t)" for t
    using j[of t] graph_invD(1)[OF g, of t] by (cases "phase s t") (auto simp: idle_def)
  then have nf: "phase s t \<noteq> Some (Failing e)" for t e by (metis joined.simps(8))
  have "finished s \<or> cancelled s"
  proof (cases "calm es")
    case True
    have "weight (phase s t) = 0" if "t \<in> task_ids ctx" for t
      using j[OF that] cn True by (cases "phase s t" rule: joined.cases) (auto simp: count_inv_def)
    then have "accounted ctx s = 0" using Nil by (simp add: accounted_def)
    then show ?thesis using cn True by (auto simp: count_inv_def)
  next
    case False
    then show ?thesis using tr np nf by (auto simp: trouble_inv_def)
  qed
  then show ?thesis using r can_stepI[OF step.stop[of s ctx]] by simp
qed

text \<open>
  C7.  The scheduler never deadlocks by itself.  In a plan without interactive sessions and with a
  concurrency limit other than zero, a run in which no task panicked either has ended (the loop and
  every node task) or has a step that needs no failure, no cancellation and no rejected output
  event; together with the bound on the number of steps, every such run ends.
\<close>

theorem scheduler_progress:
  assumes "wf_context ctx" "session_free ctx" "concurrency ctx \<noteq> Some 0" "run ctx es s"
    and "\<And>t. EvPanic t \<notin> set es"
  shows "quiescent ctx s \<or> (\<exists>ev s'. step ctx s ev s' \<and> friendly ev)"
proof (cases "\<forall>t \<in> task_ids ctx. joined (phase s t)")
  case True
  then show ?thesis
    using loop_can_step[OF count_inv_run[OF assms(1,4)] trouble_inv_run[OF assms(1,4)] assms(5)
        graph_inv_run[OF assms(1,4)]]
    by (cases "receiving s") (auto simp: quiescent_def can_step_def)
next
  case False
  then show ?thesis
    using node_can_step[OF permit_inv_run[OF assms(1,4)] graph_inv_run[OF assms(1,4)] assms(3)
        not_exclusive_run[OF assms(1,2,4)] assms(2)]
    by (auto simp: can_step_def)
qed

theorem scheduler_progress_witness:
  "\<exists>s. play pair_context pair_events = Some s \<and> (\<exists>ev s'. step pair_context s ev s' \<and> friendly ev)"
proof -
  obtain s where s: "play pair_context pair_events = Some s" "\<not> quiescent pair_context s"
    by (simp add: pair_events_def pair_context_def pair_dag_def plain_item_def play_simps quiescent_def)
  have "session_free pair_context"
    by (simp add: session_free_def pair_context_def pair_dag_def plain_item_def)
  moreover have "concurrency pair_context \<noteq> Some 0" by (simp add: pair_context_def)
  moreover have "EvPanic t \<notin> set pair_events" for t by (simp add: pair_events_def)
  ultimately show ?thesis
    using scheduler_progress[OF pair_context_wf _ _ play_run[OF s(1)]] s by blast
qed

end
