(* ===== verification/Scheduler_Faults.thy ===== *)
theory Scheduler_Faults
  imports Scheduler_Live
begin

text \<open>
  Interleavings in which a plan of \<open>octa-executor/src/executor.rs\<close> does not end by itself: a task
  that panics, and a failing interactive session beside another task.  They show that the
  hypotheses of the progress theorem are needed.
\<close>

text \<open>
  A state in which the loop waits for an event that cannot come and every node task has returned or
  waits for the runtime lock: only the caller can act.
\<close>

definition stuck :: "'p ExecutorContext \<Rightarrow> 'v sched \<Rightarrow> bool" where
  "stuck ctx s \<longleftrightarrow>
     (\<not> receiving s \<or> queue s = [] \<and> \<not> finished s \<and> \<not> cancelled s) \<and>
     (\<forall>t. joined (phase s t) \<or> phase s t = Some Entering \<and> enter ctx t s = None)"

lemma stuck_step:
  assumes "stuck ctx s" "step ctx s ev s'"
  shows "ev = EvCancel"
proof -
  have ph: "joined (phase s t) \<or> phase s t = Some Entering \<and> enter ctx t s = None" for t
    using assms(1) unfolding stuck_def by blast
  have no: "phase s t = Some p \<Longrightarrow> \<not> joined (Some p) \<Longrightarrow> p = Entering" for t p using ph[of t] by auto
  from assms(2) show ?thesis
  proof cases
    case (enter t)
    then show ?thesis using ph[of t] by auto
  qed (use assms(1) in \<open>auto simp: stuck_def dest: no\<close>)
qed

lemma stuck_events:
  assumes "stuck ctx s" "\<not> caller_cancelled s"
  shows "{ev. \<exists>s'. step ctx s ev s'} = {EvCancel}"
  using stuck_step[OF assms(1)] step.cancel[OF assms(2)] by blast

section \<open>A panicking task\<close>

definition lone_context :: "unit ExecutorContext" where
  "lone_context =
     \<lparr>dag = \<lparr>nodes = [''a''], edges = [(''a'', [])]\<rparr>, item = plain_item, deferred = [], failfast = True,
      concurrency = None\<rparr>"

definition panic_events :: "unit event list" where
  "panic_events = [EvSpawn ''a'', EvEnter ''a'', EvPermit ''a'', EvBegin ''a'', EvPanic ''a'']"

text \<open>
  C25.  A panicking task hangs the plan.  The panic unwinds the node task before it lowers
  \<open>active_tasks\<close> or sets a token, so a plan of that single task, even in fail-fast mode, waits on the
  empty queue: nothing but a cancellation by the caller can happen, and the handling of a
  \<open>JoinError\<close> behind the loop is never reached.
\<close>

theorem panic_hangs_plan:
  "\<exists>s. run lone_context panic_events s \<and> \<not> quiescent lone_context s \<and> receiving s \<and>
     {ev. \<exists>s'. step lone_context s ev s'} = {EvCancel}"
proof -
  obtain s where s: "play lone_context panic_events = Some s" and st: "stuck lone_context s" "receiving s" "\<not> caller_cancelled s"
    by (simp add: lone_context_def panic_events_def plain_item_def play_simps stuck_def)
  then show ?thesis using play_run[OF s] stuck_events[OF st(1,3)] by (auto simp: quiescent_def)
qed

section \<open>A failing interactive session\<close>

definition console_failure :: "unit event list" where
  "console_failure =
     console_events @ [EvError ''one'' ChannelError, EvFail ''one'', EvStop, EvClose ''one'' None, EvReturn ''one'']"

text \<open>
  C26.  A failing interactive session deadlocks the plan.  When a node of a session fails, the later
  nodes of the session are never spawned, so the count of the session stays positive and its
  exclusive guard is kept; another task that is already spawned waits for the lock, the plan waits
  for that task, and the guards are only dropped after the plan.  Nothing but the caller can end it.
\<close>

theorem session_failure_deadlocks:
  "\<exists>s. run console_context console_failure s \<and> \<not> quiescent console_context s \<and>
     phase s ''one'' = Some (Returned (Err ChannelError)) \<and> phase s ''two'' = None \<and>
     phase s ''other'' = Some Entering \<and> exclusive s \<and>
     {ev. \<exists>s'. step console_context s ev s'} = {EvCancel}"
proof -
  obtain s where s: "play console_context console_failure = Some s" and st: "stuck console_context s"
    "phase s ''one'' = Some (Returned (Err ChannelError))" "phase s ''two'' = None"
    "phase s ''other'' = Some Entering" "exclusive s" "\<not> caller_cancelled s"
    by (simp add: console_context_def console_dag_def console_item_def console_events_def console_failure_def
        plain_item_def play_simps stuck_def)
  have "\<not> quiescent console_context s"
    using st by (simp add: quiescent_def console_context_def console_dag_def)
  then show ?thesis using play_run[OF s] stuck_events[OF st(1,6)] st by blast
qed

end
