(* ===== verification/Executor_Run.thy ===== *)
theory Executor_Run
  imports Recorder_Trace Scheduler_Faults
begin

text \<open>
  A complete execution: the run lifecycle of \<^verbatim>\<open>crates/octa-executor/src/execution_run.rs\<close> and the parts
  of \<^verbatim>\<open>executor.rs\<close> around the scheduler (validation of identities, start, collection of the node
  results, deferred cleanup, final status and result).  What the plan did to the recorder and the
  nested cleanup plans are parameters.
\<close>

section \<open>The run lifecycle\<close>

record ExecutionRun =
  run_number :: u64
  run_command :: "string option"
  run_started_at :: "nat option"
  run_finished_at :: "nat option"
  run_status :: "ConsoleStatus option"

definition run_new :: "u64 \<Rightarrow> ExecutionRun" where
  "run_new rid = \<lparr>run_number = rid, run_command = None, run_started_at = None, run_finished_at = None, run_status = None\<rparr>"

definition validate_command :: "ExecutionRun \<Rightarrow> string \<Rightarrow> (ExecutorError, unit) result" where
  "validate_command x command =
     (case run_command x of
        Some existing \<Rightarrow>
          if existing \<noteq> command
          then Err (ExecutionIdentityError (''execution was prepared for command '' @ quoted existing @ '', not '' @ quoted command))
          else Ok ()
      | None \<Rightarrow> Ok ())"

fun show_status :: "ConsoleStatus \<Rightarrow> string" where
  "show_status Skipped = ''Skipped''"
| "show_status Success = ''Success''"
| "show_status Cancelled = ''Cancelled''"
| "show_status Failed = ''Failed''"

text \<open>The clock is read before the event is published, and the state changes only when it is accepted.\<close>

definition run_start :: "string \<Rightarrow> Console \<times> ExecutionRun \<Rightarrow> (Console \<times> ExecutionRun) \<times> (ExecutorError, nat) result" where
  "run_start command = (\<lambda>(c, x).
     case validate_command x command of
       Inl e \<Rightarrow> ((c, x), Err e)
     | Inr _ \<Rightarrow>
         (case run_started_at x of
            Some t \<Rightarrow> ((c, x), Ok t)
          | None \<Rightarrow>
              (case utc_now c of (c1, t) \<Rightarrow>
                 (case console_event (RunStarted (run_number x) command) c1 of
                    (c2, Inl m) \<Rightarrow> ((c2, x), Err (IoError m))
                  | (c2, Inr _) \<Rightarrow> ((c2, x\<lparr>run_command := Some command, run_started_at := Some t\<rparr>), Ok t)))))"

definition run_finish ::
    "string \<Rightarrow> ConsoleStatus \<Rightarrow> Console \<times> ExecutionRun \<Rightarrow> (Console \<times> ExecutionRun) \<times> (ExecutorError, nat) result" where
  "run_finish command st = (\<lambda>(c, x).
     case validate_command x command of
       Inl e \<Rightarrow> ((c, x), Err e)
     | Inr _ \<Rightarrow>
         (case run_finished_at x of
            Some t \<Rightarrow>
              if run_status x = Some st then ((c, x), Ok t)
              else ((c, x), Err (ExecutionIdentityError (''execution '' @ quoted command @
                '' was already finished with status '' @ show_status (the (run_status x)))))
          | None \<Rightarrow>
              (case console_event (RunFinished (run_number x) command st) c of
                 (c1, Inl m) \<Rightarrow> ((c1, x), Err (IoError m))
               | (c1, Inr _) \<Rightarrow>
                   (case utc_now c1 of (c2, t) \<Rightarrow>
                      ((c2, x\<lparr>run_finished_at := Some t, run_status := Some st\<rparr>), Ok t)))))"

section \<open>Identities\<close>

definition validate_execution_identities ::
    "ConsoleScope list \<Rightarrow> ExecutionBinding list \<Rightarrow> (ExecutorError, unit) result" where
  "validate_execution_identities scopes bindings =
     (case scopes @ map binding_scope bindings of
        [] \<Rightarrow> Ok ()
      | first # rest \<Rightarrow>
          if list_all (shares_allocator_with first) rest then Ok ()
          else Err (ExecutionIdentityError ''all task scopes in a plan must use one ConsoleScopeAllocator''))"

section \<open>Collecting the node results\<close>

record 'v NodeExecution =
  node_output :: "string option"
  node_nested :: "'v TaskResult list"

record 'v PlanExecution =
  plan_stdout :: "string list"
  plan_nested :: "'v TaskResult list"
  plan_failure :: "ExecutorError option"
  plan_cancelled :: bool

text \<open>What awaiting a spawned node task gives: its result, or the text of a join error.\<close>

type_synonym 'v joined_task = "string + (ExecutorError, 'v NodeExecution) result"

definition collect_joined ::
    "('v TaskResult list \<times> ExecutorError option) \<Rightarrow> 'v joined_task \<Rightarrow> ('v TaskResult list \<times> ExecutorError option)" where
  "collect_joined acc res =
     (case res of
        Inr (Inr x) \<Rightarrow> (fst acc @ node_nested x, snd acc)
      | Inr (Inl e) \<Rightarrow> (fst acc, record_execution_error (snd acc) e)
      | Inl m \<Rightarrow> (fst acc, record_execution_error (snd acc) (JoinError m)))"

definition output_of :: "'v joined_task \<Rightarrow> string option" where
  "output_of res = (case res of Inr (Inr x) \<Rightarrow> node_output x | _ \<Rightarrow> None)"

text \<open>The tasks complete in any order; each carries the index of its handle.\<close>

definition complete_execution :: "(nat \<times> 'v joined_task) list \<Rightarrow> 'v PlanExecution" where
  "complete_execution completions =
     (let (nested, failure) = foldl collect_joined ([], None) (map snd completions);
          outputs = List.map_filter (\<lambda>(i, res). map_option (Pair i) (output_of res)) completions
      in \<lparr>plan_stdout = map snd (sort_key fst outputs), plan_nested = nested, plan_failure = failure,
          plan_cancelled = False\<rparr>)"

definition log_info :: "u64 \<Rightarrow> string \<Rightarrow> Console \<Rightarrow> Console \<times> (ExecutorError, unit) result" where
  "log_info rid m c =
     (case run_message rid InfoLevel m c of (c', Inl e) \<Rightarrow> (c', Err (IoError e)) | (c', Inr _) \<Rightarrow> (c', Ok ()))"

definition log_error :: "u64 \<Rightarrow> string \<Rightarrow> Console \<Rightarrow> Console \<times> (ExecutorError, unit) result" where
  "log_error rid m c =
     (case run_message rid ErrorLevel m c of (c', Inl e) \<Rightarrow> (c', Err (IoError e)) | (c', Inr _) \<Rightarrow> (c', Ok ()))"

fun shutdown_loop ::
    "u64 \<Rightarrow> 'v joined_task list \<Rightarrow> string list \<Rightarrow> 'v TaskResult list \<Rightarrow> ExecutorError option \<Rightarrow> Console \<Rightarrow>
     Console \<times> (ExecutorError, string list \<times> 'v TaskResult list \<times> ExecutorError option) result" where
  "shutdown_loop rid [] printed nested failure c = (c, Ok (printed, nested, failure))"
| "shutdown_loop rid (res # rest) printed nested failure c =
     (case res of
        Inr (Inr x) \<Rightarrow>
          shutdown_loop rid rest (printed @ (case node_output x of None \<Rightarrow> [] | Some y \<Rightarrow> [y]))
            (nested @ node_nested x) failure c
      | Inr (Inl e) \<Rightarrow>
          (case log_error rid (''Task failed during shutdown: '' @ failure_message (from_error e None)) c of
             (c', Inl e') \<Rightarrow> (c', Err e')
           | (c', Inr _) \<Rightarrow> shutdown_loop rid rest printed nested (record_execution_error failure e) c')
      | Inl m \<Rightarrow> shutdown_loop rid rest printed nested (record_execution_error failure (JoinError m)) c)"

definition handle_shutdown_results ::
    "u64 \<Rightarrow> 'v joined_task list \<Rightarrow> Console \<Rightarrow> Console \<times> (ExecutorError, 'v PlanExecution) result" where
  "handle_shutdown_results rid res c =
     (case shutdown_loop rid res [] [] None c of
        (c1, Inl e) \<Rightarrow> (c1, Err e)
      | (c1, Inr (printed, nested, failure)) \<Rightarrow>
          (case log_info rid ''Graceful shutdown completed'' c1 of
             (c2, Inl e) \<Rightarrow> (c2, Err e)
           | (c2, Inr _) \<Rightarrow>
               (c2, Ok \<lparr>plan_stdout = printed, plan_nested = nested, plan_failure = failure, plan_cancelled = True\<rparr>)))"

text \<open>
  \<open>shutdown_with_timeout\<close>: \<open>joined_in_time\<close> is what joining gives within the timeout, \<open>None\<close> when it
  expires; then the tasks are aborted.
\<close>

definition shutdown_with_timeout ::
    "u64 \<Rightarrow> 'v joined_task list option \<Rightarrow> Console \<Rightarrow> Console \<times> (ExecutorError, 'v PlanExecution) result" where
  "shutdown_with_timeout rid joined_in_time c =
     (case log_info rid ''Initiating graceful shutdown'' c of
        (c1, Inl e) \<Rightarrow> (c1, Err e)
      | (c1, Inr _) \<Rightarrow>
          (case joined_in_time of
             Some res \<Rightarrow> handle_shutdown_results rid res c1
           | None \<Rightarrow>
               (fst (log_error rid ''Shutdown timeout exceeded, forcing shutdown'' c1),
                Ok \<lparr>plan_stdout = [], plan_nested = [], plan_failure = Some ShutdownTimeout, plan_cancelled = True\<rparr>)))"

definition handle_completion ::
    "u64 \<Rightarrow> bool \<Rightarrow> (nat \<times> 'v joined_task) list \<Rightarrow> 'v joined_task list option \<Rightarrow> Console \<Rightarrow>
     Console \<times> (ExecutorError, 'v PlanExecution) result" where
  "handle_completion rid caller completions joined_in_time c =
     (if caller then shutdown_with_timeout rid joined_in_time c else (c, Ok (complete_execution completions)))"

section \<open>Deferred cleanup\<close>

record 'v ExecutionResult =
  er_run_id :: u64
  er_command :: string
  er_started_at :: nat
  er_finished_at :: nat
  er_conclusion :: ExecutionConclusion
  er_tasks :: "'v TaskResult list"
  er_stdout :: "string list"

definition mark_deferred :: "'v TaskResult list \<Rightarrow> 'v TaskResult list" where
  "mark_deferred ts = map (\<lambda>t. t\<lparr>tr_role := DeferredRole\<rparr>) ts"

text \<open>A nested cleanup plan gets the exit code of the failed main command.\<close>

type_synonym ('p, 'v) cleanup = "i32 option \<Rightarrow> 'p DeferredAction \<Rightarrow> Console \<Rightarrow> Console \<times> (ExecutorError, 'v ExecutionResult) result"

definition report_deferred :: "u64 \<Rightarrow> string \<Rightarrow> ExecutorError option \<Rightarrow> Console \<Rightarrow> Console \<times> ExecutorError option" where
  "report_deferred rid text first c =
     (case run_message rid ErrorLevel (''Deferred command failed: '' @ text) c of
        (c', Inl m) \<Rightarrow> (c', record_execution_error first (IoError m))
      | (c', Inr _) \<Rightarrow> (c', first))"

fun deferred_loop ::
    "('p, 'v) cleanup \<Rightarrow> i32 option \<Rightarrow> u64 \<Rightarrow> string set \<Rightarrow> (string \<times> 'p DeferredAction) list \<Rightarrow>
     'v TaskResult list \<Rightarrow> ExecutorError option \<Rightarrow> Console \<Rightarrow> Console \<times> (ExecutorError, 'v TaskResult list) result" where
  "deferred_loop nested code rid done_tasks [] ts first c = (c, case first of None \<Rightarrow> Ok ts | Some e \<Rightarrow> Err e)"
| "deferred_loop nested code rid done_tasks ((i, a) # rest) ts first c =
     (if i \<in> done_tasks then deferred_loop nested code rid done_tasks rest ts first c
      else if \<not> list_all (\<lambda>t. t \<in> done_tasks) (registered_after a) then deferred_loop nested code rid done_tasks rest ts first c
      else case nested code a c of
        (c1, Inr res) \<Rightarrow>
          (case conclusion_failure (er_conclusion res) of
             None \<Rightarrow> deferred_loop nested code rid done_tasks rest (ts @ mark_deferred (er_tasks res)) first c1
           | Some f \<Rightarrow>
               (case report_deferred rid (failure_message f) first c1 of (c2, first') \<Rightarrow>
                  deferred_loop nested code rid done_tasks rest (ts @ mark_deferred (er_tasks res)) first' c2))
      | (c1, Inl e) \<Rightarrow>
          (case report_deferred rid (failure_message (from_error e None)) first c1 of (c2, first') \<Rightarrow>
             deferred_loop nested code rid done_tasks rest ts (record_execution_error first' e) c2))"

definition lifo :: "(string \<times> 'p DeferredAction) list \<Rightarrow> (string \<times> 'p DeferredAction) list" where
  "lifo actions = sort_key (\<lambda>(_, a). - int (order a)) actions"

definition run_deferred ::
    "('p, 'v) cleanup \<Rightarrow> i32 option \<Rightarrow> u64 \<Rightarrow> (string \<times> 'p DeferredAction) list \<Rightarrow> string set \<Rightarrow> Console \<Rightarrow>
     Console \<times> (ExecutorError, 'v TaskResult list) result" where
  "run_deferred nested code rid actions done_tasks c = deferred_loop nested code rid done_tasks (lifo actions) [] None c"

section \<open>The execution\<close>

record 'v Executor =
  recorder :: "'v ExecutionRecorder"
  exec_run :: "ExecutionRun option"

text \<open>Recorder and run share one console.\<close>

definition with_run ::
    "(Console \<times> ExecutionRun \<Rightarrow> (Console \<times> ExecutionRun) \<times> (ExecutorError, nat) result) \<Rightarrow>
     'v Executor \<Rightarrow> 'v Executor \<times> (ExecutorError, nat) result" where
  "with_run f x =
     (case exec_run x of
        None \<Rightarrow>
          (case utc_now (rec_console (recorder x)) of (c, t) \<Rightarrow>
             (x\<lparr>recorder := (recorder x)\<lparr>rec_console := c\<rparr>\<rparr>, Ok t))
      | Some y \<Rightarrow>
          (case f (rec_console (recorder x), y) of ((c, y'), res) \<Rightarrow>
             (x\<lparr>recorder := (recorder x)\<lparr>rec_console := c\<rparr>, exec_run := Some y'\<rparr>, res)))"

definition with_recorder ::
    "('v ExecutionRecorder, unit) io \<Rightarrow> 'v Executor \<Rightarrow> 'v Executor \<times> (ExecutorError, unit) result" where
  "with_recorder f x =
     (case f (recorder x) of
        (r, Inl m) \<Rightarrow> (x\<lparr>recorder := r\<rparr>, Err (IoError m))
      | (r, Inr _) \<Rightarrow> (x\<lparr>recorder := r\<rparr>, Ok ()))"

definition begin_execution :: "string \<Rightarrow> 'v Executor \<Rightarrow> 'v Executor \<times> (ExecutorError, nat) result" where
  "begin_execution command x =
     (case with_run (run_start command) x of
        (x1, Inl e) \<Rightarrow> (x1, Err e)
      | (x1, Inr t) \<Rightarrow>
          (case with_recorder recorder_declare x1 of
             (x2, Inl e) \<Rightarrow> (x2, Err e)
           | (x2, Inr _) \<Rightarrow> (x2, Ok t)))"

definition finish_failed_start :: "string \<Rightarrow> 'v Executor \<Rightarrow> 'v Executor" where
  "finish_failed_start command x =
     (let x1 = fst (with_recorder (recorder_finish_remaining Failed) x)
      in case exec_run x1 of None \<Rightarrow> x1 | Some _ \<Rightarrow> fst (with_run (run_finish command Failed) x1))"

definition prepare :: "string \<Rightarrow> 'v Executor \<Rightarrow> 'v Executor \<times> (ExecutorError, unit) result" where
  "prepare command x =
     (case begin_execution command x of
        (x1, Inl e) \<Rightarrow> (finish_failed_start command x1, Err e)
      | (x1, Inr _) \<Rightarrow> (x1, Ok ()))"

definition final_status ::
    "(ExecutorError, 'v TaskResult list) result \<Rightarrow> 'v PlanExecution \<Rightarrow> 'v ExecutionRecorder \<Rightarrow> ConsoleStatus" where
  "final_status deferred_result plan r =
     (case deferred_result of
        Inl _ \<Rightarrow> Failed
      | Inr _ \<Rightarrow>
          (case plan_failure plan of
             Some e \<Rightarrow> if is_cancellation e then Cancelled else Failed
           | None \<Rightarrow> if plan_cancelled plan then Cancelled else successful_run_status r))"

definition plan_or_failure :: "(ExecutorError, 'v PlanExecution) result \<Rightarrow> 'v PlanExecution" where
  "plan_or_failure planned =
     (case planned of
        Inr p \<Rightarrow> p
      | Inl e \<Rightarrow> \<lparr>plan_stdout = [], plan_nested = [], plan_failure = Some e, plan_cancelled = False\<rparr>)"

definition execution_result ::
    "string \<Rightarrow> nat \<Rightarrow> nat \<Rightarrow> ConsoleStatus \<Rightarrow> 'v PlanExecution \<Rightarrow> 'v TaskResult list \<Rightarrow> 'v TaskResult list \<Rightarrow>
     'v ExecutionRecorder \<Rightarrow> 'v ExecutionResult" where
  "execution_result command started fin st plan ts deferred_tasks r =
     \<lparr>er_run_id = rec_run_id r, er_command = command, er_started_at = started, er_finished_at = fin,
      er_conclusion = conclusion st (case recorded_failure r of
         Some f \<Rightarrow> Some f | None \<Rightarrow> map_option (\<lambda>e. from_error e None) (plan_failure plan)) None None,
      er_tasks = sort_key tr_task_id (ts @ plan_nested plan @ deferred_tasks), er_stdout = plan_stdout plan\<rparr>"

text \<open>Behind the plan: cleanup, the final status, the remaining terminal events, and the result.\<close>

definition finish_execution ::
    "('p, 'v) cleanup \<Rightarrow> (string \<times> 'p DeferredAction) list \<Rightarrow> string \<Rightarrow> nat \<Rightarrow> string set \<Rightarrow> 'v PlanExecution \<Rightarrow>
     'v Executor \<Rightarrow> 'v Executor \<times> (ExecutorError, 'v ExecutionResult) result" where
  "finish_execution nested actions command started done_tasks plan x2 =
     (case run_deferred nested (Option.bind (plan_failure plan) command_exit_code) (rec_run_id (recorder x2))
             actions done_tasks (rec_console (recorder x2)) of
        (c3, deferred_result) \<Rightarrow>
          let x3 = x2\<lparr>recorder := (recorder x2)\<lparr>rec_console := c3\<rparr>\<rparr>;
              st = final_status deferred_result plan (recorder x3)
          in case with_recorder (recorder_finish_remaining st) x3 of
               (x4, Inl e) \<Rightarrow> (x4, Err e)
             | (x4, Inr _) \<Rightarrow>
                 (case with_run (run_finish command st) x4 of
                    (x5, Inl e) \<Rightarrow> (x5, Err e)
                  | (x5, Inr fin) \<Rightarrow>
                      (x5, and_then deferred_result (\<lambda>deferred_tasks.
                         case results (recorder x5) of
                           Inl m \<Rightarrow> Err (IoError m)
                         | Inr ts \<Rightarrow> Ok (execution_result command started fin st plan ts deferred_tasks (recorder x5))))))"

text \<open>
  \<open>body\<close> stands for \<open>execute_plan\<close>: the executor after the plan, the tasks it completed, and its result.
\<close>

definition execute ::
    "('v Executor \<Rightarrow> 'v Executor \<times> string set \<times> (ExecutorError, 'v PlanExecution) result) \<Rightarrow>
     ('p, 'v) cleanup \<Rightarrow> (string \<times> 'p DeferredAction) list \<Rightarrow> string \<Rightarrow> 'v Executor \<Rightarrow>
     'v Executor \<times> (ExecutorError, 'v ExecutionResult) result" where
  "execute body nested actions command x0 =
     (case begin_execution command x0 of
        (x1, Inl e) \<Rightarrow> (finish_failed_start command x1, Err e)
      | (x1, Inr started) \<Rightarrow>
          (case body x1 of (x2, done_tasks, planned) \<Rightarrow>
             finish_execution nested actions command started done_tasks (plan_or_failure planned) x2))"

section \<open>Cleanup runs exactly once\<close>

text \<open>A node task that has not begun to execute.\<close>

fun not_yet :: "'v phase option \<Rightarrow> bool" where
  "not_yet None = True"
| "not_yet (Some Entering) = True"
| "not_yet (Some Waiting) = True"
| "not_yet (Some Starting) = True"
| "not_yet _ = False"

definition begin_inv :: "'p ExecutorContext \<Rightarrow> 'v event list \<Rightarrow> 'v sched \<Rightarrow> bool" where
  "begin_inv ctx es s \<longleftrightarrow>
     (\<forall>t. count_list es (EvBegin t) \<le> 1 \<and> (not_yet (phase s t) \<longrightarrow> EvBegin t \<notin> set es) \<and>
        (phase s t = Some Executing \<longrightarrow> EvBegin t \<in> set es) \<and>
        (is_deferred ctx t \<longrightarrow> (t \<in> completed s \<longleftrightarrow> EvBegin t \<in> set es)))"

lemma begin_invD:
  assumes "begin_inv ctx es s"
  shows "count_list es (EvBegin t) \<le> 1" "not_yet (phase s t) \<Longrightarrow> EvBegin t \<notin> set es"
    "phase s t = Some Executing \<Longrightarrow> EvBegin t \<in> set es"
    "is_deferred ctx t \<Longrightarrow> t \<in> completed s \<longleftrightarrow> EvBegin t \<in> set es"
  using assms unfolding begin_inv_def by blast+

lemma begin_inv_quiet:
  assumes inv: "begin_inv ctx es s" and ev: "\<And>t. ev \<noteq> EvBegin t"
    and s': "phase s' = (phase s)(t \<mapsto> ph)" "completed s' = completed s"
    and ph: "not_yet (Some ph) \<Longrightarrow> not_yet (phase s t)" "ph \<noteq> Executing"
  shows "begin_inv ctx (es @ [ev]) s'"
  using begin_invD[OF inv] ph unfolding begin_inv_def s' by (auto simp: ev)

lemma begin_inv_same:
  assumes inv: "begin_inv ctx es s" and ev: "\<And>t. ev \<noteq> EvBegin t"
    and s': "phase s' = phase s" "completed s' = completed s"
  shows "begin_inv ctx (es @ [ev]) s'"
  using begin_invD[OF inv] unfolding begin_inv_def s' by (auto simp: ev)

lemma begin_inv_moved:
  assumes inv: "begin_inv ctx es s" and ev: "\<And>t. ev \<noteq> EvBegin t"
    and ph: "\<not> not_yet (Some ph)" "ph \<noteq> Executing"
    and s': "completed s' = completed s" "phase s' = (phase s)(t \<mapsto> ph)"
  shows "begin_inv ctx (es @ [ev]) s'"
  using begin_inv_quiet[OF inv ev s'(2,1)] ph by simp

lemma begin_inv_begin:
  assumes inv: "begin_inv ctx es s" and t: "phase s t = Some Starting"
  shows "begin_inv ctx (es @ [EvBegin t]) (begin_node ctx t s)"
proof -
  have "EvBegin t \<notin> set es" using begin_invD(2)[OF inv, of t] t by simp
  then have "count_list (es @ [EvBegin t]) (EvBegin u) \<le> 1" for u
    using begin_invD(1)[OF inv, of u] by (cases "u = t") (auto simp: count_list_0_iff)
  then show ?thesis using begin_invD(2-4)[OF inv] unfolding begin_inv_def by auto
qed

lemma begin_inv_succeed:
  assumes inv: "begin_inv ctx es s" and t: "phase s t = Some Executing"
  shows "begin_inv ctx (es @ [EvSucceed t printed outs]) (handle_success ctx t printed outs s)"
proof -
  have b: "EvBegin t \<in> set es" using begin_invD(3)[OF inv t] .
  have c: "completed (handle_success ctx t printed outs s) = (if cancelled s then completed s else insert t (completed s))"
    by (auto simp: handle_success_def Let_def set_phase_def split: option.splits)
  obtain ph where ph: "phase (handle_success ctx t printed outs s) = (phase s)(t \<mapsto> ph)" "\<not> not_yet (Some ph)" "ph \<noteq> Executing"
    using handle_success_effect(1)[of ctx t printed outs s] by (cases "cancelled s") auto
  show ?thesis using begin_invD[OF inv] b ph c unfolding begin_inv_def by auto
qed

lemma begin_inv_step:
  assumes wf: "wf_context ctx" and g: "graph_inv ctx (released es) s" and lk: "lock_inv ctx s"
    and inv: "begin_inv ctx es s" and st: "step ctx s ev s'"
  shows "begin_inv ctx (es @ [ev]) s'"
  using st
proof cases
  case (spawn t q)
  then have "phase s t = None" using graph_invD(3)[OF g, of t] by simp
  then show ?thesis using spawn by (intro begin_inv_quiet[OF inv, of _ _ t Entering]) (simp_all add: op_defs)
next
  case (enter t)
  then show ?thesis using enter_effect[OF enter(3)] enter_phase[OF enter(3)]
    by (elim disjE) (auto intro!: begin_inv_quiet[OF inv])
next
  case (permit t)
  then show ?thesis using acquire_permit_effect[OF permit(3)]
    by (intro begin_inv_quiet[OF inv, of _ _ t Starting]) simp_all
next
  case (begin_step t)
  then show ?thesis using begin_inv_begin[OF inv] by simp
next
  case (succeed t printed outs)
  then show ?thesis using begin_inv_succeed[OF inv] by simp
next
  case (release t pub printed)
  obtain m ready where s': "s' = set_phase t (Sending printed ready) (s\<lparr>in_degree := m\<rparr>)"
    using release_effect[OF wf g release(3)] release by blast
  then show ?thesis using release by (intro begin_inv_quiet[OF inv, of _ _ t "Sending printed ready"]) (simp_all add: set_phase_def)
next
  case (check t printed d ds)
  then show ?thesis
    by (cases "finished s") (auto simp: op_defs intro!: begin_inv_quiet[OF inv])
next
  case (deliver t printed d ds)
  then show ?thesis by (auto simp: deliver_def set_phase_def split: if_splits intro!: begin_inv_quiet[OF inv])
qed ((rule begin_inv_same[OF inv]; simp add: op_defs; fail) |
     (rule begin_inv_moved[OF inv]; simp add: op_defs; fail))+

lemma begin_inv_run:
  assumes wf: "wf_context ctx" and r: "run ctx es s"
  shows "begin_inv ctx es s"
  using r
proof induction
  case (start s)
  then obtain m where "s = schedule_initial_tasks ctx (new_sched ctx\<lparr>in_degree := m\<rparr>)"
    by (rule start_state[OF wf]) blast
  then show ?case by (simp add: begin_inv_def schedule_initial_tasks_def new_sched_def Let_def)
next
  case (step es s ev s')
  show ?case using begin_inv_step[OF wf graph_inv_run[OF wf step(1)] lock_inv_run[OF wf step(1)] step.IH step(2)] .
qed

text \<open>The actions that \<open>run_deferred\<close> runs, in the order it runs them.\<close>

definition pending_cleanup :: "(string \<times> 'p DeferredAction) list \<Rightarrow> string set \<Rightarrow> (string \<times> 'p DeferredAction) list" where
  "pending_cleanup actions done_tasks =
     filter (\<lambda>(i, a). i \<notin> done_tasks \<and> set (registered_after a) \<subseteq> done_tasks) (lifo actions)"

lemma deferred_loop_pending:
  "deferred_loop nested code rid ids as ts first c =
     deferred_loop nested code rid ids (filter (\<lambda>(i, a). i \<notin> ids \<and> set (registered_after a) \<subseteq> ids) as) ts first c"
proof (induction as arbitrary: ts first c)
  case (Cons x as)
  obtain i a where x: "x = (i, a)" by (cases x)
  have all: "list_all (\<lambda>t. t \<in> ids) (registered_after a) \<longleftrightarrow> set (registered_after a) \<subseteq> ids"
    by (auto simp: list_all_iff)
  show ?case unfolding x
    by (cases "i \<notin> ids \<and> set (registered_after a) \<subseteq> ids")
       (auto simp: all Cons.IH split: prod.splits sum.splits option.splits)
qed simp

lemma lifo_ids: "distinct (map fst actions) \<Longrightarrow> distinct (map fst (lifo actions)) \<and> set (lifo actions) = set actions"
  unfolding lifo_def by (simp add: distinct_map)

lemma lifo_sorted: "sorted_wrt (\<lambda>x y. order (snd x) \<ge> order (snd y)) (lifo actions)"
proof -
  have "sorted (map (\<lambda>(_, a). - int (order a)) (lifo actions))" unfolding lifo_def by simp
  then show ?thesis by (simp add: sorted_map case_prod_beta)
qed

lemma cleanup_count:
  assumes wf: "wf_context ctx" and r: "run ctx es s" and d: "distinct (map fst (deferred ctx))"
    and a: "(i, a) \<in> set (deferred ctx)"
  shows "count_list es (EvBegin i) + count_list (map fst (pending_cleanup (deferred ctx) (completed s))) i =
    (if i \<in> completed s \<or> set (registered_after a) \<subseteq> completed s then 1 else 0)"
proof -
  note inv = begin_invD[OF begin_inv_run[OF wf r]]
  have def: "is_deferred ctx i" using map_of_is_SomeI[OF d a] unfolding is_deferred_def by simp
  have begun: "count_list es (EvBegin i) = (if i \<in> completed s then 1 else 0)"
    using inv(1)[of i] inv(4)[OF def] count_list_0_iff[of es "EvBegin i"]
    by (cases "count_list es (EvBegin i)") auto
  let ?P = "pending_cleanup (deferred ctx) (completed s)"
  have dist: "distinct (map fst ?P)"
    unfolding pending_cleanup_def using lifo_ids[OF d] by (auto intro: distinct_map_filter)
  have "i \<in> fst ` set ?P \<longleftrightarrow> i \<notin> completed s \<and> set (registered_after a) \<subseteq> completed s"
  proof
    assume "i \<in> fst ` set ?P"
    then obtain b where b: "(i, b) \<in> set (lifo (deferred ctx))" "i \<notin> completed s" "set (registered_after b) \<subseteq> completed s"
      unfolding pending_cleanup_def by auto
    then have "b = a" using lifo_ids[OF d] eq_key_imp_eq_value[OF d _ a] by simp
    then show "i \<notin> completed s \<and> set (registered_after a) \<subseteq> completed s" using b by simp
  next
    assume "i \<notin> completed s \<and> set (registered_after a) \<subseteq> completed s"
    then have "(i, a) \<in> set ?P" using a lifo_ids[OF d] unfolding pending_cleanup_def by simp
    then show "i \<in> fst ` set ?P" by (rule rev_image_eqI) simp
  qed
  then show ?thesis using begun distinct_count_list[OF dist, of i] by auto
qed

text \<open>A plan with one task and a cleanup registered behind it.\<close>

definition cleanup_action :: "unit DeferredAction" where
  "cleanup_action = \<lparr>action_command = ''rm -rf tmp'', action_plan = (), order = 0, registered_after = [''a'']\<rparr>"

definition cleanup_context :: "unit ExecutorContext" where
  "cleanup_context =
     \<lparr>dag = \<lparr>nodes = [''a'', ''d''], edges = [(''a'', [''d'']), (''d'', [])]\<rparr>, item = plain_item,
      deferred = [(''d'', cleanup_action)], failfast = False, concurrency = None\<rparr>"

lemma cleanup_context_wf: "wf_context cleanup_context"
  by (simp add: wf_context_def cleanup_context_def wf_dag_def node_ids_def)


definition begun_events :: "unit event list" where
  "begun_events = [EvSpawn ''a'', EvEnter ''a'', EvPermit ''a'', EvBegin ''a'']"


text \<open>
   \<open>run_deferred\<close> runs just the pending cleanup actions, the last registered first: it behaves as
  the unguarded loop over \<open>pending_cleanup\<close>, whose order keys descend.
\<close>

theorem run_deferred_pending:
  "run_deferred nested code rid actions ids c = deferred_loop nested code rid ids (pending_cleanup actions ids) [] None c \<and>
   sorted_wrt (\<lambda>x y. order (snd x) \<ge> order (snd y)) (pending_cleanup actions ids)"
  unfolding run_deferred_def pending_cleanup_def
  by (intro conjI deferred_loop_pending sorted_wrt_filter lifo_sorted)


section \<open>What an execution reports\<close>

lemma with_recorder_run [simp]: "exec_run (fst (with_recorder f x)) = exec_run x"
  by (auto simp: with_recorder_def split: prod.splits sum.splits)

lemma run_start_keeps:
  "run_number (snd (fst (run_start command (c, y)))) = run_number y \<and>
   run_finished_at (snd (fst (run_start command (c, y)))) = run_finished_at y"
  by (auto simp: run_start_def split: prod.splits sum.splits option.splits)

lemma begin_execution_run:
  assumes "begin_execution command x = (x', res)" "exec_run x = Some y"
  shows "\<exists>y'. exec_run x' = Some y' \<and> run_number y' = run_number y \<and> run_finished_at y' = run_finished_at y"
proof -
  obtain c y1 r1 where s: "run_start command (rec_console (recorder x), y) = ((c, y1), r1)" by (metis surj_pair)
  have "exec_run (fst (begin_execution command x)) = Some y1"
    unfolding begin_execution_def with_run_def using assms(2) s
    by (auto split: prod.splits sum.splits dest: arg_cong[where f = "exec_run \<circ> fst"] simp: with_recorder_def)
  then show ?thesis using assms(1) run_start_keeps[of command "rec_console (recorder x)" y] s by simp
qed

lemma run_finish_ok:
  assumes "with_run (run_finish command st) x = (x', Inr t)" "exec_run x = Some y" "run_finished_at y = None"
  shows "accepted (rec_console (recorder x')) = accepted (rec_console (recorder x)) @ [RunFinished (run_number y) command st]"
proof -
  have acc: "accepted (c\<lparr>ticks := n\<rparr>) = accepted c" for c n by (simp add: accepted_def)
  have ev: "accepted c' = accepted c @ [e]" if "console_event e c = (c', Inr u)" for e c c' u
    using emit_accepted[of "ExecutionRecord e" c] that by (simp add: console_event_def)
  show ?thesis using assms
    by (auto simp: with_run_def run_finish_def utc_now_def acc split: prod.splits sum.splits option.splits dest!: ev)
qed

lemma finish_execution_okE:
  assumes "finish_execution nested actions command started ids plan x2 = (x', Ok res)"
  obtains x3 x4 st fin ts more where
    "exec_run x3 = exec_run x2" "with_recorder (recorder_finish_remaining st) x3 = (x4, Inr ())"
    "with_run (run_finish command st) x4 = (x', Inr fin)"
    "results (recorder x') = Inr ts" "er_tasks res = sort_key tr_task_id (ts @ more)"
    "conclusion_status (er_conclusion res) = st"
proof -
  obtain c3 dres where d: "run_deferred nested (Option.bind (plan_failure plan) command_exit_code)
    (rec_run_id (recorder x2)) actions ids (rec_console (recorder x2)) = (c3, dres)" by (metis surj_pair)
  define x3 where "x3 = x2\<lparr>recorder := (recorder x2)\<lparr>rec_console := c3\<rparr>\<rparr>"
  define st where "st = final_status dres plan (recorder x3)"
  have run: "exec_run x3 = exec_run x2" by (simp add: x3_def)
  note start = assms[unfolded finish_execution_def Let_def d prod.case, folded x3_def, folded st_def]
  obtain x4 where f: "with_recorder (recorder_finish_remaining st) x3 = (x4, Inr ())"
    using start by (auto split: prod.splits sum.splits)
  obtain fin where g: "with_run (run_finish command st) x4 = (x', Inr fin)"
    using start[unfolded f prod.case sum.case] by (auto split: prod.splits sum.splits)
  obtain ts dts where r: "results (recorder x') = Inr ts" "res = execution_result command started fin st plan ts dts (recorder x')"
    using start[unfolded f g prod.case sum.case] by (cases "results (recorder x')") (auto simp: result_simps)
  show thesis by (rule that[OF run f g r(1)]) (simp_all add: r(2) execution_result_def)
qed

lemma execute_ok:
  assumes ok: "execute body nested actions command x = (x', Ok res)" and run: "exec_run x = Some y"
    and fresh: "run_finished_at y = None" and body: "\<And>x. exec_run (fst (body x)) = exec_run x"
  shows "\<exists>es ts more. accepted (rec_console (recorder x')) = es @ [RunFinished (run_number y) command (conclusion_status (er_conclusion res))] \<and>
     results (recorder x') = Ok ts \<and> er_tasks res = sort_key tr_task_id (ts @ more)"
proof -
  obtain x1 t where b: "begin_execution command x = (x1, Inr t)"
    using ok by (auto simp: execute_def split: prod.splits sum.splits)
  obtain x2 ids planned where p: "body x1 = (x2, ids, planned)" by (metis surj_pair)
  obtain y1 where y1: "exec_run x1 = Some y1" "run_number y1 = run_number y" "run_finished_at y1 = None"
    using begin_execution_run[OF b run] fresh by auto
  from ok[unfolded execute_def b p prod.case sum.case] show ?thesis
  proof (rule finish_execution_okE)
    fix x3 x4 st fin ts more
    assume x3: "exec_run x3 = exec_run x2" and x4: "with_recorder (recorder_finish_remaining st) x3 = (x4, Inr ())"
      and fin: "with_run (run_finish command st) x4 = (x', Inr fin)"
      and res: "results (recorder x') = Inr ts" "er_tasks res = sort_key tr_task_id (ts @ more)"
        "conclusion_status (er_conclusion res) = st"
    have "exec_run x4 = Some y1"
      using body[of x1] p y1 x3 with_recorder_run[of "recorder_finish_remaining st" x3] x4 by simp
    from run_finish_ok[OF fin this y1(3)] show ?thesis using res y1(2) by auto
  qed
qed


text \<open>A plan without nodes of its own: the scopes are only declared and finished.\<close>

definition idle_plan :: "unit Executor \<Rightarrow> unit Executor \<times> string set \<times> (ExecutorError, unit PlanExecution) result" where
  "idle_plan x = (x, {}, Ok \<lparr>plan_stdout = [], plan_nested = [], plan_failure = None, plan_cancelled = False\<rparr>)"

definition no_cleanup :: "(unit, unit) cleanup" where
  "no_cleanup code a c = (c, Err ShutdownTimeout)"

definition sample_executor :: "Console \<Rightarrow> unit Executor" where
  "sample_executor c =
     \<lparr>recorder = recorder_new c 7 [sample_scope] [for_task sample_scope], exec_run = Some (run_new 7)\<rparr>"

lemmas execute_simps =
  execute_def finish_execution_def execution_result_def plan_or_failure_def idle_plan_def sample_executor_def
  begin_execution_def with_run_def with_recorder_def run_start_def run_finish_def run_new_def validate_command_def
  utc_now_def run_deferred_def lifo_def final_status_def successful_run_status_def recorder_finish_remaining_def
  finish_remaining_steps_def reserve_remaining_steps_def reserve_remaining_scopes_def is_open_def reserve_open_def
  for_task_def sample_scope_def publish_scope_finish_def read_clock_def results_def group_step_def step_result_def Let_def
  recorded_failure_def sample_defs


text \<open>A sink that rejects the terminal event of a task scope.\<close>

definition rejecting_console :: Console where
  "rejecting_console =
     open_console\<lparr>answer := (\<lambda>_ x. case x of ExecutionRecord (ScopeFinished _ _ _) \<Rightarrow> Some ''sink'' | _ \<Rightarrow> None)\<rparr>"


end
