(* ===== verification/Renderers.thy ===== *)
theory Renderers
  imports Events
begin

text \<open>
  The presentation strategies of \<^verbatim>\<open>crates/octa-output/src\<close>: the renderer interface (\<^verbatim>\<open>renderer.rs\<close>), the
  spool of buffered entries (\<^verbatim>\<open>spool.rs\<close>), and the wrappers that prefix lines (\<^verbatim>\<open>prefixed.rs\<close>), silence
  information (\<^verbatim>\<open>quiet.rs\<close>), group the output of a task (\<^verbatim>\<open>buffered.rs\<close>) and keep the order of declaration
  (\<^verbatim>\<open>keep_order.rs\<close>), with the terminal renderer (\<^verbatim>\<open>terminal.rs\<close>) at the end of the chain.  A wrapper maps a
  renderer over the state \<open>'r\<close> to a renderer over its own state, so the wrappers compose as in the source.
\<close>

section \<open>The interface\<close>

record 'r ConsoleRenderer =
  r_render :: "ConsoleEntry \<Rightarrow> ('r, unit) io"
  r_tick :: "('r, unit) io"
  r_wants_tick :: "'r \<Rightarrow> bool"
  r_set_parallel :: "bool \<Rightarrow> ('r, unit) io"
  r_update_progress :: "ConsoleScope \<Rightarrow> string \<Rightarrow> ('r, unit) io"
  r_update_progress_bytes :: "ConsoleScope \<Rightarrow> string \<Rightarrow> ConsoleStream \<Rightarrow> u8 list \<Rightarrow> ('r, unit) io"
  r_supports_progress_updates :: "'r \<Rightarrow> bool"
  r_begin_raw :: "ConsoleScope \<Rightarrow> ('r, unit) io"
  r_end_raw :: "ConsoleScope \<Rightarrow> ('r, unit) io"
  r_supports_raw_terminal :: "'r \<Rightarrow> bool"

text \<open>The methods a renderer does not override.\<close>

definition default_renderer :: "(ConsoleEntry \<Rightarrow> ('r, unit) io) \<Rightarrow> 'r ConsoleRenderer" where
  "default_renderer f =
     \<lparr>r_render = f, r_tick = (\<lambda>r. (r, Ok ())), r_wants_tick = (\<lambda>_. False), r_set_parallel = (\<lambda>_ r. (r, Ok ())),
      r_update_progress = (\<lambda>_ _ r. (r, Ok ())), r_update_progress_bytes = (\<lambda>_ _ _ _ r. (r, Ok ())),
      r_supports_progress_updates = (\<lambda>_. False), r_begin_raw = (\<lambda>_ r. (r, Ok ())), r_end_raw = (\<lambda>_ r. (r, Ok ())),
      r_supports_raw_terminal = (\<lambda>_. True)\<rparr>"

definition null_renderer :: "unit ConsoleRenderer" where
  "null_renderer = default_renderer (\<lambda>_ r. (r, Ok ()))"

text \<open>
  A wrapper that forwards everything but rendering and the start of a raw session; \<open>get\<close> and \<open>put\<close>
  access the wrapped state.
\<close>

definition inner_call :: "('w \<Rightarrow> 'r) \<Rightarrow> ('r \<Rightarrow> 'w \<Rightarrow> 'w) \<Rightarrow> ('r, 'a) io \<Rightarrow> ('w, 'a) io" where
  "inner_call get put m w = (case m (get w) of (r, res) \<Rightarrow> (put r w, res))"

definition forwarding ::
    "('w \<Rightarrow> 'r) \<Rightarrow> ('r \<Rightarrow> 'w \<Rightarrow> 'w) \<Rightarrow> 'r ConsoleRenderer \<Rightarrow> (ConsoleEntry \<Rightarrow> ('w, unit) io) \<Rightarrow>
     (ConsoleScope \<Rightarrow> ('w, unit) io) \<Rightarrow> 'w ConsoleRenderer" where
  "forwarding get put R f raw =
     \<lparr>r_render = f, r_tick = inner_call get put (r_tick R), r_wants_tick = (\<lambda>w. r_wants_tick R (get w)),
      r_set_parallel = (\<lambda>p. inner_call get put (r_set_parallel R p)),
      r_update_progress = (\<lambda>s m. inner_call get put (r_update_progress R s m)),
      r_update_progress_bytes = (\<lambda>s i k b. inner_call get put (r_update_progress_bytes R s i k b)),
      r_supports_progress_updates = (\<lambda>w. r_supports_progress_updates R (get w)), r_begin_raw = raw,
      r_end_raw = (\<lambda>s. inner_call get put (r_end_raw R s)),
      r_supports_raw_terminal = (\<lambda>w. r_supports_raw_terminal R (get w))\<rparr>"

section \<open>Classification of records\<close>

text \<open>The three files classify records differently.\<close>

fun buffered_record_scope :: "ConsoleRecord \<Rightarrow> ConsoleScope option" where
  "buffered_record_scope (ExecutionRecord event) =
     (case cache_scope event of
        Some scope \<Rightarrow> Some scope
      | None \<Rightarrow>
          (case event of
             ScopeStarted _ scope \<Rightarrow> Some scope
           | StepStarted _ scope _ \<Rightarrow> Some scope
           | StepFinished _ scope _ _ \<Rightarrow> Some scope
           | OutputEvent _ scope _ _ _ _ \<Rightarrow> scope
           | _ \<Rightarrow> None))"
| "buffered_record_scope (DiagnosticRecord d) = diagnostic_scope d"
| "buffered_record_scope (DocumentRecord _) = None"

fun keep_order_record_scope :: "ConsoleRecord \<Rightarrow> ConsoleScope option" where
  "keep_order_record_scope (ExecutionRecord event) =
     (case cache_scope event of
        Some scope \<Rightarrow> Some scope
      | None \<Rightarrow>
          (case event of
             ScopeStarted _ scope \<Rightarrow> Some scope
           | ScopeFinished _ scope _ \<Rightarrow> Some scope
           | StepStarted _ scope _ \<Rightarrow> Some scope
           | StepFinished _ scope _ _ \<Rightarrow> Some scope
           | OutputEvent _ scope _ _ _ _ \<Rightarrow> scope
           | ArtifactRegistered _ scope _ _ \<Rightarrow> Some scope
           | ReportRegistered _ scope _ _ \<Rightarrow> Some scope
           | _ \<Rightarrow> None))"
| "keep_order_record_scope (DiagnosticRecord d) = diagnostic_scope d"
| "keep_order_record_scope (DocumentRecord _) = None"

fun is_raw_output :: "ConsoleRecord \<Rightarrow> bool" where
  "is_raw_output (ExecutionRecord (OutputEvent _ _ _ _ _ (RawBytes _))) = True"
| "is_raw_output _ = False"

fun is_progress :: "ConsoleRecord \<Rightarrow> bool" where
  "is_progress (ExecutionRecord (ProgressEvent _ _ _ _ _)) = True"
| "is_progress _ = False"

fun finished_scope :: "ConsoleRecord \<Rightarrow> (ConsoleScope \<times> ConsoleStatus) option" where
  "finished_scope (ExecutionRecord (ScopeFinished _ scope st)) = Some (scope, st)"
| "finished_scope _ = None"

fun declared_scope :: "ConsoleRecord \<Rightarrow> ConsoleScope option" where
  "declared_scope (ExecutionRecord (ScopeDeclared _ scope)) = Some scope"
| "declared_scope _ = None"

section \<open>The spool\<close>

text \<open>
  What the spool uses of the system and of \<open>serde_json\<close>: creating a temporary file, appending to it,
  reading it back from the start, the JSON form of an entry, and the size of the entry type in bytes.
\<close>

record SpoolEnv =
  new_temp :: "string option"
  append :: "string \<Rightarrow> string \<Rightarrow> string \<times> (string, unit) result"
  rewind :: "string \<Rightarrow> (string, string) result"
  to_json :: "ConsoleEntry \<Rightarrow> (string, string) result"
  from_json :: "string \<Rightarrow> (string, ConsoleEntry) result"
  entry_size :: nat

definition MEMORY_LIMIT :: nat where "MEMORY_LIMIT = 1024 * 1024"

datatype EntrySpool = Memory "ConsoleEntry list" nat | Disk string

definition spool_default :: EntrySpool where "spool_default = Memory [] 0"

abbreviation opt_length :: "string option \<Rightarrow> nat" where
  "opt_length s \<equiv> (case s of None \<Rightarrow> 0 | Some x \<Rightarrow> length x)"

definition label_length :: "ConsoleScope option \<Rightarrow> nat" where
  "label_length s = opt_length (map_option scope_label s)"

fun event_memory :: "ExecutionEvent \<Rightarrow> nat" where
  "event_memory (RunStarted _ command) = length command"
| "event_memory (RunFinished _ command _) = length command"
| "event_memory (ScopeDeclared _ scope) = length (scope_label scope)"
| "event_memory (ScopeStarted _ scope) = length (scope_label scope)"
| "event_memory (ScopeFinished _ scope _) = length (scope_label scope)"
| "event_memory (StepDeclared _ scope stp) = length (scope_label scope) + length (step_label stp)"
| "event_memory (StepStarted _ scope stp) = length (scope_label scope) + length (step_label stp)"
| "event_memory (StepFinished _ scope stp _) = length (scope_label scope) + length (step_label stp)"
| "event_memory (OutputEvent _ scope _ command _ payload) =
     label_length scope + length command +
     (case payload of LinePayload l \<Rightarrow> length l | BytesPayload b \<Rightarrow> length b | RawBytes b \<Rightarrow> length b)"
| "event_memory (ProgressEvent _ scope _ command p) =
     label_length scope + length command + length (progress_message p) + opt_length (progress_unit p)"
| "event_memory (ArtifactRegistered _ scope _ a) =
     length (scope_label scope) + length (artifact_name a) + length (artifact_path a) + opt_length (content_type a)"
| "event_memory (ReportRegistered _ scope _ p) =
     length (scope_label scope) + length (report_name p) + length (report_path p)"
| "event_memory (CacheLookupStarted _ scope action) = length (scope_label scope) + length action"
| "event_memory (CachePublishStarted _ scope action) = length (scope_label scope) + length action"
| "event_memory (CachePublished _ scope action) = length (scope_label scope) + length action"
| "event_memory (CacheHit _ scope action _) = length (scope_label scope) + length action"
| "event_memory (CacheRestoreFinished _ scope action _) = length (scope_label scope) + length action"
| "event_memory (CacheMiss _ scope action reason) =
     length (scope_label scope) + length action + length (reason_as_str reason)"
| "event_memory (CacheErrorEvent _ scope action _ message) =
     length (scope_label scope) + opt_length action + length message"

definition estimated_memory :: "SpoolEnv \<Rightarrow> ConsoleEntry \<Rightarrow> nat" where
  "estimated_memory env e =
     entry_size env +
     (case entry_record e of
        ExecutionRecord event \<Rightarrow> event_memory event
      | DiagnosticRecord d \<Rightarrow>
          length (diagnostic_message d) + label_length (diagnostic_scope d) +
          opt_length (map_option loc_file (diagnostic_location d))
      | DocumentRecord _ \<Rightarrow> 0)"

fun append_all :: "SpoolEnv \<Rightarrow> ConsoleEntry list \<Rightarrow> string \<Rightarrow> string \<times> (string, unit) result" where
  "append_all env [] file = (file, Ok ())"
| "append_all env (e # es) file =
     (case to_json env e of
        Inl m \<Rightarrow> (file, Err m)
      | Inr text \<Rightarrow>
          io_bind (\<lambda>f. append env f text) (\<lambda>_.
          io_bind (\<lambda>f. append env f ''\<newline>'') (\<lambda>_. append_all env es)) file)"

text \<open>
  An entry that does not fit moves everything to a file.  The buffered entries are drained while they
  are written: when a write fails they are gone, and the byte count stays.
\<close>

fun spool_push :: "SpoolEnv \<Rightarrow> ConsoleEntry \<Rightarrow> (EntrySpool, unit) io" where
  "spool_push env e (Memory es n) =
     (if n + estimated_memory env e \<le> MEMORY_LIMIT then (Memory (es @ [e]) (n + estimated_memory env e), Ok ())
      else case new_temp env of
        Some m \<Rightarrow> (Memory es n, Err m)
      | None \<Rightarrow>
          (case append_all env (es @ [e]) [] of
             (_, Inl m) \<Rightarrow> (Memory [] n, Err m)
           | (file, Inr _) \<Rightarrow> (Disk file, Ok ())))"
| "spool_push env e (Disk file) = (case append_all env [e] file of (file', res) \<Rightarrow> (Disk file', res))"

text \<open>
  What deserialisation makes of identities: the allocator is not part of the JSON form and comes back
  as zero.
\<close>

definition detach_scope :: "ConsoleScope \<Rightarrow> ConsoleScope" where
  "detach_scope scope = scope\<lparr>allocator_id := 0\<rparr>"

definition detach_step :: "ConsoleStep \<Rightarrow> ConsoleStep" where
  "detach_step stp = stp\<lparr>step_allocator_id := 0\<rparr>"

fun detach_event :: "ExecutionEvent \<Rightarrow> ExecutionEvent" where
  "detach_event (ScopeDeclared r s) = ScopeDeclared r (detach_scope s)"
| "detach_event (ScopeStarted r s) = ScopeStarted r (detach_scope s)"
| "detach_event (ScopeFinished r s st) = ScopeFinished r (detach_scope s) st"
| "detach_event (StepDeclared r s p) = StepDeclared r (detach_scope s) (detach_step p)"
| "detach_event (StepStarted r s p) = StepStarted r (detach_scope s) (detach_step p)"
| "detach_event (StepFinished r s p st) = StepFinished r (detach_scope s) (detach_step p) st"
| "detach_event (OutputEvent r s p c k b) = OutputEvent r (map_option detach_scope s) p c k b"
| "detach_event (ProgressEvent r s p c u) = ProgressEvent r (map_option detach_scope s) p c u"
| "detach_event (ArtifactRegistered r s p a) = ArtifactRegistered r (detach_scope s) p a"
| "detach_event (ReportRegistered r s p a) = ReportRegistered r (detach_scope s) p a"
| "detach_event (CacheLookupStarted r s a) = CacheLookupStarted r (detach_scope s) a"
| "detach_event (CacheHit r s a n) = CacheHit r (detach_scope s) a n"
| "detach_event (CacheMiss r s a c) = CacheMiss r (detach_scope s) a c"
| "detach_event (CacheRestoreFinished r s a n) = CacheRestoreFinished r (detach_scope s) a n"
| "detach_event (CachePublishStarted r s a) = CachePublishStarted r (detach_scope s) a"
| "detach_event (CachePublished r s a) = CachePublished r (detach_scope s) a"
| "detach_event (CacheErrorEvent r s a c m) = CacheErrorEvent r (detach_scope s) a c m"
| "detach_event event = event"

definition detached :: "ConsoleEntry \<Rightarrow> ConsoleEntry" where
  "detached e =
     with_record (case entry_record e of
        ExecutionRecord event \<Rightarrow> ExecutionRecord (detach_event event)
      | DiagnosticRecord d \<Rightarrow> DiagnosticRecord (d\<lparr>diagnostic_scope := map_option detach_scope (diagnostic_scope d)\<rparr>)
      | DocumentRecord d \<Rightarrow> DocumentRecord d) e"

text \<open>\<open>BufRead::lines\<close>: the lines without their terminator, and a last line that lacks one.\<close>

fun text_lines_from :: "string \<Rightarrow> string \<Rightarrow> string list" where
  "text_lines_from acc [] = (if acc = [] then [] else [rev acc])"
| "text_lines_from acc (c # cs) =
     (if c = CHR 0x0A then rev (if acc \<noteq> [] \<and> hd acc = CHR 0x0D then tl acc else acc) # text_lines_from [] cs
      else text_lines_from (c # acc) cs)"

definition text_lines :: "string \<Rightarrow> string list" where
  "text_lines = text_lines_from []"

text \<open>\<open>render_results\<close>: everything is rendered, the first error is kept.\<close>

definition render_results ::
    "'r ConsoleRenderer \<Rightarrow> (string, ConsoleEntry) result list \<Rightarrow> ('r, unit) io" where
  "render_results R = io_all (\<lambda>x r. case x of Inl m \<Rightarrow> (r, Err m) | Inr e \<Rightarrow> r_render R e r) None"

fun render_into :: "SpoolEnv \<Rightarrow> 'r ConsoleRenderer \<Rightarrow> EntrySpool \<Rightarrow> ('r, unit) io" where
  "render_into env R (Memory es n) r = render_results R (map Inr es) r"
| "render_into env R (Disk file) r =
     (case rewind env file of
        Inl m \<Rightarrow> (r, Err m)
      | Inr text \<Rightarrow> render_results R (map (from_json env) (text_lines text)) r)"

section \<open>Prefixed lines\<close>

record PrefixState =
  marker :: "u8 list"
  at_line_start :: bool

type_synonym line_key = "u64 \<times> u64 \<times> ConsoleStream"

record 'r PrefixedRenderer =
  pr_renderer :: 'r
  line_states :: "line_key \<Rightarrow> string \<Rightarrow> PrefixState option"

definition prefixed_new :: "'r \<Rightarrow> 'r PrefixedRenderer" where
  "prefixed_new r = \<lparr>pr_renderer = r, line_states = (\<lambda>_ _. None)\<rparr>"

definition bracketed :: "ConsoleScope \<Rightarrow> string" where
  "bracketed scope = ''['' @ prefix_of scope @ ''] ''"

definition line_state :: "u64 \<Rightarrow> ConsoleScope \<Rightarrow> ConsoleStream \<Rightarrow> string \<Rightarrow> 'r PrefixedRenderer \<Rightarrow> PrefixState" where
  "line_state rid scope stream command p =
     (case line_states p (rid, scope_id scope, stream) command of
        Some st \<Rightarrow> st
      | None \<Rightarrow> \<lparr>marker = as_bytes (bracketed scope), at_line_start = True\<rparr>)"

definition set_line :: "line_key \<Rightarrow> string \<Rightarrow> PrefixState option \<Rightarrow> 'r PrefixedRenderer \<Rightarrow> 'r PrefixedRenderer" where
  "set_line k command st p = p\<lparr>line_states := (line_states p)(k := (line_states p k)(command := st))\<rparr>"

definition reset_line :: "u64 \<Rightarrow> u64 \<Rightarrow> ConsoleStream \<Rightarrow> string \<Rightarrow> 'r PrefixedRenderer \<Rightarrow> 'r PrefixedRenderer" where
  "reset_line rid scope stream command p =
     (case line_states p (rid, scope, stream) command of
        None \<Rightarrow> p
      | Some st \<Rightarrow> set_line (rid, scope, stream) command (Some (st\<lparr>at_line_start := True\<rparr>)) p)"

fun prefixed_bytes :: "PrefixState \<Rightarrow> u8 list \<Rightarrow> PrefixState \<times> u8 list" where
  "prefixed_bytes st [] = (st, [])"
| "prefixed_bytes st (b # bs) =
     (let mark = (if at_line_start st then marker st else []);
          (st', out) = prefixed_bytes (st\<lparr>at_line_start := (b = 10)\<rparr>) bs
      in (st', mark @ b # out))"

text \<open>The entry handed on, and the state of the lines behind it.\<close>

definition prefixed_entry :: "ConsoleEntry \<Rightarrow> 'r PrefixedRenderer \<Rightarrow> ConsoleEntry \<times> 'r PrefixedRenderer" where
  "prefixed_entry e p =
     (case entry_record e of
        ExecutionRecord (OutputEvent rid (Some scope) stp command stream (LinePayload line)) \<Rightarrow>
          (with_record (ExecutionRecord
             (OutputEvent rid (Some scope) stp command stream (LinePayload (bracketed scope @ line)))) e,
           reset_line rid (scope_id scope) stream command p)
      | ExecutionRecord (OutputEvent rid (Some scope) stp command stream (BytesPayload bs)) \<Rightarrow>
          (case prefixed_bytes (line_state rid scope stream command p) bs of (st, out) \<Rightarrow>
             (with_record (ExecutionRecord
                (OutputEvent rid (Some scope) stp command stream (BytesPayload out))) e,
              set_line (rid, scope_id scope, stream) command (Some st) p))
      | ExecutionRecord (ScopeFinished rid scope st) \<Rightarrow>
          (e, p\<lparr>line_states :=
            (\<lambda>(a, b, c). if a = rid \<and> b = scope_id scope then (\<lambda>_. None) else line_states p (a, b, c))\<rparr>)
      | _ \<Rightarrow> (e, p))"

definition prefixed_render :: "'r ConsoleRenderer \<Rightarrow> ConsoleEntry \<Rightarrow> ('r PrefixedRenderer, unit) io" where
  "prefixed_render R e p =
     (case prefixed_entry e p of (e', p') \<Rightarrow>
        inner_call pr_renderer (\<lambda>r p. p\<lparr>pr_renderer := r\<rparr>) (r_render R e') p')"

definition prefixed :: "'r ConsoleRenderer \<Rightarrow> 'r PrefixedRenderer ConsoleRenderer" where
  "prefixed R =
     forwarding pr_renderer (\<lambda>r p. p\<lparr>pr_renderer := r\<rparr>) R (prefixed_render R)
       (\<lambda>s. inner_call pr_renderer (\<lambda>r p. p\<lparr>pr_renderer := r\<rparr>) (r_begin_raw R s))"

section \<open>Quiet output\<close>

fun quiet_suppresses :: "ConsoleRecord \<Rightarrow> bool" where
  "quiet_suppresses (DiagnosticRecord d) \<longleftrightarrow> diagnostic_level d \<in> {TraceLevel, DebugLevel, InfoLevel}"
| "quiet_suppresses (ExecutionRecord (RunStarted _ _)) = True"
| "quiet_suppresses (ExecutionRecord (RunFinished _ _ _)) = True"
| "quiet_suppresses _ = False"

definition quiet_render :: "'r ConsoleRenderer \<Rightarrow> ConsoleEntry \<Rightarrow> ('r, unit) io" where
  "quiet_render R e r = (if quiet_suppresses (entry_record e) then (r, Ok ()) else r_render R e r)"

definition quiet_renderer :: "'r ConsoleRenderer \<Rightarrow> 'r ConsoleRenderer" where
  "quiet_renderer R = R\<lparr>r_render := quiet_render R\<rparr>"

section \<open>Buffered output\<close>

datatype FlushPolicy = Always | OnFailure

fun should_flush :: "FlushPolicy \<Rightarrow> ConsoleStatus \<Rightarrow> bool" where
  "should_flush Always _ = True"
| "should_flush OnFailure st \<longleftrightarrow> st = Failed \<or> st = Cancelled"

datatype ScopeOutput = Buffered EntrySpool | Live

record GroupTemplates =
  group_begin :: "string option"
  group_end :: "string option"

record 'r BufferedRenderer =
  bf_renderer :: 'r
  bf_scopes :: "scope_ident \<Rightarrow> ScopeOutput option"
  bf_policy :: FlushPolicy
  bf_templates :: "GroupTemplates option"

definition buffered_new :: "'r \<Rightarrow> FlushPolicy \<Rightarrow> 'r BufferedRenderer" where
  "buffered_new r policy = \<lparr>bf_renderer = r, bf_scopes = (\<lambda>_. None), bf_policy = policy, bf_templates = None\<rparr>"

definition group_with_templates :: "'r \<Rightarrow> string option \<Rightarrow> string option \<Rightarrow> bool \<Rightarrow> 'r BufferedRenderer" where
  "group_with_templates r begin_template end_template error_only =
     (buffered_new r (if error_only then OnFailure else Always))
       \<lparr>bf_templates := Some \<lparr>group_begin = begin_template, group_end = end_template\<rparr>\<rparr>"

abbreviation bf_inner :: "('r, unit) io \<Rightarrow> ('r BufferedRenderer, unit) io" where
  "bf_inner \<equiv> inner_call bf_renderer (\<lambda>r b. b\<lparr>bf_renderer := r\<rparr>)"

text \<open>\<open>record_error\<close>: run a step and keep the first error.\<close>

definition io_also :: "('s, unit) io \<Rightarrow> ('s, unit) io \<Rightarrow> ('s, unit) io" where
  "io_also a b s =
     (case a s of
        (s1, Inl m) \<Rightarrow> (fst (b s1), Inl m)
      | (s1, Inr _) \<Rightarrow> b s1)"

text \<open>Expanding a template with the values of a scope is done by the template library.\<close>

definition group_entry ::
    "(string \<Rightarrow> ConsoleScope \<Rightarrow> (string, string) result) \<Rightarrow> ConsoleEntry \<Rightarrow> ConsoleScope \<Rightarrow> string \<Rightarrow> (string, ConsoleEntry) result" where
  "group_entry expand e scope template =
     and_then (expand template scope) (\<lambda>line.
       Ok (with_record (ExecutionRecord (OutputEvent
         (case entry_record e of ExecutionRecord (ScopeFinished rid _ _) \<Rightarrow> rid | _ \<Rightarrow> 0)
         (Some scope) None ''group'' Stdout (LinePayload line))) e))"

definition render_group_line ::
    "(string \<Rightarrow> ConsoleScope \<Rightarrow> (string, string) result) \<Rightarrow> 'r ConsoleRenderer \<Rightarrow> ConsoleEntry \<Rightarrow> ConsoleScope \<Rightarrow>
     string option \<Rightarrow> ('r, unit) io" where
  "render_group_line expand R e scope template r =
     (case template of
        None \<Rightarrow> (r, Ok ())
      | Some t \<Rightarrow>
          if hide_stdout scope then (r, Ok ())
          else case group_entry expand e scope t of Inl m \<Rightarrow> (r, Err m) | Inr g \<Rightarrow> r_render R g r)"

definition buffered_begin_raw :: "SpoolEnv \<Rightarrow> 'r ConsoleRenderer \<Rightarrow> ConsoleScope \<Rightarrow> ('r BufferedRenderer, unit) io" where
  "buffered_begin_raw env R scope b =
     (let k = scope_key scope; b' = b\<lparr>bf_scopes := (bf_scopes b)(k \<mapsto> Live)\<rparr>;
          start = (\<lambda>sp. io_also (bf_inner (render_into env R sp)) (bf_inner (r_begin_raw R scope)) b')
      in case bf_scopes b k of
           Some (Buffered sp) \<Rightarrow> start sp
         | Some Live \<Rightarrow> (b', Ok ())
         | None \<Rightarrow> start spool_default)"

definition flush_scope ::
    "SpoolEnv \<Rightarrow> (string \<Rightarrow> ConsoleScope \<Rightarrow> (string, string) result) \<Rightarrow> 'r ConsoleRenderer \<Rightarrow> ConsoleEntry \<Rightarrow>
     ConsoleScope \<Rightarrow> EntrySpool \<Rightarrow> GroupTemplates option \<Rightarrow> ('r, unit) io" where
  "flush_scope env expand R e scope sp templates =
     io_also (render_group_line expand R e scope (Option.bind templates group_begin))
     (io_also (render_into env R sp)
     (io_also (r_render R e)
       (render_group_line expand R e scope (Option.bind templates group_end))))"

definition buffered_render ::
    "SpoolEnv \<Rightarrow> (string \<Rightarrow> ConsoleScope \<Rightarrow> (string, string) result) \<Rightarrow> 'r ConsoleRenderer \<Rightarrow> ConsoleEntry \<Rightarrow>
     ('r BufferedRenderer, unit) io" where
  "buffered_render env expand R e b =
     (if is_progress (entry_record e) then bf_inner (r_render R e) b
      else case finished_scope (entry_record e) of
        Some (scope, st) \<Rightarrow>
          (let k = scope_key scope; b' = b\<lparr>bf_scopes := (bf_scopes b)(k := None)\<rparr>
           in case bf_scopes b k of
                Some (Buffered sp) \<Rightarrow>
                  if should_flush (bf_policy b) st
                  then bf_inner (flush_scope env expand R e scope sp (bf_templates b)) b'
                  else (b', Ok ())
              | Some Live \<Rightarrow> bf_inner (r_render R e) b'
              | None \<Rightarrow> if should_flush (bf_policy b) st then bf_inner (r_render R e) b' else (b', Ok ()))
      | None \<Rightarrow>
          (case buffered_record_scope (entry_record e) of
             None \<Rightarrow> bf_inner (r_render R e) b
           | Some scope \<Rightarrow>
               let k = scope_key scope in
               if is_raw_output (entry_record e)
               then io_bind (buffered_begin_raw env R scope) (\<lambda>_. bf_inner (r_render R e)) b
               else case bf_scopes b k of
                      Some Live \<Rightarrow> bf_inner (r_render R e) b
                    | Some (Buffered sp) \<Rightarrow>
                        (case spool_push env e sp of (sp', res) \<Rightarrow>
                           (b\<lparr>bf_scopes := (bf_scopes b)(k \<mapsto> Buffered sp')\<rparr>, res))
                    | None \<Rightarrow>
                        (case spool_push env e spool_default of (sp', res) \<Rightarrow>
                           (b\<lparr>bf_scopes := (bf_scopes b)(k \<mapsto> Buffered sp')\<rparr>, res))))"

definition buffered_renderer ::
    "SpoolEnv \<Rightarrow> (string \<Rightarrow> ConsoleScope \<Rightarrow> (string, string) result) \<Rightarrow> 'r ConsoleRenderer \<Rightarrow> 'r BufferedRenderer ConsoleRenderer" where
  "buffered_renderer env expand R =
     forwarding bf_renderer (\<lambda>r b. b\<lparr>bf_renderer := r\<rparr>) R (buffered_render env expand R) (buffered_begin_raw env R)"

section \<open>Declaration order\<close>

record KeepScope =
  ks_entries :: EntrySpool
  ks_finished :: bool

definition keep_scope_default :: KeepScope where
  "keep_scope_default = \<lparr>ks_entries = spool_default, ks_finished = False\<rparr>"

record 'r KeepOrderRenderer =
  ko_renderer :: 'r
  ko_order :: "scope_ident list"
  ko_scopes :: "scope_ident \<Rightarrow> KeepScope option"
  ko_raw :: "scope_ident set"

definition keep_order_new :: "'r \<Rightarrow> 'r KeepOrderRenderer" where
  "keep_order_new r = \<lparr>ko_renderer = r, ko_order = [], ko_scopes = (\<lambda>_. None), ko_raw = {}\<rparr>"

abbreviation ko_inner :: "('r, unit) io \<Rightarrow> ('r KeepOrderRenderer, unit) io" where
  "ko_inner \<equiv> inner_call ko_renderer (\<lambda>r s. s\<lparr>ko_renderer := r\<rparr>)"

text \<open>\<open>entry(scope).or_default()\<close> followed by an update.\<close>

definition update_scope :: "scope_ident \<Rightarrow> (KeepScope \<Rightarrow> KeepScope) \<Rightarrow> 'r KeepOrderRenderer \<Rightarrow> 'r KeepOrderRenderer" where
  "update_scope k f s =
     s\<lparr>ko_scopes := (ko_scopes s)(k \<mapsto> f (case ko_scopes s k of Some x \<Rightarrow> x | None \<Rightarrow> keep_scope_default))\<rparr>"

definition activate_raw :: "SpoolEnv \<Rightarrow> 'r ConsoleRenderer \<Rightarrow> ConsoleScope \<Rightarrow> ('r KeepOrderRenderer, unit) io" where
  "activate_raw env R scope s =
     (let k = scope_key scope in
      if k \<in> ko_raw s then (s, Ok ())
      else let s1 = s\<lparr>ko_raw := insert k (ko_raw s)\<rparr> in
        case ko_scopes s1 k of
          None \<Rightarrow> (s1, Ok ())
        | Some st \<Rightarrow>
            ko_inner (render_into env R (ks_entries st)) (update_scope k (\<lambda>x. x\<lparr>ks_entries := spool_default\<rparr>) s1))"

text \<open>The loop over the front of the queue; a scope is taken out before its entries are rendered.\<close>

fun advance_loop ::
    "SpoolEnv \<Rightarrow> 'r ConsoleRenderer \<Rightarrow> scope_ident list \<Rightarrow> (scope_ident \<Rightarrow> KeepScope option) \<Rightarrow> 'r \<Rightarrow>
     (scope_ident list \<times> (scope_ident \<Rightarrow> KeepScope option) \<times> 'r) \<times> (string, unit) result" where
  "advance_loop env R [] m r = (([], m, r), Ok ())"
| "advance_loop env R (k # ks) m r =
     (case m k of
        None \<Rightarrow> ((k # ks, m, r), Ok ())
      | Some st \<Rightarrow>
          (case render_into env R (ks_entries st) r of
             (r', Inl e) \<Rightarrow> ((k # ks, m(k := None), r'), Err e)
           | (r', Inr _) \<Rightarrow>
               if ks_finished st then advance_loop env R ks (m(k := None)) r'
               else ((k # ks, m(k \<mapsto> keep_scope_default), r'), Ok ())))"

definition advance :: "SpoolEnv \<Rightarrow> 'r ConsoleRenderer \<Rightarrow> ('r KeepOrderRenderer, unit) io" where
  "advance env R s =
     (let (ks, m) = (case ko_order s of [] \<Rightarrow> ([], ko_scopes s) | k # ks \<Rightarrow> (ks, (ko_scopes s)(k := None)))
      in case advance_loop env R ks m (ko_renderer s) of ((ks', m', r'), res) \<Rightarrow>
           (s\<lparr>ko_order := ks', ko_scopes := m', ko_renderer := r'\<rparr>, res))"

definition push_entry :: "SpoolEnv \<Rightarrow> scope_ident \<Rightarrow> ConsoleEntry \<Rightarrow> ('r KeepOrderRenderer, unit) io" where
  "push_entry env k e s =
     (let st = (case ko_scopes s k of Some x \<Rightarrow> x | None \<Rightarrow> keep_scope_default)
      in case spool_push env e (ks_entries st) of (sp, res) \<Rightarrow>
           (s\<lparr>ko_scopes := (ko_scopes s)(k \<mapsto> st\<lparr>ks_entries := sp\<rparr>)\<rparr>, res))"

definition render_scoped :: "SpoolEnv \<Rightarrow> 'r ConsoleRenderer \<Rightarrow> ConsoleEntry \<Rightarrow> ConsoleScope \<Rightarrow> ('r KeepOrderRenderer, unit) io" where
  "render_scoped env R e scope s =
     (let k = scope_key scope;
          ordered_live = (ko_order s \<noteq> [] \<and> hd (ko_order s) = k);
          live = (ordered_live \<or> k \<in> ko_raw s)
      in io_bind (if live then ko_inner (r_render R e) else push_entry env k e) (\<lambda>_ s.
           if finished_scope (entry_record e) = None then (s, Ok ())
           else let s1 = update_scope k (\<lambda>x. x\<lparr>ks_finished := True\<rparr>) s in
             io_bind (if ordered_live then advance env R else (\<lambda>s. (s, Ok ()))) (\<lambda>_ s.
               (s\<lparr>ko_raw := ko_raw s - {k}\<rparr>, Ok ())) s1) s)"

definition keep_order_render :: "SpoolEnv \<Rightarrow> 'r ConsoleRenderer \<Rightarrow> ConsoleEntry \<Rightarrow> ('r KeepOrderRenderer, unit) io" where
  "keep_order_render env R e s =
     (case declared_scope (entry_record e) of
        Some scope \<Rightarrow>
          ko_inner (r_render R e)
            (update_scope (scope_key scope) id (s\<lparr>ko_order := ko_order s @ [scope_key scope]\<rparr>))
      | None \<Rightarrow>
          if is_progress (entry_record e) then ko_inner (r_render R e) s
          else case keep_order_record_scope (entry_record e) of
            None \<Rightarrow> ko_inner (r_render R e) s
          | Some scope \<Rightarrow>
              io_bind (if is_raw_output (entry_record e) then activate_raw env R scope else (\<lambda>s. (s, Ok ())))
                (\<lambda>_. render_scoped env R e scope) s)"

definition keep_order_begin_raw :: "SpoolEnv \<Rightarrow> 'r ConsoleRenderer \<Rightarrow> ConsoleScope \<Rightarrow> ('r KeepOrderRenderer, unit) io" where
  "keep_order_begin_raw env R scope =
     io_bind (activate_raw env R scope) (\<lambda>_. ko_inner (r_begin_raw R scope))"

definition keep_order_renderer :: "SpoolEnv \<Rightarrow> 'r ConsoleRenderer \<Rightarrow> 'r KeepOrderRenderer ConsoleRenderer" where
  "keep_order_renderer env R =
     forwarding ko_renderer (\<lambda>r s. s\<lparr>ko_renderer := r\<rparr>) R (keep_order_render env R) (keep_order_begin_raw env R)"

section \<open>The terminal\<close>

text \<open>
  The two streams with what has been written to them; the answer to a write may depend on it.
  Styled log lines are made by libraries.
\<close>

record TerminalRenderer =
  styled :: bool
  term_stdout :: "u8 list"
  term_stderr :: "u8 list"

record TermEnv =
  write_fails :: "u8 list \<Rightarrow> u8 list \<Rightarrow> string option"
  styled_line :: "nat \<Rightarrow> ConsoleLevel \<Rightarrow> string \<Rightarrow> string"
  human_duration :: "nat \<Rightarrow> string"

definition write_stdout :: "TermEnv \<Rightarrow> u8 list \<Rightarrow> (TerminalRenderer, unit) io" where
  "write_stdout env bs t =
     (case write_fails env (term_stdout t) bs of
        Some m \<Rightarrow> (t, Err m)
      | None \<Rightarrow> (t\<lparr>term_stdout := term_stdout t @ bs\<rparr>, Ok ()))"

definition write_stderr :: "TermEnv \<Rightarrow> u8 list \<Rightarrow> (TerminalRenderer, unit) io" where
  "write_stderr env bs t =
     (case write_fails env (term_stderr t) bs of
        Some m \<Rightarrow> (t, Err m)
      | None \<Rightarrow> (t\<lparr>term_stderr := term_stderr t @ bs\<rparr>, Ok ()))"

definition format_log_line :: "TermEnv \<Rightarrow> nat \<Rightarrow> bool \<Rightarrow> ConsoleLevel \<Rightarrow> string \<Rightarrow> string" where
  "format_log_line env time st level message =
     (if st then styled_line env time level message else message @ ''\<newline>'')"

definition write_log :: "TermEnv \<Rightarrow> nat \<Rightarrow> ConsoleLevel \<Rightarrow> string \<Rightarrow> (TerminalRenderer, unit) io" where
  "write_log env time level message t =
     write_stdout env (as_bytes (format_log_line env time (styled t) level message)) t"

fun write_payload :: "(u8 list \<Rightarrow> (TerminalRenderer, unit) io) \<Rightarrow> ConsolePayload \<Rightarrow> (TerminalRenderer, unit) io" where
  "write_payload w (LinePayload line) = io_bind (w (as_bytes line)) (\<lambda>_. w [10])"
| "write_payload w (BytesPayload bs) = w bs"
| "write_payload w (RawBytes bs) = w bs"

fun render_execution_event :: "TermEnv \<Rightarrow> nat \<Rightarrow> ExecutionEvent \<Rightarrow> (TerminalRenderer, unit) io" where
  "render_execution_event env time (RunStarted _ command) =
     write_log env time InfoLevel (''Starting execution plan for command '' @ command)"
| "render_execution_event env time (RunFinished _ _ Success) =
     write_log env time InfoLevel ''All tasks completed successfully''"
| "render_execution_event env time (OutputEvent _ _ _ _ Stdout payload) = write_payload (write_stdout env) payload"
| "render_execution_event env time (OutputEvent _ _ _ _ Stderr payload) = write_payload (write_stderr env) payload"
| "render_execution_event env time _ = (\<lambda>t. (t, Ok ()))"

fun render_document :: "TermEnv \<Rightarrow> nat \<Rightarrow> CliDocument \<Rightarrow> (TerminalRenderer, unit) io" where
  "render_document env time (TaskListDocument tasks) =
     io_each (\<lambda>(name, description). write_stdout env (as_bytes
       ((case description of None \<Rightarrow> name | Some d \<Rightarrow> name @ '': '' @ d) @ ''\<newline>''))) tasks"
| "render_document env time (HelpDocument text) = write_stdout env (as_bytes text)"
| "render_document env time (CompletionDocument text) = write_stdout env (as_bytes text)"
| "render_document env time (FailureDocument message) = write_stderr env (as_bytes (message @ ''\<newline>''))"
| "render_document env time (SummaryDocument tasks total_time) =
     io_each (write_log env time InfoLevel)
       (''================== Time Summary =================='' #
        map (\<lambda>(name, d). '' \"'' @ name @ ''\": '' @ human_duration env d) tasks @
        ['' Total time: '' @ human_duration env total_time,
         ''==================================================''])"

definition terminal_render :: "TermEnv \<Rightarrow> ConsoleEntry \<Rightarrow> (TerminalRenderer, unit) io" where
  "terminal_render env e =
     (case entry_record e of
        ExecutionRecord event \<Rightarrow> render_execution_event env (entry_timestamp e) event
      | DiagnosticRecord d \<Rightarrow> write_log env (entry_timestamp e) (diagnostic_level d) (diagnostic_message d)
      | DocumentRecord d \<Rightarrow> render_document env (entry_timestamp e) d)"

definition terminal_renderer :: "TermEnv \<Rightarrow> TerminalRenderer ConsoleRenderer" where
  "terminal_renderer env = default_renderer (terminal_render env)"

end
