(* ===== verification/Renderer_Order.thy ===== *)
theory Renderer_Order
  imports Renderers
begin

text \<open>
  What the wrappers of theory \<^verbatim>\<open>Renderers\<close> show: the prefixes do not depend on how a stream is cut into
  chunks, grouping renders each task as one block, and keeping the order renders the tasks one after
  the other as they were declared, however their records interleave; nothing is lost on the way
  through the memory or the disk of the spool.
\<close>

section \<open>Renderers that do not fail\<close>

locale infallible_renderer =
  fixes R :: "'r ConsoleRenderer"
  assumes render_ok [simp]: "snd (r_render R e r) = Ok ()"

definition drive :: "'r ConsoleRenderer \<Rightarrow> ConsoleEntry list \<Rightarrow> 'r \<Rightarrow> 'r" where
  "drive R es r = foldl (\<lambda>r e. fst (r_render R e r)) r es"

lemma drive_simps [simp]:
  "drive R [] r = r" "drive R (es @ fs) r = drive R fs (drive R es r)"
  by (simp_all add: drive_def)

lemma drive_Cons: "drive R (e # es) r = drive R es (drive R [e] r)"
  by (simp add: drive_def)

context infallible_renderer
begin

lemma render_eq: "r_render R e r = (drive R [e] r, Ok ())"
  using render_ok[of e r] by (cases "r_render R e r") (simp add: drive_def)

lemma render_each: "io_each (r_render R) es r = (drive R es r, Ok ())"
  unfolding drive_def by (rule io_each_ok) simp

lemma render_results_ok: "render_results R (map Inr es) r = (drive R es r, Ok ())"
proof -
  have "render_results R (map Inr es) r = io_all (r_render R) None es r"
    unfolding render_results_def
  proof (induction es arbitrary: r)
    case (Cons e es)
    show ?case by (simp add: render_eq Cons.IH)
  qed simp
  then show ?thesis unfolding drive_def using io_all_ok[of "r_render R" es r] by simp
qed

lemma inner_render: "inner_call get put (r_render R e) w = (put (drive R [e] (get w)) w, Ok ())"
  by (simp add: inner_call_def render_eq)

lemma prefixed_ok: "infallible_renderer (prefixed R)"
  by unfold_locales
     (simp add: prefixed_def forwarding_def prefixed_render_def inner_render split: prod.splits)

lemma quiet_ok: "infallible_renderer (quiet_renderer R)"
  by unfold_locales (simp add: quiet_renderer_def quiet_render_def)

end

interpretation null: infallible_renderer null_renderer
  by unfold_locales (simp add: null_renderer_def default_renderer_def)

text \<open>A terminal whose streams accept every write.\<close>

definition open_terminal :: "(nat \<Rightarrow> ConsoleLevel \<Rightarrow> string \<Rightarrow> string) \<Rightarrow> (nat \<Rightarrow> string) \<Rightarrow> TermEnv" where
  "open_terminal line dur = \<lparr>write_fails = (\<lambda>_ _. None), styled_line = line, human_duration = dur\<rparr>"

lemma open_terminal_writes:
  "write_stdout (open_terminal line dur) bs t = (t\<lparr>term_stdout := term_stdout t @ bs\<rparr>, Ok ())"
  "write_stderr (open_terminal line dur) bs t = (t\<lparr>term_stderr := term_stderr t @ bs\<rparr>, Ok ())"
  by (simp_all add: open_terminal_def write_stdout_def write_stderr_def)

lemma open_terminal_ok: "snd (terminal_render (open_terminal line dur) e t) = Ok ()"
proof -
  let ?env = "open_terminal line dur"
  have log: "snd (write_log ?env time level m t) = Ok ()" for time level m t
    by (simp add: write_log_def open_terminal_writes)
  have pay: "snd (write_payload (write_stdout ?env) p t) = Ok ()" "snd (write_payload (write_stderr ?env) p t) = Ok ()" for p t
    by (cases p; simp add: io_bind_def open_terminal_writes)+
  have "snd (render_execution_event ?env time event t) = Ok ()" for time event
    by (induction ?env time event rule: render_execution_event.induct) (simp_all add: log pay)
  moreover have "snd (render_document ?env time d t) = Ok ()" for time d
  proof (cases d)
    case (TaskListDocument tasks)
    then show ?thesis by (simp add: io_each_ok open_terminal_writes case_prod_beta)
  next
    case (SummaryDocument tasks n)
    then show ?thesis
      unfolding SummaryDocument render_document.simps by (subst io_each_ok[OF log]) simp
  qed (simp_all add: open_terminal_writes)
  ultimately show ?thesis by (simp add: terminal_render_def log split: ConsoleRecord.splits)
qed

interpretation terminal: infallible_renderer "terminal_renderer (open_terminal line dur)" for line dur
  by unfold_locales (simp add: terminal_renderer_def default_renderer_def open_terminal_ok)

interpretation prefixed_terminal: infallible_renderer "prefixed (terminal_renderer (open_terminal line dur))" for line dur
  by (rule terminal.prefixed_ok)

interpretation quiet_terminal: infallible_renderer "quiet_renderer (terminal_renderer (open_terminal line dur))" for line dur
  by (rule terminal.quiet_ok)

section \<open>The spool keeps every entry\<close>

text \<open>
  The file system and the JSON library as the spool relies on them, for the entries in \<open>E\<close>: files can
  be written and read, and the JSON form of an entry is one line that reads back as the entry, but for
  the allocator of its identities.
\<close>

definition spool_reliable :: "SpoolEnv \<Rightarrow> ConsoleEntry set \<Rightarrow> bool" where
  "spool_reliable env E \<longleftrightarrow>
     new_temp env = None \<and> (\<forall>f t. append env f t = (f @ t, Ok ())) \<and> (\<forall>f. rewind env f = Ok f) \<and>
     (\<forall>e\<in>E. \<exists>j. to_json env e = Ok j \<and> CHR 0x0A \<notin> set j \<and> CHR 0x0D \<notin> set j \<and> from_json env j = Ok (detached e))"

definition json_line :: "SpoolEnv \<Rightarrow> ConsoleEntry \<Rightarrow> string" where
  "json_line env e = (case to_json env e of Inr j \<Rightarrow> j @ ''\<newline>'' | Inl _ \<Rightarrow> [])"

fun spool_holds :: "SpoolEnv \<Rightarrow> EntrySpool \<Rightarrow> ConsoleEntry list \<Rightarrow> bool" where
  "spool_holds env (Memory xs n) es \<longleftrightarrow> xs = es"
| "spool_holds env (Disk f) es \<longleftrightarrow> f = concat (map (json_line env) es)"

lemma spool_reliableD:
  assumes "spool_reliable env E"
  shows "new_temp env = None" "append env f t = (f @ t, Ok ())" "rewind env f = Ok f"
    "e \<in> E \<Longrightarrow> \<exists>j. to_json env e = Ok j \<and> CHR 0x0A \<notin> set j \<and> CHR 0x0D \<notin> set j \<and> from_json env j = Ok (detached e)"
  using assms unfolding spool_reliable_def by auto

lemma append_all_ok:
  assumes "spool_reliable env E" "set es \<subseteq> E"
  shows "append_all env es f = (f @ concat (map (json_line env) es), Ok ())"
  using assms(2)
proof (induction es arbitrary: f)
  case (Cons e es)
  obtain j where "to_json env e = Ok j" using spool_reliableD(4)[OF assms(1), of e] Cons.prems by auto
  then show ?case using Cons by (simp add: io_bind_def spool_reliableD[OF assms(1)] json_line_def)
qed simp

lemma spool_push_holds:
  assumes "spool_reliable env E" "set es \<subseteq> E" "e \<in> E" "spool_holds env sp es"
  shows "\<exists>sp'. spool_push env e sp = (sp', Ok ()) \<and> spool_holds env sp' (es @ [e])"
proof (cases sp)
  case (Memory xs n)
  then show ?thesis
    using append_all_ok[OF assms(1), of "es @ [e]" "[]"] assms spool_reliableD(1)[OF assms(1)] by auto
next
  case (Disk f)
  then show ?thesis using append_all_ok[OF assms(1), of "[e]" f] assms by auto
qed

lemma text_lines_from_line:
  assumes "CHR 0x0A \<notin> set j" "CHR 0x0D \<notin> set j" "CHR 0x0D \<notin> set acc"
  shows "text_lines_from acc (j @ CHR 0x0A # rest) = (rev acc @ j) # text_lines_from [] rest"
  using assms
proof (induction j arbitrary: acc)
  case Nil
  then show ?case by (cases acc) auto
next
  case (Cons c j)
  then show ?case using Cons.IH[of "c # acc"] by auto
qed

lemma text_lines_json:
  assumes "spool_reliable env E" "set es \<subseteq> E"
  shows "map (from_json env) (text_lines (concat (map (json_line env) es))) = map (Inr \<circ> detached) es"
  using assms(2)
proof (induction es)
  case (Cons e es)
  obtain j where j: "to_json env e = Ok j" "CHR 0x0A \<notin> set j" "CHR 0x0D \<notin> set j" "from_json env j = Ok (detached e)"
    using spool_reliableD(4)[OF assms(1), of e] Cons.prems by auto
  then have "json_line env e = j @ ''\<newline>''" by (simp add: json_line_def)
  then show ?case
    using Cons j(4) text_lines_from_line[OF j(2,3), of "[]" "concat (map (json_line env) es)"]
    by (simp add: text_lines_def)
qed (simp add: text_lines_def)

text \<open>An entry, possibly read back from disk.\<close>

definition like :: "ConsoleEntry \<Rightarrow> ConsoleEntry \<Rightarrow> bool" where
  "like e e' \<longleftrightarrow> e' = e \<or> e' = detached e"

lemma like_refl: "list_all2 like es es"
  by (simp add: like_def list_all2_same)

lemma render_into_holds:
  assumes "infallible_renderer R" "spool_reliable env E" "set es \<subseteq> E" "spool_holds env sp es"
  shows "\<exists>out. render_into env R sp r = (drive R out r, Ok ()) \<and> list_all2 like es out"
proof (cases sp)
  case (Memory xs n)
  then show ?thesis using assms infallible_renderer.render_results_ok[OF assms(1), of es r] like_refl by auto
next
  case (Disk f)
  have "list_all2 like es (map detached es)"
    by (simp add: list_all2_map2 like_def list_all2_same)
  then show ?thesis
    using Disk assms infallible_renderer.render_results_ok[OF assms(1), of "map detached es" r]
      text_lines_json[OF assms(2,3)] spool_reliableD(3)[OF assms(2)]
    by (intro exI[of _ "map detached es"]) (simp add: o_def)
qed

section \<open>Traces\<close>

text \<open>Scope identities are pairs; quantifiers over them stay whole.\<close>

declare split_paired_All [simp del] split_paired_Ex [simp del]

text \<open>A trace is well-formed when every record is allowed behind the records before it.\<close>

fun trace_from :: "('e list \<Rightarrow> 'e \<Rightarrow> bool) \<Rightarrow> 'e list \<Rightarrow> 'e list \<Rightarrow> bool" where
  "trace_from allowed past [] = True"
| "trace_from allowed past (e # es) \<longleftrightarrow> allowed past e \<and> trace_from allowed (past @ [e]) es"

lemma trace_from_snoc: "trace_from allowed past (es @ [e]) \<longleftrightarrow> trace_from allowed past es \<and> allowed (past @ es) e"
  by (induction es arbitrary: past) auto

definition finishes :: "ConsoleEntry \<Rightarrow> (scope_ident \<times> ConsoleStatus) option" where
  "finishes e = map_option (\<lambda>(scope, st). (scope_key scope, st)) (finished_scope (entry_record e))"

definition finished_in :: "ConsoleEntry list \<Rightarrow> scope_ident \<Rightarrow> bool" where
  "finished_in es k \<longleftrightarrow> list_ex (\<lambda>e. map_option fst (finishes e) = Some k) es"

lemma finished_in_simps [simp]:
  "finished_in [] k = False"
  "finished_in (es @ [e]) k \<longleftrightarrow> finished_in es k \<or> map_option fst (finishes e) = Some k"
  by (auto simp: finished_in_def)

section \<open>Grouped output is contiguous\<close>

text \<open>The task a record belongs to when output is grouped; its end closes the group.\<close>

definition group_ident :: "ConsoleEntry \<Rightarrow> scope_ident option" where
  "group_ident e =
     (case finishes e of
        Some (k, _) \<Rightarrow> Some k
      | None \<Rightarrow> map_option scope_key (buffered_record_scope (entry_record e)))"

definition group_allowed :: "ConsoleEntry list \<Rightarrow> ConsoleEntry \<Rightarrow> bool" where
  "group_allowed past e \<longleftrightarrow>
     \<not> is_raw_output (entry_record e) \<and>
     (case group_ident e of None \<Rightarrow> True | Some k \<Rightarrow> \<not> finished_in past k)"

text \<open>
  The specification: one block per finished task that the policy shows, in the order in which the
  tasks finish, and in each block the records of the task in their order.
\<close>

definition group_blocks :: "FlushPolicy \<Rightarrow> ConsoleEntry list \<Rightarrow> ConsoleEntry list list" where
  "group_blocks policy es =
     map (\<lambda>(k, _). filter (\<lambda>e. group_ident e = Some k) es)
       (filter (\<lambda>(_, st). should_flush policy st) (List.map_filter finishes es))"

fun group_scope :: "SpoolEnv \<Rightarrow> bool \<Rightarrow> ConsoleEntry list \<Rightarrow> ScopeOutput option \<Rightarrow> bool" where
  "group_scope env fin xs None \<longleftrightarrow> fin \<or> xs = []"
| "group_scope env fin xs (Some (Buffered sp)) \<longleftrightarrow> \<not> fin \<and> spool_holds env sp xs"
| "group_scope env fin xs (Some Live) \<longleftrightarrow> False"

definition group_inv ::
    "SpoolEnv \<Rightarrow> FlushPolicy \<Rightarrow> ConsoleEntry list \<Rightarrow> ConsoleEntry list \<Rightarrow> 'r BufferedRenderer \<Rightarrow> bool" where
  "group_inv env policy es out b \<longleftrightarrow>
     bf_policy b = policy \<and> bf_templates b = None \<and>
     (\<forall>k. group_scope env (finished_in es k) (filter (\<lambda>e. group_ident e = Some k) es) (bf_scopes b k)) \<and>
     list_all2 like (concat (group_blocks policy es)) (filter (\<lambda>e. group_ident e \<noteq> None) out) \<and>
     filter (\<lambda>e. group_ident e = None) out = filter (\<lambda>e. group_ident e = None) es"

lemma finishing_finished: "(k, st) \<in> set (List.map_filter finishes es) \<Longrightarrow> finished_in es k"
proof (induction es rule: rev_induct)
  case (snoc e es)
  then show ?case by (cases "finishes e") (auto simp: map_filter_snoc)
qed (simp add: map_filter_simps)

lemma group_blocks_snoc:
  assumes "group_allowed es e"
  shows "group_blocks policy (es @ [e]) = group_blocks policy es @
    (case finishes e of
       Some (k, st) \<Rightarrow> if should_flush policy st then [filter (\<lambda>x. group_ident x = Some k) es @ [e]] else []
     | None \<Rightarrow> [])"
proof -
  have old: "filter (\<lambda>x. group_ident x = Some k) (es @ [e]) = filter (\<lambda>x. group_ident x = Some k) es"
    if "(k, st) \<in> set (List.map_filter finishes es)" for k st
    using finishing_finished[OF that] assms by (auto simp: group_allowed_def)
  then have blocks: "map (\<lambda>(k, _). filter (\<lambda>x. group_ident x = Some k) (es @ [e]))
      (filter (\<lambda>(_, st). should_flush policy st) (List.map_filter finishes es)) = group_blocks policy es"
    unfolding group_blocks_def by (intro map_cong refl) auto
  show ?thesis
  proof (cases "finishes e")
    case None
    then show ?thesis using blocks by (simp add: group_blocks_def map_filter_snoc)
  next
    case (Some x)
    then have "group_ident e = Some (fst x)" by (simp add: group_ident_def split: prod.splits)
    then show ?thesis using blocks Some
      by (cases x) (simp add: group_blocks_def map_filter_snoc)
  qed
qed

lemma group_invD:
  assumes "group_inv env policy es out b"
  shows "bf_policy b = policy" "bf_templates b = None"
    "bf_scopes b k = None \<Longrightarrow> finished_in es k \<or> filter (\<lambda>e. group_ident e = Some k) es = []"
    "bf_scopes b k = Some (Buffered sp) \<Longrightarrow> \<not> finished_in es k \<and> spool_holds env sp (filter (\<lambda>e. group_ident e = Some k) es)"
    "bf_scopes b k \<noteq> Some Live"
    "list_all2 like (concat (group_blocks policy es)) (filter (\<lambda>e. group_ident e \<noteq> None) out)"
    "filter (\<lambda>e. group_ident e = None) out = filter (\<lambda>e. group_ident e = None) es"
  using assms unfolding group_inv_def by (auto dest!: spec[of _ k])

text \<open>A record that belongs to no task is handed on at once.\<close>

lemma group_step_live:
  assumes R: "infallible_renderer R" and inv: "group_inv env policy es out b" and ok: "group_allowed es e"
    and none: "group_ident e = None"
  shows "\<exists>b'. buffered_render env expand R e b = (b', Ok ()) \<and> group_inv env policy (es @ [e]) (out @ [e]) b' \<and>
    bf_renderer b' = drive R [e] (bf_renderer b)"
proof -
  have f: "finishes e = None" "buffered_record_scope (entry_record e) = None"
    using none by (auto simp: group_ident_def split: option.splits)
  then have "finished_scope (entry_record e) = None" by (simp add: finishes_def)
  then have "buffered_render env expand R e b = (b\<lparr>bf_renderer := drive R [e] (bf_renderer b)\<rparr>, Ok ())"
    using f infallible_renderer.inner_render[OF R] by (simp add: buffered_render_def)
  moreover have "group_inv env policy (es @ [e]) (out @ [e]) (b\<lparr>bf_renderer := r\<rparr>)" for r
    using inv none f(1) group_blocks_snoc[OF ok, of policy] by (simp add: group_inv_def)
  ultimately show ?thesis by simp
qed

lemma group_step_push:
  assumes env: "spool_reliable env E" "set es \<subseteq> E" "e \<in> E" and inv: "group_inv env policy es out b"
    and ok: "group_allowed es e" and k: "group_ident e = Some k" "finishes e = None"
  shows "\<exists>b'. buffered_render env expand R e b = (b', Ok ()) \<and> group_inv env policy (es @ [e]) out b' \<and>
    bf_renderer b' = bf_renderer b"
proof -
  obtain scope where scope: "buffered_record_scope (entry_record e) = Some scope" "scope_key scope = k"
    using k by (auto simp: group_ident_def)
  have fin: "finished_scope (entry_record e) = None" "\<not> finished_in es k" "\<not> is_raw_output (entry_record e)"
    using k ok by (auto simp: finishes_def group_allowed_def)
  have prog: "\<not> is_progress (entry_record e)"
    using scope(1) by (cases "entry_record e" rule: is_progress.cases) auto
  define sp where "sp = (case bf_scopes b k of Some (Buffered sp) \<Rightarrow> sp | _ \<Rightarrow> spool_default)"
  have holds: "spool_holds env sp (filter (\<lambda>x. group_ident x = Some k) es)"
    using group_invD(3)[OF inv, of k] group_invD(4)[OF inv, of k] group_invD(5)[OF inv, of k] fin(2)
    by (auto simp: sp_def spool_default_def split: option.splits ScopeOutput.splits)
  obtain sp' where sp': "spool_push env e sp = (sp', Ok ())"
    "spool_holds env sp' (filter (\<lambda>x. group_ident x = Some k) (es @ [e]))"
    using spool_push_holds[OF env(1) _ env(3) holds] env(2) k(1) by auto
  have "buffered_render env expand R e b = (b\<lparr>bf_scopes := (bf_scopes b)(k \<mapsto> Buffered sp')\<rparr>, Ok ())"
    using fin prog scope sp'(1) group_invD(5)[OF inv, of k]
    by (auto simp: buffered_render_def Let_def sp_def split: option.splits ScopeOutput.splits)
  moreover have "group_inv env policy (es @ [e]) out (b\<lparr>bf_scopes := (bf_scopes b)(k \<mapsto> Buffered sp')\<rparr>)"
    using inv k fin(2) sp'(2) group_blocks_snoc[OF ok, of policy] unfolding group_inv_def by simp
  ultimately show ?thesis by simp
qed

lemma group_ident_detached: "group_ident (detached e) = None \<longleftrightarrow> group_ident e = None"
proof (cases "entry_record e")
  case (ExecutionRecord event)
  then show ?thesis by (cases event) (simp_all add: group_ident_def finishes_def detached_def)
qed (simp_all add: group_ident_def finishes_def detached_def)

lemma like_append: "list_all2 like a b \<Longrightarrow> list_all2 like c d \<Longrightarrow> list_all2 like (a @ c) (b @ d)"
  by (rule list_all2_appendI)

lemma like_filter_ident:
  assumes "list_all2 like xs ys" "\<And>x. x \<in> set xs \<Longrightarrow> group_ident x \<noteq> None"
  shows "filter (\<lambda>e. group_ident e \<noteq> None) ys = ys \<and> filter (\<lambda>e. group_ident e = None) ys = []"
  using assms
proof (induction rule: list_all2_induct)
  case (Cons x xs y ys)
  then have "group_ident y \<noteq> None" using group_ident_detached[of x] Cons.prems[of x] by (simp add: like_def) force
  then show ?case using Cons by auto
qed simp

lemma group_step_finish:
  assumes R: "infallible_renderer R" and env: "spool_reliable env E" "set es \<subseteq> E" and inv: "group_inv env policy es out b"
    and ok: "group_allowed es e" and k: "finishes e = Some (k, st)"
  shows "\<exists>b' new. buffered_render env expand R e b = (b', Ok ()) \<and> group_inv env policy (es @ [e]) (out @ new) b' \<and>
    bf_renderer b' = drive R new (bf_renderer b)"
proof -
  let ?xs = "filter (\<lambda>x. group_ident x = Some k) es"
  obtain scope where scope: "finished_scope (entry_record e) = Some (scope, st)" "scope_key scope = k"
    using k by (auto simp: finishes_def)
  have prog: "\<not> is_progress (entry_record e)"
    using scope(1) by (cases "entry_record e" rule: is_progress.cases) auto
  have ident: "group_ident e = Some k" using k by (simp add: group_ident_def)
  have fin: "\<not> finished_in es k" using ok ident by (simp add: group_allowed_def)
  note snoc = group_blocks_snoc[OF ok, of policy]
  have step: "group_inv env policy (es @ [e]) (out @ new) (b\<lparr>bf_scopes := (bf_scopes b)(k := None), bf_renderer := r\<rparr>)"
    if "list_all2 like (if should_flush policy st then ?xs @ [e] else []) new" for new r
  proof -
    have "x \<in> set (if should_flush policy st then ?xs @ [e] else []) \<Longrightarrow> group_ident x \<noteq> None" for x
      using ident by (auto split: if_splits)
    note new = like_filter_ident[OF that this]
    show ?thesis using inv k ident fin snoc that new unfolding group_inv_def
      by (auto intro!: like_append)
  qed
  show ?thesis
  proof (cases "bf_scopes b k")
    case None
    then have xs: "?xs = []" using group_invD(3)[OF inv, of k] fin by simp
    show ?thesis
    proof (cases "should_flush policy st")
      case True
      then show ?thesis using step[of "[e]"] xs scope prog None group_invD(1)[OF inv]
        by (intro exI[of _ "b\<lparr>bf_scopes := (bf_scopes b)(k := None), bf_renderer := drive R [e] (bf_renderer b)\<rparr>"] exI[of _ "[e]"])
           (simp add: buffered_render_def Let_def like_def infallible_renderer.inner_render[OF R])
    next
      case False
      then show ?thesis using step[of "[]" "bf_renderer b"] scope prog None group_invD(1)[OF inv]
        by (intro exI[of _ "b\<lparr>bf_scopes := (bf_scopes b)(k := None)\<rparr>"] exI[of _ "[]"]) (simp add: buffered_render_def Let_def)
    qed
  next
    case (Some o')
    then obtain sp where sp: "bf_scopes b k = Some (Buffered sp)" "spool_holds env sp ?xs"
      using group_invD(4,5)[OF inv, of k] by (cases o') auto
    show ?thesis
    proof (cases "should_flush policy st")
      case True
      obtain ys where ys: "render_into env R sp (bf_renderer b) = (drive R ys (bf_renderer b), Ok ())" "list_all2 like ?xs ys"
        using render_into_holds[OF R env(1) _ sp(2), of "bf_renderer b"] env(2) by auto
      have "flush_scope env expand R e scope sp None (bf_renderer b) = (drive R (ys @ [e]) (bf_renderer b), Ok ())"
        by (simp add: flush_scope_def render_group_line_def io_also_def ys infallible_renderer.render_eq[OF R])
      then show ?thesis using True step[of "ys @ [e]"] ys(2) scope prog sp(1) group_invD(1,2)[OF inv]
        by (intro exI[of _ "b\<lparr>bf_scopes := (bf_scopes b)(k := None), bf_renderer := drive R (ys @ [e]) (bf_renderer b)\<rparr>"]
            exI[of _ "ys @ [e]"])
           (simp add: buffered_render_def Let_def inner_call_def like_append like_def)
    next
      case False
      then show ?thesis using step[of "[]" "bf_renderer b"] scope prog sp group_invD(1)[OF inv]
        by (intro exI[of _ "b\<lparr>bf_scopes := (bf_scopes b)(k := None)\<rparr>"] exI[of _ "[]"]) (simp add: buffered_render_def Let_def)
    qed
  qed
qed

lemma group_run:
  assumes R: "infallible_renderer R" and env: "spool_reliable env (set es)" and ok: "trace_from group_allowed [] es"
  shows "\<exists>b out. io_each (buffered_render env expand R) es (buffered_new r policy) = (b, Ok ()) \<and>
    group_inv env policy es out b \<and> bf_renderer b = drive R out r"
  using env ok
proof (induction es rule: rev_induct)
  case Nil
  then show ?case
    by (simp add: buffered_new_def group_inv_def group_blocks_def map_filter_simps exI[of _ "[]"])
next
  case (snoc e es)
  have rel: "spool_reliable env (set es)" using snoc.prems(1) by (auto simp: spool_reliable_def)
  have al: "group_allowed es e" "trace_from group_allowed [] es" using snoc.prems(2) by (simp_all add: trace_from_snoc)
  obtain b out where b: "io_each (buffered_render env expand R) es (buffered_new r policy) = (b, Ok ())"
    "group_inv env policy es out b" "bf_renderer b = drive R out r"
    using snoc.IH[OF rel al(2)] by blast
  have sub: "set es \<subseteq> set (es @ [e])" "e \<in> set (es @ [e])" by auto
  have "\<exists>b' new. buffered_render env expand R e b = (b', Ok ()) \<and> group_inv env policy (es @ [e]) (out @ new) b' \<and>
    bf_renderer b' = drive R new (bf_renderer b)"
  proof (cases "finishes e")
    case (Some x)
    then show ?thesis using group_step_finish[OF R snoc.prems(1) sub(1) b(2) al(1)] by (cases x) auto
  next
    case None
    show ?thesis
    proof (cases "group_ident e")
      case None
      then show ?thesis using group_step_live[OF R b(2) al(1)] by blast
    next
      case (Some k)
      then show ?thesis using group_step_push[OF snoc.prems(1) sub b(2) al(1) Some None]
        by (metis append_Nil2 drive_simps(1))
    qed
  qed
  then obtain b' new where "buffered_render env expand R e b = (b', Ok ())" "group_inv env policy (es @ [e]) (out @ new) b'"
    "bf_renderer b' = drive R new (bf_renderer b)" by blast
  then show ?case using b
    by (intro exI[of _ b'] exI[of _ "out @ new"]) (simp add: io_each_append io_bind_def)
qed

text \<open>
  C37.  Grouped output is contiguous.  Whatever the interleaving of the tasks, and whether the spool stays
  in memory or moves to disk, the grouping renderer drives the wrapped one with one block per finished
  task that its policy shows, in the order in which the tasks finish; a block holds all records of its
  task in their order, and records of no task are handed on in theirs.
\<close>

theorem grouped_blocks:
  assumes "\<And>e r. snd (r_render R e r) = Ok ()" "spool_reliable env (set es)" "trace_from group_allowed [] es"
  shows "\<exists>b out. io_each (buffered_render env expand R) es (buffered_new r policy) = (b, Ok ()) \<and>
    bf_renderer b = drive R out r \<and>
    list_all2 like (concat (group_blocks policy es)) (filter (\<lambda>e. group_ident e \<noteq> None) out) \<and>
    filter (\<lambda>e. group_ident e = None) out = filter (\<lambda>e. group_ident e = None) es"
proof -
  have R: "infallible_renderer R" using assms(1) by unfold_locales
  from group_run[OF R assms(2,3), of expand r policy] show ?thesis unfolding group_inv_def by blast
qed

section \<open>Declaration order\<close>

definition entry_ident :: "ConsoleEntry \<Rightarrow> scope_ident option" where
  "entry_ident e = map_option scope_key (keep_order_record_scope (entry_record e))"

definition declares :: "ConsoleEntry \<Rightarrow> scope_ident option" where
  "declares e = map_option scope_key (declared_scope (entry_record e))"

definition declared_in :: "ConsoleEntry list \<Rightarrow> scope_ident list" where
  "declared_in es = List.map_filter declares es"

text \<open>Scopes are declared once, used between declaration and end, and no session is raw.\<close>

definition order_allowed :: "ConsoleEntry list \<Rightarrow> ConsoleEntry \<Rightarrow> bool" where
  "order_allowed past e \<longleftrightarrow>
     \<not> is_raw_output (entry_record e) \<and>
     (case declares e of None \<Rightarrow> True | Some k \<Rightarrow> k \<notin> set (declared_in past)) \<and>
     (case entry_ident e of None \<Rightarrow> True | Some k \<Rightarrow> k \<in> set (declared_in past) \<and> \<not> finished_in past k)"

definition of_scope :: "ConsoleEntry list \<Rightarrow> scope_ident \<Rightarrow> ConsoleEntry list" where
  "of_scope es k = filter (\<lambda>e. entry_ident e = Some k) es"

text \<open>
  The specification: the declared scopes up to the first that has not finished, each with all its
  records, one scope after the other.
\<close>

definition visible_scopes :: "ConsoleEntry list \<Rightarrow> scope_ident list" where
  "visible_scopes es =
     takeWhile (finished_in es) (declared_in es) @ take 1 (dropWhile (finished_in es) (declared_in es))"

definition keep_order_spec :: "ConsoleEntry list \<Rightarrow> ConsoleEntry list" where
  "keep_order_spec es = concat (map (of_scope es) (visible_scopes es))"

lemma declared_in_snoc:
  "declared_in (es @ [e]) = declared_in es @ (case declares e of None \<Rightarrow> [] | Some k \<Rightarrow> [k])"
  by (simp add: declared_in_def map_filter_snoc)

lemma of_scope_snoc: "of_scope (es @ [e]) k = of_scope es k @ (if entry_ident e = Some k then [e] else [])"
  by (simp add: of_scope_def)

lemma ident_kinds:
  "declares e \<noteq> None \<Longrightarrow> entry_ident e = None \<and> finishes e = None"
  "is_progress (entry_record e) \<Longrightarrow> entry_ident e = None \<and> declares e = None \<and> finishes e = None"
  "finishes e = Some (k, st) \<Longrightarrow> entry_ident e = Some k"
proof -
  show "declares e \<noteq> None \<Longrightarrow> entry_ident e = None \<and> finishes e = None"
    by (cases "entry_record e" rule: declared_scope.cases) (auto simp: declares_def entry_ident_def finishes_def)
  show "is_progress (entry_record e) \<Longrightarrow> entry_ident e = None \<and> declares e = None \<and> finishes e = None"
    by (cases "entry_record e" rule: is_progress.cases) (auto simp: declares_def entry_ident_def finishes_def)
  show "finishes e = Some (k, st) \<Longrightarrow> entry_ident e = Some k"
    by (cases "entry_record e" rule: finished_scope.cases) (auto simp: entry_ident_def finishes_def)
qed

lemma trace_declared:
  assumes "trace_from order_allowed [] es"
  shows "distinct (declared_in es)" "of_scope es k \<noteq> [] \<Longrightarrow> k \<in> set (declared_in es)"
    "finished_in es k \<Longrightarrow> k \<in> set (declared_in es)"
proof -
  have "distinct (declared_in es) \<and> (\<forall>k. of_scope es k \<noteq> [] \<longrightarrow> k \<in> set (declared_in es)) \<and>
    (\<forall>k. finished_in es k \<longrightarrow> k \<in> set (declared_in es))"
    using assms
  proof (induction es rule: rev_induct)
    case (snoc e es)
    have al: "order_allowed es e" "trace_from order_allowed [] es" using snoc.prems by (simp_all add: trace_from_snoc)
    have fin: "map_option fst (finishes e) = Some k \<Longrightarrow> entry_ident e = Some k" for k
      using ident_kinds(3)[of e] by (cases "finishes e") auto
    show ?case using snoc.IH[OF al(2)] al(1) fin
      by (auto simp: declared_in_snoc of_scope_snoc order_allowed_def split: option.splits)
  qed (simp add: declared_in_def of_scope_def map_filter_simps)
  then show "distinct (declared_in es)" "of_scope es k \<noteq> [] \<Longrightarrow> k \<in> set (declared_in es)"
    "finished_in es k \<Longrightarrow> k \<in> set (declared_in es)" by auto
qed

definition held :: "SpoolEnv \<Rightarrow> ConsoleEntry list \<Rightarrow> (scope_ident \<Rightarrow> KeepScope option) \<Rightarrow> scope_ident \<Rightarrow> bool" where
  "held env es m k \<longleftrightarrow>
     (\<exists>st. m k = Some st \<and> spool_holds env (ks_entries st) (of_scope es k) \<and> ks_finished st = finished_in es k)"

definition keep_inv :: "SpoolEnv \<Rightarrow> ConsoleEntry list \<Rightarrow> ConsoleEntry list \<Rightarrow> 'r KeepOrderRenderer \<Rightarrow> bool" where
  "keep_inv env es out s \<longleftrightarrow>
     ko_raw s = {} \<and> ko_order s = dropWhile (finished_in es) (declared_in es) \<and>
     (\<forall>k\<in>set (tl (ko_order s)). held env es (ko_scopes s) k) \<and>
     (\<forall>k. k \<notin> set (declared_in es) \<longrightarrow> ko_scopes s k = None) \<and>
     list_all2 like (keep_order_spec es) (filter (\<lambda>e. entry_ident e \<noteq> None) out) \<and>
     filter (\<lambda>e. entry_ident e = None) out = filter (\<lambda>e. entry_ident e = None) es"

lemma advance_loop_ok:
  assumes R: "infallible_renderer R" and env: "spool_reliable env (set es)"
    and ks: "\<forall>k\<in>set ks. held env es m k" "distinct ks"
  shows "\<exists>m' out. advance_loop env R ks m r = ((dropWhile (finished_in es) ks, m', drive R out r), Ok ()) \<and>
    list_all2 like (concat (map (of_scope es) (takeWhile (finished_in es) ks @ take 1 (dropWhile (finished_in es) ks)))) out \<and>
    (\<forall>k\<in>set (tl (dropWhile (finished_in es) ks)). m' k = m k) \<and> (\<forall>k. k \<notin> set ks \<longrightarrow> m' k = m k)"
  using ks
proof (induction ks arbitrary: m r)
  case Nil
  then show ?case by (auto intro: exI[of _ "[]"])
next
  case (Cons k ks)
  obtain st where st: "m k = Some st" "spool_holds env (ks_entries st) (of_scope es k)" "ks_finished st = finished_in es k"
    using Cons.prems(1) by (auto simp: held_def)
  have "set (of_scope es k) \<subseteq> set es" by (auto simp: of_scope_def)
  then obtain out where out: "render_into env R (ks_entries st) r = (drive R out r, Ok ())" "list_all2 like (of_scope es k) out"
    using render_into_holds[OF R env _ st(2)] by blast
  show ?case
  proof (cases "finished_in es k")
    case True
    have "\<forall>x\<in>set ks. held env es (m(k := None)) x" "distinct ks" using Cons.prems by (auto simp: held_def)
    from Cons.IH[OF this, of "drive R out r"] obtain m' out' where
      IH: "advance_loop env R ks (m(k := None)) (drive R out r) = ((dropWhile (finished_in es) ks, m', drive R out' (drive R out r)), Ok ())"
      "list_all2 like (concat (map (of_scope es) (takeWhile (finished_in es) ks @ take 1 (dropWhile (finished_in es) ks)))) out'"
      "\<forall>x\<in>set (tl (dropWhile (finished_in es) ks)). m' x = (m(k := None)) x" "\<forall>x. x \<notin> set ks \<longrightarrow> m' x = (m(k := None)) x"
      by blast
    have "x \<noteq> k" if "x \<in> set (tl (dropWhile (finished_in es) ks))" for x
      using that Cons.prems(2) by (metis distinct.simps(2) list.set_sel(2) set_dropWhileD tl_Nil empty_iff list.set(1))
    then show ?thesis using True st out IH
      by (intro exI[of _ m'] exI[of _ "out @ out'"]) (auto intro: like_append)
  next
    case False
    then show ?thesis using st out Cons.prems(2)
      by (intro exI[of _ "m(k \<mapsto> keep_scope_default)"] exI[of _ out]) auto
  qed
qed

lemma like_scoped:
  assumes "list_all2 like xs ys" "\<And>x. x \<in> set xs \<Longrightarrow> entry_ident x \<noteq> None"
  shows "filter (\<lambda>e. entry_ident e \<noteq> None) ys = ys \<and> filter (\<lambda>e. entry_ident e = None) ys = []"
  using assms
proof (induction rule: list_all2_induct)
  case (Cons x xs y ys)
  have "entry_ident (detached x) = None \<longleftrightarrow> entry_ident x = None"
  proof (cases "entry_record x")
    case (ExecutionRecord event)
    then show ?thesis by (cases event) (simp_all add: entry_ident_def detached_def)
  qed (simp_all add: entry_ident_def detached_def)
  then have "entry_ident y \<noteq> None" using Cons.prems[of x] Cons.hyps(1) by (simp add: like_def) force
  then show ?case using Cons by auto
qed simp

lemma in_dropWhile: "x \<in> set xs \<Longrightarrow> \<not> P x \<Longrightarrow> x \<in> set (dropWhile P xs)"
  by (induction xs) auto

text \<open>How the specification grows with one more record.\<close>

lemma spec_declared:
  assumes ok: "trace_from order_allowed [] es" "order_allowed es e" and k: "declares e = Some k"
  shows "dropWhile (finished_in (es @ [e])) (declared_in (es @ [e])) = dropWhile (finished_in es) (declared_in es) @ [k]"
    "keep_order_spec (es @ [e]) = keep_order_spec es"
proof -
  have "k \<notin> set (declared_in es)" using ok(2) k by (simp add: order_allowed_def)
  then have nf: "\<not> finished_in es k" "of_scope es k = []" using trace_declared(2,3)[OF ok(1), of k] by auto
  have e: "entry_ident e = None" "finishes e = None" using ident_kinds(1)[of e] k by auto
  have fin: "finished_in (es @ [e]) = finished_in es" using e by (intro ext) simp
  show "dropWhile (finished_in (es @ [e])) (declared_in (es @ [e])) = dropWhile (finished_in es) (declared_in es) @ [k]"
    unfolding fin declared_in_snoc k using dropWhile_append3[of "finished_in es" k "declared_in es" "[]"] nf by simp
  have vis: "visible_scopes (es @ [e]) = visible_scopes es \<or> visible_scopes (es @ [e]) = visible_scopes es @ [k]"
    unfolding visible_scopes_def fin declared_in_snoc k
    using dropWhile_append3[of "finished_in es" k "declared_in es" "[]"] takeWhile_tail[of "finished_in es" k "declared_in es" "[]"] nf
    by (cases "dropWhile (finished_in es) (declared_in es)") auto
  have "of_scope (es @ [e]) = of_scope es" by (intro ext) (simp add: of_scope_snoc e)
  then show "keep_order_spec (es @ [e]) = keep_order_spec es" using vis nf(2) unfolding keep_order_spec_def by auto
qed

lemma spec_plain:
  assumes "declares e = None" "entry_ident e = None" "finishes e = None"
  shows "dropWhile (finished_in (es @ [e])) (declared_in (es @ [e])) = dropWhile (finished_in es) (declared_in es)"
    "keep_order_spec (es @ [e]) = keep_order_spec es"
proof -
  have "finished_in (es @ [e]) = finished_in es" "of_scope (es @ [e]) = of_scope es"
    using assms by (auto simp: of_scope_snoc)
  then show "dropWhile (finished_in (es @ [e])) (declared_in (es @ [e])) = dropWhile (finished_in es) (declared_in es)"
    "keep_order_spec (es @ [e]) = keep_order_spec es"
    using assms by (simp_all add: keep_order_spec_def visible_scopes_def declared_in_snoc)
qed

lemma spec_scoped:
  assumes ok: "trace_from order_allowed [] es" "order_allowed es e" and k: "entry_ident e = Some k"
  obtains h t where "dropWhile (finished_in es) (declared_in es) = h # t" "k \<in> set (h # t)" "distinct (h # t)"
    "\<not> finished_in es h" "visible_scopes es = takeWhile (finished_in es) (declared_in es) @ [h]"
    "declared_in (es @ [e]) = declared_in es" "k \<notin> set (takeWhile (finished_in es) (declared_in es))"
    "set (takeWhile (finished_in es) (declared_in es)) \<inter> set (h # t) = {}"
proof -
  let ?D = "declared_in es" and ?fin = "finished_in es"
  have dec: "k \<in> set ?D" "\<not> ?fin k" using ok(2) k by (simp_all add: order_allowed_def)
  have "declares e = None" using ident_kinds(1)[of e] k by (cases "declares e") auto
  then have D': "declared_in (es @ [e]) = ?D" by (simp add: declared_in_snoc)
  have kd: "k \<in> set (dropWhile ?fin ?D)" using in_dropWhile[of k ?D ?fin] dec by simp
  then obtain h t where ht: "dropWhile ?fin ?D = h # t" by (cases "dropWhile ?fin ?D") auto
  have split: "?D = takeWhile ?fin ?D @ h # t" using takeWhile_dropWhile_id[of ?fin ?D] ht by simp
  have "distinct (takeWhile ?fin ?D @ h # t)" using trace_declared(1)[OF ok(1)] split by simp
  then have dist: "distinct (h # t)" "set (takeWhile ?fin ?D) \<inter> set (h # t) = {}" by auto
  have nh: "\<not> ?fin h" using hd_dropWhile[of ?fin ?D] ht by simp
  have kt: "k \<notin> set (takeWhile ?fin ?D)" using dec(2) by (auto dest: set_takeWhileD)
  show thesis by (rule that[OF ht _ dist(1) nh _ D' kt dist(2)]) (use kd ht in \<open>auto simp: visible_scopes_def\<close>)
qed

lemma of_scope_other:
  "entry_ident e = Some k \<Longrightarrow> k \<notin> set xs \<Longrightarrow> concat (map (of_scope (es @ [e])) xs) = concat (map (of_scope es) xs)"
  by (intro arg_cong[of _ _ concat]) (auto simp: of_scope_snoc)

lemma split_while:
  assumes "D = P @ h # t" "\<forall>x\<in>set P. f x"
  shows "\<not> f h \<Longrightarrow> takeWhile f D = P" "\<not> f h \<Longrightarrow> dropWhile f D = h # t"
    "f h \<Longrightarrow> takeWhile f D = P @ h # takeWhile f t" "f h \<Longrightarrow> dropWhile f D = dropWhile f t"
  using assms by (simp_all add: takeWhile_append2 dropWhile_append2)

lemma finished_in_other:
  "map_option fst (finishes e) = None \<or> (\<exists>k. map_option fst (finishes e) = Some k \<and> k \<notin> set xs) \<Longrightarrow>
   takeWhile (finished_in (es @ [e])) xs = takeWhile (finished_in es) xs \<and>
   dropWhile (finished_in (es @ [e])) xs = dropWhile (finished_in es) xs"
  by (induction xs) auto

text \<open>A record of a scope behind the first: nothing becomes visible.\<close>

lemma spec_behind:
  assumes ok: "trace_from order_allowed [] es" "order_allowed es e" and k: "entry_ident e = Some k"
    and ht: "dropWhile (finished_in es) (declared_in es) = h # t" "k \<noteq> h"
  shows "dropWhile (finished_in (es @ [e])) (declared_in (es @ [e])) = h # t" "keep_order_spec (es @ [e]) = keep_order_spec es"
proof -
  let ?D = "declared_in es" and ?P = "takeWhile (finished_in es) (declared_in es)"
  obtain nh: "\<not> finished_in es h" and vis: "visible_scopes es = ?P @ [h]" and D': "declared_in (es @ [e]) = ?D"
    and kp: "k \<notin> set ?P"
    using spec_scoped[OF ok k] ht(1) by (metis list.inject)
  have fin: "map_option fst (finishes e) = None \<or> map_option fst (finishes e) = Some k"
    using ident_kinds(3)[of e] k by (cases "finishes e") auto
  have P: "\<forall>x\<in>set ?P. finished_in (es @ [e]) x" by (auto dest: set_takeWhileD)
  have h: "\<not> finished_in (es @ [e]) h" using nh fin ht(2) by auto
  have split: "?D = ?P @ h # t" using takeWhile_dropWhile_id[of "finished_in es" ?D] ht(1) by simp
  have tw: "takeWhile (finished_in (es @ [e])) ?D = ?P" "dropWhile (finished_in (es @ [e])) ?D = h # t"
    by (rule split_while(1,2)[OF split P h])+
  then show "dropWhile (finished_in (es @ [e])) (declared_in (es @ [e])) = h # t" using D' by simp
  have "visible_scopes (es @ [e]) = visible_scopes es" unfolding visible_scopes_def D' tw using vis ht(1) by simp
  then show "keep_order_spec (es @ [e]) = keep_order_spec es"
    unfolding keep_order_spec_def using of_scope_other[OF k, of "visible_scopes es" es] vis kp ht(2) by simp
qed

text \<open>A record of the first scope: it is shown, and when it ends the scope, so are the next ones.\<close>

lemma spec_front:
  assumes ok: "trace_from order_allowed [] es" "order_allowed es e" and k: "entry_ident e = Some h"
    and ht: "dropWhile (finished_in es) (declared_in es) = h # t"
  shows "finishes e = None \<Longrightarrow> dropWhile (finished_in (es @ [e])) (declared_in (es @ [e])) = h # t"
    "finishes e = None \<Longrightarrow> keep_order_spec (es @ [e]) = keep_order_spec es @ [e]"
    "finishes e \<noteq> None \<Longrightarrow> dropWhile (finished_in (es @ [e])) (declared_in (es @ [e])) = dropWhile (finished_in (es @ [e])) t"
    "finishes e \<noteq> None \<Longrightarrow> keep_order_spec (es @ [e]) = keep_order_spec es @ [e] @
       concat (map (of_scope (es @ [e])) (takeWhile (finished_in (es @ [e])) t @ take 1 (dropWhile (finished_in (es @ [e])) t)))"
proof -
  let ?D = "declared_in es" and ?P = "takeWhile (finished_in es) (declared_in es)" and ?fin' = "finished_in (es @ [e])"
  obtain nh: "\<not> finished_in es h" and vis: "visible_scopes es = ?P @ [h]" and D': "declared_in (es @ [e]) = ?D"
    and kp: "h \<notin> set ?P"
    using spec_scoped[OF ok k] ht(1) by (metis list.inject)
  have P: "\<forall>x\<in>set ?P. ?fin' x" by (auto dest: set_takeWhileD)
  have split: "?D = ?P @ h # t" using takeWhile_dropWhile_id[of "finished_in es" ?D] ht(1) by simp
  have mapP: "concat (map (of_scope (es @ [e])) ?P) = concat (map (of_scope es) ?P)" "of_scope (es @ [e]) h = of_scope es h @ [e]"
    using of_scope_other[OF k kp] k by (simp_all add: of_scope_snoc)
  have spec: "keep_order_spec es = concat (map (of_scope es) ?P) @ of_scope es h"
    unfolding keep_order_spec_def vis by simp
  {
    assume "finishes e = None"
    then have h: "\<not> ?fin' h" using nh by simp
    have "takeWhile ?fin' ?D = ?P" "dropWhile ?fin' ?D = h # t"
      by (rule split_while(1,2)[OF split P h])+
    then show "dropWhile ?fin' (declared_in (es @ [e])) = h # t" "keep_order_spec (es @ [e]) = keep_order_spec es @ [e]"
      using D' mapP spec by (simp_all add: keep_order_spec_def[of "es @ [e]"] visible_scopes_def)
  next
    assume "finishes e \<noteq> None"
    then have h: "?fin' h" using ident_kinds(3)[of e] k by (cases "finishes e") auto
    have "takeWhile ?fin' ?D = ?P @ h # takeWhile ?fin' t" "dropWhile ?fin' ?D = dropWhile ?fin' t"
      by (rule split_while(3,4)[OF split P h])+
    then show "dropWhile ?fin' (declared_in (es @ [e])) = dropWhile ?fin' t"
      "keep_order_spec (es @ [e]) = keep_order_spec es @ [e] @
        concat (map (of_scope (es @ [e])) (takeWhile ?fin' t @ take 1 (dropWhile ?fin' t)))"
      using D' mapP spec by (simp_all add: keep_order_spec_def[of "es @ [e]"] visible_scopes_def)
  }
qed

lemma held_snoc:
  assumes "entry_ident e \<noteq> Some k" "map_option fst (finishes e) \<noteq> Some k"
  shows "held env (es @ [e]) m k = held env es m k"
proof -
  have "finished_in (es @ [e]) k = finished_in es k" using assms(2) by auto
  then show ?thesis unfolding held_def of_scope_snoc using assms(1) by simp
qed

lemma keep_invD:
  assumes "keep_inv env es out s"
  shows "ko_raw s = {}" "ko_order s = dropWhile (finished_in es) (declared_in es)"
    "k \<in> set (tl (ko_order s)) \<Longrightarrow> held env es (ko_scopes s) k" "k \<notin> set (declared_in es) \<Longrightarrow> ko_scopes s k = None"
    "list_all2 like (keep_order_spec es) (filter (\<lambda>e. entry_ident e \<noteq> None) out)"
    "filter (\<lambda>e. entry_ident e = None) out = filter (\<lambda>e. entry_ident e = None) es"
  using assms unfolding keep_inv_def by auto

text \<open>Establishing the invariant behind a record.\<close>

lemma keep_invI:
  assumes inv: "keep_inv env es out s"
    and raw: "ko_raw s' = {}" and ord: "ko_order s' = dropWhile (finished_in (es @ [e])) (declared_in (es @ [e]))"
    and tl: "\<And>k. k \<in> set (tl (ko_order s')) \<Longrightarrow> held env (es @ [e]) (ko_scopes s') k"
    and undeclared: "\<And>k. k \<notin> set (declared_in (es @ [e])) \<Longrightarrow> ko_scopes s' k = None"
    and spec: "keep_order_spec (es @ [e]) = keep_order_spec es @ xs" "list_all2 like xs ys"
    and scoped: "\<And>x. x \<in> set xs \<Longrightarrow> entry_ident x \<noteq> None"
    and new: "new = ys @ (if entry_ident e = None then [e] else [])"
  shows "keep_inv env (es @ [e]) (out @ new) s'"
  using raw ord tl undeclared keep_invD(5,6)[OF inv] like_scoped[OF spec(2) scoped] spec new
  unfolding keep_inv_def by (auto intro!: like_append)

lemma keep_step_plain:
  assumes R: "infallible_renderer R" and inv: "keep_inv env es out s"
    and ok: "trace_from order_allowed [] es" "order_allowed es e" and e: "entry_ident e = None"
  shows "\<exists>s'. keep_order_render env R e s = (s', Ok ()) \<and> keep_inv env (es @ [e]) (out @ [e]) s' \<and>
    ko_renderer s' = drive R [e] (ko_renderer s)"
proof (cases "declares e")
  case None
  have f: "finishes e = None" using ident_kinds(3)[of e] e by (cases "finishes e") auto
  let ?s = "s\<lparr>ko_renderer := drive R [e] (ko_renderer s)\<rparr>"
  have "keep_order_render env R e s = (?s, Ok ())"
    using None e by (simp add: keep_order_render_def declares_def entry_ident_def infallible_renderer.inner_render[OF R])
  moreover have "keep_inv env (es @ [e]) (out @ [e]) ?s"
    by (rule keep_invI[OF inv, where xs = "[]" and ys = "[]"])
       (use keep_invD[OF inv] spec_plain[OF None e f, of es] e f None held_snoc[of e _ env es] in \<open>auto simp: declared_in_snoc\<close>)
  ultimately show ?thesis by simp
next
  case (Some k)
  obtain scope where scope: "declared_scope (entry_record e) = Some scope" "scope_key scope = k"
    using Some by (auto simp: declares_def)
  have nk: "k \<notin> set (declared_in es)" using ok(2) Some by (simp add: order_allowed_def)
  have f: "finishes e = None" using ident_kinds(1)[of e] Some by auto
  let ?s = "s\<lparr>ko_order := ko_order s @ [k], ko_scopes := (ko_scopes s)(k \<mapsto> keep_scope_default),
    ko_renderer := drive R [e] (ko_renderer s)\<rparr>"
  have "keep_order_render env R e s = (?s, Ok ())"
    using scope keep_invD(4)[OF inv nk]
    by (simp add: keep_order_render_def update_scope_def infallible_renderer.inner_render[OF R])
  moreover have "keep_inv env (es @ [e]) (out @ [e]) ?s"
  proof (rule keep_invI[OF inv, where xs = "[]" and ys = "[]"])
    fix x assume x: "x \<in> set (tl (ko_order ?s))"
    have "of_scope es k = []" "\<not> finished_in es k" using trace_declared(2,3)[OF ok(1), of k] nk by auto
    then have new: "held env (es @ [e]) (ko_scopes ?s) k"
      using e f by (simp add: held_def of_scope_snoc keep_scope_default_def spool_default_def)
    show "held env (es @ [e]) (ko_scopes ?s) x"
    proof (cases "x = k")
      case False
      then have "x \<in> set (tl (ko_order s))" using x by (cases "ko_order s") auto
      then show ?thesis using keep_invD(3)[OF inv] held_snoc[of e x env es] False e f by (simp add: held_def)
    qed (use new in simp)
  qed (use keep_invD[OF inv] spec_declared[OF ok Some] e Some in \<open>auto simp: declared_in_snoc\<close>)
  ultimately show ?thesis by simp
qed

lemma keep_step_behind:
  assumes env: "spool_reliable env (set (es @ [e]))" and inv: "keep_inv env es out s"
    and ok: "trace_from order_allowed [] es" "order_allowed es e" and k: "entry_ident e = Some k"
    and ht: "ko_order s = h # t" "k \<noteq> h"
  shows "\<exists>s'. keep_order_render env R e s = (s', Ok ()) \<and> keep_inv env (es @ [e]) out s' \<and> ko_renderer s' = ko_renderer s"
proof -
  obtain scope where scope: "keep_order_record_scope (entry_record e) = Some scope" "scope_key scope = k"
    using k by (auto simp: entry_ident_def)
  have rec: "declared_scope (entry_record e) = None" "\<not> is_progress (entry_record e)" "\<not> is_raw_output (entry_record e)"
    using ident_kinds(1,2)[of e] k ok(2)
    by (cases "declared_scope (entry_record e)"; auto simp: declares_def order_allowed_def)+
  have ht': "dropWhile (finished_in es) (declared_in es) = h # t" using keep_invD(2)[OF inv] ht by simp
  have kt: "k \<in> set t" "distinct (h # t)" and D': "declared_in (es @ [e]) = declared_in es"
    and nk: "\<not> finished_in es k" and kD: "k \<in> set (declared_in es)"
    using spec_scoped[OF ok k] ht' ht(2) ok(2) k by (auto simp: order_allowed_def)
  obtain st where st: "ko_scopes s k = Some st" "spool_holds env (ks_entries st) (of_scope es k)" "ks_finished st = finished_in es k"
    using keep_invD(3)[OF inv, of k] ht kt by (auto simp: held_def)
  obtain sp where sp: "spool_push env e (ks_entries st) = (sp, Ok ())" "spool_holds env sp (of_scope (es @ [e]) k)"
    using spool_push_holds[OF env _ _ st(2), of e] k by (force simp: of_scope_def)
  let ?st = "if finishes e = None then st\<lparr>ks_entries := sp\<rparr> else st\<lparr>ks_entries := sp, ks_finished := True\<rparr>"
  let ?s = "s\<lparr>ko_scopes := (ko_scopes s)(k \<mapsto> ?st)\<rparr>"
  have fin: "finished_scope (entry_record e) = None \<longleftrightarrow> finishes e = None" by (simp add: finishes_def)
  have "keep_order_render env R e s = (?s, Ok ())"
    using rec scope ht st sp keep_invD(1)[OF inv] fin
    by (auto simp: keep_order_render_def render_scoped_def push_entry_def io_bind_def Let_def update_scope_def)
  moreover have "keep_inv env (es @ [e]) (out @ []) ?s"
  proof (rule keep_invI[OF inv, where xs = "[]" and ys = "[]"])
    fix x assume x: "x \<in> set (tl (ko_order ?s))"
    have fk: "map_option fst (finishes e) \<noteq> Some x" if "x \<noteq> k"
      using ident_kinds(3)[of e] k that by (cases "finishes e") auto
    show "held env (es @ [e]) (ko_scopes ?s) x"
    proof (cases "x = k")
      case True
      have "finished_in (es @ [e]) k \<longleftrightarrow> finishes e \<noteq> None \<or> finished_in es k"
        using ident_kinds(3)[of e] k by (cases "finishes e") auto
      then show ?thesis using True st sp by (simp add: held_def)
    next
      case False
      then show ?thesis using x ht keep_invD(3)[OF inv, of x] held_snoc[of e x env es] k fk by (simp add: held_def)
    qed
  qed (use keep_invD[OF inv] spec_behind[OF ok k ht' ht(2)] ht D' k kt kD in auto)
  ultimately show ?thesis by simp
qed

lemma keep_step_front:
  assumes R: "infallible_renderer R" and env: "spool_reliable env (set (es @ [e]))" and inv: "keep_inv env es out s"
    and ok: "trace_from order_allowed [] es" "order_allowed es e" and k: "entry_ident e = Some h" and ht: "ko_order s = h # t"
  shows "\<exists>s' new. keep_order_render env R e s = (s', Ok ()) \<and> keep_inv env (es @ [e]) (out @ new) s' \<and>
    ko_renderer s' = drive R new (ko_renderer s)"
proof -
  obtain scope where scope: "keep_order_record_scope (entry_record e) = Some scope" "scope_key scope = h"
    using k by (auto simp: entry_ident_def)
  have rec: "declared_scope (entry_record e) = None" "\<not> is_progress (entry_record e)" "\<not> is_raw_output (entry_record e)"
    using ident_kinds(1,2)[of e] k ok(2)
    by (cases "declared_scope (entry_record e)"; auto simp: declares_def order_allowed_def)+
  have ht': "dropWhile (finished_in es) (declared_in es) = h # t" using keep_invD(2)[OF inv] ht by simp
  have dist: "distinct (h # t)" and D': "declared_in (es @ [e]) = declared_in es" and hD: "h \<in> set (declared_in es)"
    using spec_scoped[OF ok k] ht' ok(2) k by (auto simp: order_allowed_def)
  have tD: "set t \<subseteq> set (declared_in es)" using ht' set_dropWhileD[of _ "finished_in es" "declared_in es"] by auto
  have fin: "finished_scope (entry_record e) = None \<longleftrightarrow> finishes e = None" by (simp add: finishes_def)
  have other: "x \<noteq> h \<Longrightarrow> entry_ident e \<noteq> Some x \<and> map_option fst (finishes e) \<noteq> Some x" for x
    using ident_kinds(3)[of e] k by (cases "finishes e") auto
  have hold: "x \<in> set t \<Longrightarrow> held env (es @ [e]) (ko_scopes s) x" for x
    using keep_invD(3)[OF inv, of x] ht held_snoc[of e x env es] other[of x] dist by auto
  let ?r = "drive R [e] (ko_renderer s)"
  show ?thesis
  proof (cases "finishes e = None")
    case True
    let ?s = "s\<lparr>ko_renderer := ?r\<rparr>"
    have "keep_order_render env R e s = (?s, Ok ())"
      using rec scope ht True fin
      by (simp add: keep_order_render_def render_scoped_def io_bind_def Let_def infallible_renderer.inner_render[OF R])
    moreover have "keep_inv env (es @ [e]) (out @ [e]) ?s"
    proof (rule keep_invI[OF inv, where xs = "[e]" and ys = "[e]"])
      fix x assume "x \<in> set (tl (ko_order ?s))"
      then show "held env (es @ [e]) (ko_scopes ?s) x" using hold ht by simp
    qed (use keep_invD(1,2,4)[OF inv] spec_front(1,2)[OF ok k ht' True] ht D' k in \<open>auto simp: like_def\<close>)
    ultimately show ?thesis by (intro exI[of _ ?s] exI[of _ "[e]"]) simp
  next
    case False
    let ?m = "(ko_scopes s)(h := None)" and ?es = "es @ [e]"
    let ?next = "takeWhile (finished_in ?es) t @ take 1 (dropWhile (finished_in ?es) t)"
    have "\<forall>x\<in>set t. held env ?es ?m x" using hold dist by (auto simp: held_def)
    from advance_loop_ok[OF R env this, of ?r] dist obtain m' ys where
      adv: "advance_loop env R t ?m ?r = ((dropWhile (finished_in ?es) t, m', drive R ys ?r), Ok ())"
        "list_all2 like (concat (map (of_scope ?es) ?next)) ys"
        "\<forall>x\<in>set (tl (dropWhile (finished_in ?es) t)). m' x = ?m x" "\<forall>x. x \<notin> set t \<longrightarrow> m' x = ?m x"
      by auto
    let ?s = "s\<lparr>ko_order := dropWhile (finished_in ?es) t, ko_scopes := m', ko_renderer := drive R (e # ys) (ko_renderer s)\<rparr>"
    have upd: "(update_scope h f s'\<lparr>ko_order := a, ko_scopes := b, ko_renderer := c\<rparr>) = s'\<lparr>ko_order := a, ko_scopes := b, ko_renderer := c\<rparr>"
      for f and s' :: "'a KeepOrderRenderer" and a b c by (simp add: update_scope_def)
    have "keep_order_render env R e s = (?s, Ok ())"
      using rec scope ht fin adv(1) keep_invD(1)[OF inv] False
      by (auto simp: keep_order_render_def render_scoped_def io_bind_def Let_def infallible_renderer.inner_render[OF R]
          advance_def update_scope_def drive_def)
    moreover have "keep_inv env ?es (out @ e # ys) ?s"
    proof (rule keep_invI[OF inv, where xs = "e # concat (map (of_scope ?es) ?next)" and ys = "e # ys"])
      fix x assume "x \<in> set (tl (ko_order ?s))"
      then have x: "x \<in> set (tl (dropWhile (finished_in ?es) t))" "x \<in> set t"
        by (auto dest: list.set_sel(2)[rotated] set_dropWhileD) (metis list.set_sel(2) set_dropWhileD tl_Nil)
      then show "held env ?es (ko_scopes ?s) x" using adv(3) hold dist by (auto simp: held_def)
    next
      fix x assume "x \<notin> set (declared_in ?es)"
      then show "ko_scopes ?s x = None" using adv(4) keep_invD(4)[OF inv, of x] D' tD by auto
    next
      fix x assume "x \<in> set (e # concat (map (of_scope ?es) ?next))"
      moreover have "x \<in> set (of_scope ?es i) \<Longrightarrow> entry_ident x \<noteq> None" for i
        unfolding of_scope_def set_filter by simp
      ultimately show "entry_ident x \<noteq> None" using k by auto
    qed (use keep_invD(1)[OF inv] spec_front(3,4)[OF ok k ht' False] adv(2) k in \<open>auto simp: like_def\<close>)
    ultimately show ?thesis by (intro exI[of _ ?s] exI[of _ "e # ys"]) simp
  qed
qed

lemma keep_order_run:
  assumes R: "infallible_renderer R" and env: "spool_reliable env (set es)" and ok: "trace_from order_allowed [] es"
  shows "\<exists>s out. io_each (keep_order_render env R) es (keep_order_new r) = (s, Ok ()) \<and>
    keep_inv env es out s \<and> ko_renderer s = drive R out r"
  using env ok
proof (induction es rule: rev_induct)
  case Nil
  then show ?case
    by (simp add: keep_order_new_def keep_inv_def keep_order_spec_def visible_scopes_def declared_in_def map_filter_simps exI[of _ "[]"])
next
  case (snoc e es)
  have rel: "spool_reliable env (set es)" using snoc.prems(1) by (auto simp: spool_reliable_def)
  have al: "trace_from order_allowed [] es" "order_allowed es e" using snoc.prems(2) by (simp_all add: trace_from_snoc)
  obtain s out where s: "io_each (keep_order_render env R) es (keep_order_new r) = (s, Ok ())"
    "keep_inv env es out s" "ko_renderer s = drive R out r"
    using snoc.IH[OF rel al(1)] by blast
  have "\<exists>s' new. keep_order_render env R e s = (s', Ok ()) \<and> keep_inv env (es @ [e]) (out @ new) s' \<and>
    ko_renderer s' = drive R new (ko_renderer s)"
  proof (cases "entry_ident e")
    case None
    then show ?thesis using keep_step_plain[OF R s(2) al] by blast
  next
    case (Some k)
    obtain h t where ht: "ko_order s = h # t" using spec_scoped[OF al Some] keep_invD(2)[OF s(2)] by metis
    show ?thesis
    proof (cases "k = h")
      case True
      then show ?thesis using keep_step_front[OF R snoc.prems(1) s(2) al] Some ht by blast
    next
      case False
      then show ?thesis using keep_step_behind[OF snoc.prems(1) s(2) al Some ht False, of R]
        by (metis append_Nil2 drive_simps(1))
    qed
  qed
  then obtain s' new where "keep_order_render env R e s = (s', Ok ())" "keep_inv env (es @ [e]) (out @ new) s'"
    "ko_renderer s' = drive R new (ko_renderer s)" by blast
  then show ?case using s
    by (intro exI[of _ s'] exI[of _ "out @ new"]) (simp add: io_each_append io_bind_def)
qed

text \<open>
  C36.  Keeping the order keeps everything.  However the records of the tasks interleave, and whether the
  spool stays in memory or moves to disk, the renderer drives the wrapped one with the records of the
  tasks one task after the other in the order of declaration, up to and including the first task that
  has not finished; nothing is lost, doubled or reordered, and records of no task are handed on at once.
\<close>

theorem keep_order_faithful:
  assumes "\<And>e r. snd (r_render R e r) = Ok ()" "spool_reliable env (set es)" "trace_from order_allowed [] es"
  shows "\<exists>s out. io_each (keep_order_render env R) es (keep_order_new r) = (s, Ok ()) \<and>
    ko_renderer s = drive R out r \<and>
    list_all2 like (keep_order_spec es) (filter (\<lambda>e. entry_ident e \<noteq> None) out) \<and>
    filter (\<lambda>e. entry_ident e = None) out = filter (\<lambda>e. entry_ident e = None) es"
proof -
  have R: "infallible_renderer R" using assms(1) by unfold_locales
  from keep_order_run[OF R assms(2,3), of r] show ?thesis unfolding keep_inv_def by blast
qed

section \<open>Prefixes do not depend on chunks\<close>

text \<open>\<open>split_inclusive\<close> at newlines.\<close>

fun byte_lines :: "u8 list \<Rightarrow> u8 list list" where
  "byte_lines [] = []"
| "byte_lines (b # bs) =
     (if b = 10 then [b] # byte_lines bs
      else case byte_lines bs of [] \<Rightarrow> [[b]] | l # ls \<Rightarrow> (b # l) # ls)"

lemma prefixed_bytes_append:
  "prefixed_bytes st (xs @ ys) =
     (let (st1, o1) = prefixed_bytes st xs; (st2, o2) = prefixed_bytes st1 ys in (st2, o1 @ o2))"
proof (induction xs arbitrary: st)
  case (Cons b bs)
  show ?case
    by (simp add: Cons.IH[of "st\<lparr>at_line_start := (b = 10)\<rparr>"] split: prod.splits)
qed (simp split: prod.splits)

lemma byte_lines_start:
  "snd (prefixed_bytes \<lparr>marker = mk, at_line_start = start\<rparr> bs) =
     (case byte_lines bs of [] \<Rightarrow> [] | l # ls \<Rightarrow> (if start then mk else []) @ l @ concat (map ((@) mk) ls))"
proof (induction bs arbitrary: start)
  case (Cons b bs)
  show ?case
    using Cons.IH[of "b = 10"] by (cases "byte_lines bs") (auto split: prod.splits)
qed simp

lemma prefixed_bytes_lines:
  "snd (prefixed_bytes \<lparr>marker = mk, at_line_start = True\<rparr> bs) = concat (map ((@) mk) (byte_lines bs))"
  unfolding byte_lines_start by (cases "byte_lines bs") simp_all

text \<open>The bytes that a stream of one command carries in a record.\<close>

definition stream_bytes :: "line_key \<Rightarrow> string \<Rightarrow> ConsoleEntry \<Rightarrow> u8 list" where
  "stream_bytes key command e =
     (case entry_record e of
        ExecutionRecord (OutputEvent rid (Some scope) _ c stream (BytesPayload bs)) \<Rightarrow>
          if (rid, scope_id scope, stream) = key \<and> c = command then bs else []
      | _ \<Rightarrow> [])"

text \<open>The stream is bytes only, its scope has one prefix and has not ended.\<close>

definition streaming :: "line_key \<Rightarrow> string \<Rightarrow> string \<Rightarrow> ConsoleEntry \<Rightarrow> bool" where
  "streaming key command text e =
     (case entry_record e of
        ExecutionRecord (OutputEvent rid (Some scope) _ c stream payload) \<Rightarrow>
          (rid, scope_id scope, stream) = key \<and> c = command \<longrightarrow>
          (case payload of BytesPayload _ \<Rightarrow> bracketed scope = text | LinePayload _ \<Rightarrow> False | RawBytes _ \<Rightarrow> True)
      | ExecutionRecord (ScopeFinished rid scope _) \<Rightarrow> (rid, scope_id scope) \<noteq> (fst key, fst (snd key))
      | _ \<Rightarrow> True)"

definition stream_state :: "line_key \<Rightarrow> string \<Rightarrow> string \<Rightarrow> 'r PrefixedRenderer \<Rightarrow> PrefixState" where
  "stream_state key command text p =
     (case line_states p key command of
        Some st \<Rightarrow> st | None \<Rightarrow> \<lparr>marker = as_bytes text, at_line_start = True\<rparr>)"

lemma set_line_state:
  "stream_state key command text (set_line k c st p) =
     (if k = key \<and> c = command
      then (case st of Some x \<Rightarrow> x | None \<Rightarrow> \<lparr>marker = as_bytes text, at_line_start = True\<rparr>)
      else stream_state key command text p)"
  by (auto simp: stream_state_def set_line_def)

lemma prefixed_entry_stream:
  assumes "streaming key command text e" "prefixed_entry e p = (e', p')"
  shows "(stream_state key command text p', stream_bytes key command e') =
    prefixed_bytes (stream_state key command text p) (stream_bytes key command e)"
proof (cases "entry_record e")
  case (ExecutionRecord event)
  show ?thesis
  proof (cases event)
    case (OutputEvent rid scope stp c stream payload)
    show ?thesis
    proof (cases scope)
      case None
      then show ?thesis using assms ExecutionRecord OutputEvent
        by (auto simp: prefixed_entry_def stream_bytes_def)
    next
      case (Some s)
      show ?thesis
      proof (cases payload)
        case (LinePayload l)
        have "reset_line rid (scope_id s) stream c p = p \<or>
          (\<exists>st. reset_line rid (scope_id s) stream c p = set_line (rid, scope_id s, stream) c st p)"
          by (auto simp: reset_line_def split: option.splits)
        then show ?thesis using assms ExecutionRecord OutputEvent Some LinePayload
          by (auto simp: prefixed_entry_def stream_bytes_def streaming_def set_line_state)
      next
        case (BytesPayload bs)
        then show ?thesis using assms ExecutionRecord OutputEvent Some
          by (auto simp: prefixed_entry_def stream_bytes_def streaming_def set_line_state
              line_state_def stream_state_def[of _ _ _ p] split: prod.splits option.splits)
      next
        case (RawBytes bs)
        then show ?thesis using assms ExecutionRecord OutputEvent Some
          by (auto simp: prefixed_entry_def stream_bytes_def)
      qed
    qed
  next
    case (ScopeFinished rid scope st)
    then show ?thesis using assms ExecutionRecord
      by (cases key) (auto simp: prefixed_entry_def stream_bytes_def streaming_def stream_state_def)
  qed (use assms ExecutionRecord in \<open>auto simp: prefixed_entry_def stream_bytes_def\<close>)
qed (use assms in \<open>auto simp: prefixed_entry_def stream_bytes_def\<close>)

lemma prefixed_stream_run:
  assumes "infallible_renderer R" "\<And>e. e \<in> set es \<Longrightarrow> streaming key command text e"
  shows "\<exists>out. pr_renderer (drive (prefixed R) es p) = drive R out (pr_renderer p) \<and> length out = length es \<and>
    (stream_state key command text (drive (prefixed R) es p), concat (map (stream_bytes key command) out)) =
      prefixed_bytes (stream_state key command text p) (concat (map (stream_bytes key command) es))"
  using assms(2)
proof (induction es arbitrary: p)
  case Nil
  show ?case by (intro exI[of _ "[]"]) simp
next
  case (Cons e es)
  obtain e' p' where e': "prefixed_entry e p = (e', p')" by (metis surj_pair)
  let ?p = "p'\<lparr>pr_renderer := drive R [e'] (pr_renderer p')\<rparr>"
  have keep: "pr_renderer p' = pr_renderer p"
    using e' by (auto simp: prefixed_entry_def reset_line_def set_line_def
        split: ConsoleRecord.splits ExecutionEvent.splits option.splits ConsolePayload.splits prod.splits)
  have step: "drive (prefixed R) (e # es) p = drive (prefixed R) es ?p"
    by (simp add: drive_def prefixed_def forwarding_def prefixed_render_def e' inner_call_def
        split: prod.splits)
  have st: "(stream_state key command text ?p, stream_bytes key command e') =
    prefixed_bytes (stream_state key command text p) (stream_bytes key command e)"
    using prefixed_entry_stream[OF _ e'] Cons.prems[of e] by (simp add: stream_state_def)
  obtain out where out: "pr_renderer (drive (prefixed R) es ?p) = drive R out (pr_renderer ?p)" "length out = length es"
    "(stream_state key command text (drive (prefixed R) es ?p), concat (map (stream_bytes key command) out)) =
      prefixed_bytes (stream_state key command text ?p) (concat (map (stream_bytes key command) es))"
    using Cons.IH[of ?p] Cons.prems by auto
  show ?case
    using out st keep unfolding step
    by (intro exI[of _ "e' # out"]) (auto simp: drive_def prefixed_bytes_append split: prod.splits)
qed

text \<open>
  C38.  Prefixes do not depend on how a stream is cut into chunks.  Whatever else is rendered in between,
  the bytes that reach the wrapped renderer for one stream of one command are the lines of its bytes
  with the prefix of the task before each.
\<close>

theorem prefixed_stream:
  assumes "\<And>e r. snd (r_render R e r) = Ok ()" "\<And>e. e \<in> set es \<Longrightarrow> streaming key command text e"
  shows "\<exists>out. pr_renderer (drive (prefixed R) es (prefixed_new r)) = drive R out r \<and> length out = length es \<and>
    concat (map (stream_bytes key command) out) =
      concat (map ((@) (as_bytes text)) (byte_lines (concat (map (stream_bytes key command) es))))"
proof -
  have R: "infallible_renderer R" using assms(1) by unfold_locales
  have "stream_state key command text (prefixed_new r) = \<lparr>marker = as_bytes text, at_line_start = True\<rparr>"
    "pr_renderer (prefixed_new r) = r"
    by (simp_all add: prefixed_new_def stream_state_def)
  then show ?thesis
    using prefixed_stream_run[OF R assms(2), of es "prefixed_new r"]
      prefixed_bytes_lines[of "as_bytes text" "concat (map (stream_bytes key command) es)"]
    by (metis snd_conv)
qed

section \<open>The standard output\<close>

text \<open>What one record adds to the standard output of the terminal.\<close>

definition stdout_of :: "TermEnv \<Rightarrow> bool \<Rightarrow> ConsoleEntry \<Rightarrow> u8 list" where
  "stdout_of env st e = term_stdout (fst (terminal_render env e \<lparr>styled = st, term_stdout = [], term_stderr = []\<rparr>))"

lemma open_terminal_each:
  assumes "\<And>x t. styled (fst (f x t)) = styled t \<and> snd (f x t) = Ok () \<and> term_stdout (fst (f x t)) = term_stdout t @ g (styled t) x"
  shows "styled (fst (io_each f xs t)) = styled t \<and> term_stdout (fst (io_each f xs t)) = term_stdout t @ concat (map (g (styled t)) xs)"
proof (induction xs arbitrary: t)
  case (Cons x xs)
  show ?case using assms[of x t] Cons.IH[of "fst (f x t)"] by (cases "f x t") (simp add: io_bind_def)
qed simp

lemma terminal_stdout:
  fixes line dur
  defines "env \<equiv> open_terminal line dur"
  shows "styled (fst (terminal_render env e t)) = styled t"
    "term_stdout (fst (terminal_render env e t)) = term_stdout t @ stdout_of env (styled t) e"
proof -
  note w = open_terminal_writes[of line dur, folded env_def]
  define lg where "lg time level = (\<lambda>st m. as_bytes (format_log_line env time st level m))" for time level
  have log: "write_log env time level m t = (t\<lparr>term_stdout := term_stdout t @ lg time level (styled t) m\<rparr>, Ok ())" for time level m t
    by (simp add: write_log_def w lg_def)
  have "\<exists>f. \<forall>t. styled (fst (terminal_render env e t)) = styled t \<and>
    term_stdout (fst (terminal_render env e t)) = term_stdout t @ f (styled t)"
  proof (cases "entry_record e")
    case (ExecutionRecord event)
    have pay: "\<exists>bs. \<forall>t. write_payload (write_stdout env) p t = (t\<lparr>term_stdout := term_stdout t @ bs\<rparr>, Ok ())"
      "\<exists>bs. \<forall>t. write_payload (write_stderr env) p t = (t\<lparr>term_stderr := term_stderr t @ bs\<rparr>, Ok ())" for p
      by (cases p; force simp: io_bind_def w)+
    have "\<exists>f. \<forall>t. styled (fst (render_execution_event env time event t)) = styled t \<and>
      term_stdout (fst (render_execution_event env time event t)) = term_stdout t @ f (styled t)" for time
    proof (cases "(env, time, event)" rule: render_execution_event.cases)
      case (3 a b c d f g i)
      then show ?thesis using pay(1)[of i] by auto
    next
      case (4 a b c d f g i)
      then show ?thesis using pay(2)[of i] by auto
    qed (auto simp: log intro: exI[of _ "\<lambda>_. []"])
    then show ?thesis using ExecutionRecord by (simp add: terminal_render_def)
  next
    case (DiagnosticRecord d)
    then show ?thesis by (auto simp: terminal_render_def log)
  next
    case (DocumentRecord d)
    have each: "\<exists>f. \<forall>t. styled (fst (io_each (write_log env time level) xs t)) = styled t \<and>
      term_stdout (fst (io_each (write_log env time level) xs t)) = term_stdout t @ f (styled t)" for time level xs
      using open_terminal_each[of "write_log env time level" "lg time level" xs] by (auto simp: log)
    have tasks: "\<exists>f. \<forall>t. styled (fst (io_each (\<lambda>x. write_stdout env (h x)) xs t)) = styled t \<and>
      term_stdout (fst (io_each (\<lambda>x. write_stdout env (h x)) xs t)) = term_stdout t @ f (styled t)" for h :: "'a \<Rightarrow> u8 list" and xs
      using open_terminal_each[of "\<lambda>x. write_stdout env (h x)" "\<lambda>_. h" xs] by (auto simp: w)
    show ?thesis
    proof (cases d)
      case (TaskListDocument ts)
      then show ?thesis
        using tasks[of "\<lambda>(name, description). as_bytes ((case description of None \<Rightarrow> name | Some d \<Rightarrow> name @ '': '' @ d) @ ''\<newline>'')" ts] DocumentRecord
        by (simp add: terminal_render_def case_prod_beta')
    next
      case (SummaryDocument ts n)
      then show ?thesis using each DocumentRecord unfolding terminal_render_def by (simp del: io_each.simps)
    qed (use DocumentRecord in \<open>auto simp: terminal_render_def w\<close>)
  qed
  then obtain f where f: "\<And>t. styled (fst (terminal_render env e t)) = styled t \<and>
    term_stdout (fst (terminal_render env e t)) = term_stdout t @ f (styled t)" by blast
  then have "stdout_of env st e = f st" for st by (simp add: stdout_of_def)
  then show "styled (fst (terminal_render env e t)) = styled t"
    "term_stdout (fst (terminal_render env e t)) = term_stdout t @ stdout_of env (styled t) e" using f by auto
qed

lemma terminal_r_render [simp]: "r_render (terminal_renderer env) = terminal_render env"
  by (simp add: terminal_renderer_def default_renderer_def)

text \<open>Two states of the prefixing terminal that print alike.\<close>

definition alike :: "TerminalRenderer PrefixedRenderer \<Rightarrow> TerminalRenderer PrefixedRenderer \<Rightarrow> bool" where
  "alike p q \<longleftrightarrow>
     line_states p = line_states q \<and> styled (pr_renderer p) = styled (pr_renderer q) \<and>
     term_stdout (pr_renderer p) = term_stdout (pr_renderer q)"

lemma detached_kinds:
  "bracketed (detach_scope s) = bracketed s" "scope_id (detach_scope s) = scope_id s"
  by (simp_all add: bracketed_def prefix_of_def detach_scope_def split: option.splits)

lemma stdout_of_detached: "stdout_of env st (detached e) = stdout_of env st e"
proof (cases "entry_record e")
  case (ExecutionRecord event)
  have "render_execution_event env time (detach_event event) = render_execution_event env time event" for time
  proof (cases event)
    case (OutputEvent rid scope stp c stream payload)
    then show ?thesis by (cases stream) simp_all
  qed simp_all
  then show ?thesis using ExecutionRecord by (simp add: stdout_of_def terminal_render_def detached_def)
qed (simp_all add: stdout_of_def terminal_render_def detached_def)

lemma prefixed_entry_detached:
  assumes "line_states p = line_states q" "prefixed_entry e p = (e', p')" "prefixed_entry (detached e) q = (e'', q')"
  shows "e'' = detached e'" "line_states p' = line_states q'"
proof -
  have line: "line_state rid (detach_scope s) k c q = line_state rid s k c p" for rid s k c
    unfolding line_state_def detached_kinds assms(1) ..
  show "e'' = detached e'" "line_states p' = line_states q'"
    using assms
    by (auto simp: prefixed_entry_def detached_def with_record_def detached_kinds line reset_line_def set_line_def
        split: ConsoleRecord.splits ExecutionEvent.splits option.splits ConsolePayload.splits prod.splits)
qed

lemma prefixed_entry_alike:
  assumes "line_states p = line_states q" "prefixed_entry e p = (e', p')" "prefixed_entry e q = (e'', q')"
  shows "e'' = e'" "line_states p' = line_states q'"
  using assms
  by (auto simp: prefixed_entry_def reset_line_def set_line_def line_state_def
      split: ConsoleRecord.splits ExecutionEvent.splits option.splits ConsolePayload.splits prod.splits)

lemma prefixed_drive:
  assumes "prefixed_entry e p = (e', p')"
  shows "drive (prefixed R) [e] p = p'\<lparr>pr_renderer := fst (r_render R e' (pr_renderer p'))\<rparr>"
  using assms by (simp add: drive_def prefixed_def forwarding_def prefixed_render_def inner_call_def split: prod.splits)

lemma prefixed_entry_renderer: "prefixed_entry e p = (e', p') \<Longrightarrow> pr_renderer p' = pr_renderer p"
  by (auto simp: prefixed_entry_def reset_line_def set_line_def
      split: ConsoleRecord.splits ExecutionEvent.splits option.splits ConsolePayload.splits prod.splits)

lemma alike_like:
  assumes "alike p q" "like e e'"
  shows "alike (drive (prefixed (terminal_renderer (open_terminal line dur))) [e'] p)
    (drive (prefixed (terminal_renderer (open_terminal line dur))) [e] q)"
proof -
  obtain x p' where x: "prefixed_entry e' p = (x, p')" by (metis surj_pair)
  obtain y q' where y: "prefixed_entry e q = (y, q')" by (metis surj_pair)
  have ls: "line_states p = line_states q" "line_states q = line_states p" using assms(1) by (simp_all add: alike_def)
  have "(x = y \<or> x = detached y) \<and> line_states p' = line_states q'"
    using assms(2) prefixed_entry_alike[OF ls(2) y, of x p'] prefixed_entry_detached[OF ls(2) y, of x p'] x
    by (auto simp: like_def)
  moreover have "pr_renderer p' = pr_renderer p" "pr_renderer q' = pr_renderer q"
    using prefixed_entry_renderer x y by blast+
  ultimately show ?thesis
    using assms(1) stdout_of_detached[of "open_terminal line dur" _ y]
    by (auto simp: alike_def prefixed_drive[OF x] prefixed_drive[OF y] terminal_stdout)
qed

lemma alike_silent:
  assumes "alike p q" "entry_ident e = None" "stdout_of (open_terminal line dur) (styled (pr_renderer q)) e = []"
  shows "alike (drive (prefixed (terminal_renderer (open_terminal line dur))) [e] p) q"
proof -
  have e: "prefixed_entry e p = (e, p)"
    using assms(2) by (auto simp: prefixed_entry_def entry_ident_def
        split: ConsoleRecord.splits ExecutionEvent.splits option.splits)
  show ?thesis using assms(1,3)
    by (auto simp: alike_def prefixed_drive[OF e] terminal_stdout)
qed

lemma alike_styled: "alike p q \<Longrightarrow> styled (pr_renderer p) = styled (pr_renderer q)"
  by (simp add: alike_def)

lemma drive_styled:
  "styled (pr_renderer (drive (prefixed (terminal_renderer (open_terminal line dur))) es p)) = styled (pr_renderer p)"
proof (induction es rule: rev_induct)
  case (snoc e es)
  let ?p = "drive (prefixed (terminal_renderer (open_terminal line dur))) es p"
  obtain x p' where x: "prefixed_entry e ?p = (x, p')" by (metis surj_pair)
  show ?case using snoc prefixed_entry_renderer[OF x]
    by (simp add: prefixed_drive[OF x] terminal_stdout)
qed simp

lemma alike_run:
  assumes "alike p q" "list_all2 like xs (filter (\<lambda>e. entry_ident e \<noteq> None) out)"
    and "\<And>e. e \<in> set out \<Longrightarrow> entry_ident e = None \<Longrightarrow> stdout_of (open_terminal line dur) (styled (pr_renderer q)) e = []"
  shows "alike (drive (prefixed (terminal_renderer (open_terminal line dur))) out p)
    (drive (prefixed (terminal_renderer (open_terminal line dur))) xs q)"
  using assms
proof (induction out arbitrary: xs p q)
  case Nil
  then show ?case by simp
next
  case (Cons e out)
  let ?P = "prefixed (terminal_renderer (open_terminal line dur))"
  show ?case
  proof (cases "entry_ident e")
    case None
    then have "alike (drive ?P [e] p) q" using alike_silent[OF Cons.prems(1) None] Cons.prems(3)[of e] by simp
    then show ?thesis unfolding drive_Cons[of _ e out] using Cons.IH[of "drive ?P [e] p" q xs] Cons.prems None by auto
  next
    case (Some k)
    then obtain x ys where xs: "xs = x # ys" "like x e" "list_all2 like ys (filter (\<lambda>e. entry_ident e \<noteq> None) out)"
      using Cons.prems(2) by (auto simp: list_all2_Cons2)
    have al: "alike (drive ?P [e] p) (drive ?P [x] q)" by (rule alike_like[OF Cons.prems(1) xs(2)])
    have st: "styled (pr_renderer (drive ?P [x] q)) = styled (pr_renderer q)" by (rule drive_styled)
    show ?thesis unfolding xs(1) drive_Cons[of _ e out] drive_Cons[of _ x ys]
      by (rule Cons.IH[OF al xs(3)]) (use Cons.prems(3) st in auto)
  qed
qed

text \<open>
  C35.  Tasks that run at the same time print as if they had run one after the other.  In the mode that
  keeps the order (the order renderer over the prefixing one over the terminal) the standard output is
  what the prefixing terminal prints for the records of the tasks in the order of declaration, provided
  that records of no task do not print.
\<close>

theorem stdout_as_if_sequential:
  assumes "spool_reliable env (set es)" "trace_from order_allowed [] es"
    and "\<And>e. e \<in> set es \<Longrightarrow> entry_ident e = None \<Longrightarrow> stdout_of (open_terminal line dur) (styled t) e = []"
  shows "\<exists>s. io_each (keep_order_render env (prefixed (terminal_renderer (open_terminal line dur)))) es
        (keep_order_new (prefixed_new t)) = (s, Ok ()) \<and>
    term_stdout (pr_renderer (ko_renderer s)) =
      term_stdout (pr_renderer (drive (prefixed (terminal_renderer (open_terminal line dur))) (keep_order_spec es) (prefixed_new t)))"
proof -
  let ?P = "prefixed (terminal_renderer (open_terminal line dur))"
  obtain s out where s: "io_each (keep_order_render env ?P) es (keep_order_new (prefixed_new t)) = (s, Ok ())"
    "keep_inv env es out s" "ko_renderer s = drive ?P out (prefixed_new t)"
    using keep_order_run[OF prefixed_terminal.infallible_renderer_axioms assms(1,2), of line dur "prefixed_new t"] by blast
  have "e \<in> set es" if "e \<in> set out" "entry_ident e = None" for e
  proof -
    have "e \<in> set (filter (\<lambda>e. entry_ident e = None) out)" using that by simp
    then show ?thesis unfolding keep_invD(6)[OF s(2)] by simp
  qed
  then have "alike (drive ?P out (prefixed_new t)) (drive ?P (keep_order_spec es) (prefixed_new t))"
    using assms(3) keep_invD(5)[OF s(2)] by (intro alike_run) (auto simp: alike_def prefixed_new_def)
  then show ?thesis using s by (auto simp: alike_def)
qed

section \<open>A sample trace\<close>

definition scope_at :: "u64 \<Rightarrow> string \<Rightarrow> ConsoleScope" where
  "scope_at n name =
     \<lparr>allocator_id = 1, scope_id = n, parent_task_id = None, scope_label = name, scope_prefix = None,
      render_mode = None, hide_stdout = False, hide_stderr = False\<rparr>"

definition entry_at :: "u64 \<Rightarrow> ExecutionEvent \<Rightarrow> ConsoleEntry" where
  "entry_at n event = \<lparr>schema_version = 4, entry_sequence = n, entry_timestamp = 0, entry_record = ExecutionRecord event\<rparr>"

definition line_at :: "u64 \<Rightarrow> ConsoleScope \<Rightarrow> string \<Rightarrow> ConsoleEntry" where
  "line_at n scope l = entry_at n (OutputEvent 7 (Some scope) None ''c'' Stdout (LinePayload l))"

text \<open>Two tasks that run at the same time; the second prints first.\<close>

definition two_tasks :: "ConsoleEntry list" where
  "two_tasks =
     [entry_at 1 (ScopeDeclared 7 (scope_at 0 ''a'')), entry_at 2 (ScopeDeclared 7 (scope_at 1 ''b'')),
      line_at 3 (scope_at 1 ''b'') ''y'', line_at 4 (scope_at 0 ''a'') ''x'',
      entry_at 5 (ScopeFinished 7 (scope_at 1 ''b'') Success), entry_at 6 (ScopeFinished 7 (scope_at 0 ''a'') Success)]"

text \<open>Every entry is too large for the memory of the spool; its JSON form is its number.\<close>

definition sample_disk :: SpoolEnv where
  "sample_disk =
     \<lparr>new_temp = None, append = (\<lambda>f t. (f @ t, Ok ())), rewind = Ok,
      to_json = (\<lambda>e. Ok (replicate (unat (entry_sequence e)) CHR ''i'')),
      from_json = (\<lambda>j. case find (\<lambda>e. unat (entry_sequence e) = length j) two_tasks of
        Some e \<Rightarrow> Ok (detached e) | None \<Rightarrow> Err ''no entry''),
      entry_size = 2 * 1024 * 1024\<rparr>"

lemmas trace_simps =
  two_tasks_def entry_at_def line_at_def scope_at_def order_allowed_def group_allowed_def declares_def entry_ident_def
  group_ident_def finishes_def finished_in_def declared_in_def scope_key_def map_filter_simps

lemma sample_reliable: "spool_reliable sample_disk (set two_tasks)"
  unfolding spool_reliable_def by (simp add: sample_disk_def two_tasks_def entry_at_def line_at_def)

lemma two_tasks_allowed: "trace_from order_allowed [] two_tasks" "trace_from group_allowed [] two_tasks"
  by (simp_all add: trace_simps)

theorem grouped_blocks_witness:
  "\<exists>b out. io_each (buffered_render sample_disk (\<lambda>_ _. Err ''no template'') null_renderer) two_tasks (buffered_new () Always) = (b, Ok ()) \<and>
    bf_renderer b = drive null_renderer out () \<and>
    list_all2 like (concat (group_blocks Always two_tasks)) (filter (\<lambda>e. group_ident e \<noteq> None) out) \<and>
    filter (\<lambda>e. group_ident e = None) out = filter (\<lambda>e. group_ident e = None) two_tasks"
  by (rule grouped_blocks[OF null.render_ok sample_reliable two_tasks_allowed(2)])

theorem keep_order_faithful_witness:
  "\<exists>s out. io_each (keep_order_render sample_disk null_renderer) two_tasks (keep_order_new ()) = (s, Ok ()) \<and>
    ko_renderer s = drive null_renderer out () \<and>
    list_all2 like (keep_order_spec two_tasks) (filter (\<lambda>e. entry_ident e \<noteq> None) out) \<and>
    filter (\<lambda>e. entry_ident e = None) out = filter (\<lambda>e. entry_ident e = None) two_tasks"
  by (rule keep_order_faithful[OF null.render_ok sample_reliable two_tasks_allowed(1)])

definition chunk_at :: "u64 \<Rightarrow> u8 list \<Rightarrow> ConsoleEntry" where
  "chunk_at n bs = entry_at n (OutputEvent 7 (Some (scope_at 0 ''a'')) None ''c'' Stdout (BytesPayload bs))"

theorem prefixed_stream_witness:
  "\<exists>out. pr_renderer (drive (prefixed null_renderer) [chunk_at 1 [65, 66], chunk_at 2 [67, 10, 68]] (prefixed_new ())) =
      drive null_renderer out () \<and> length out = 2 \<and>
    concat (map (stream_bytes (7, 0, Stdout) ''c'') out) =
      concat (map ((@) (as_bytes ''[a] '')) [[65, 66, 67, 10], [68]])"
proof -
  have streams: "streaming (7, 0, Stdout) ''c'' ''[a] '' e" if "e \<in> set [chunk_at 1 [65, 66], chunk_at 2 [67, 10, 68]]" for e
    using that by (auto simp: chunk_at_def entry_at_def scope_at_def streaming_def bracketed_def prefix_of_def)
  have two: "Suc (Suc 0) = 2" by simp
  show ?thesis
    using prefixed_stream[OF null.render_ok streams, of "[chunk_at 1 [65, 66], chunk_at 2 [67, 10, 68]]" "()"]
    by (simp add: chunk_at_def entry_at_def scope_at_def stream_bytes_def two)
qed

theorem stdout_as_if_sequential_witness:
  "\<exists>s. io_each (keep_order_render sample_disk (prefixed (terminal_renderer (open_terminal (\<lambda>_ _ m. m) (\<lambda>_. []))))) two_tasks
      (keep_order_new (prefixed_new \<lparr>styled = False, term_stdout = [], term_stderr = []\<rparr>)) = (s, Ok ()) \<and>
    term_stdout (pr_renderer (ko_renderer s)) = as_bytes ''[a] x\<newline>[b] y\<newline>''"
proof -
  let ?t = "\<lparr>styled = False, term_stdout = [], term_stderr = []\<rparr>"
  let ?T = "open_terminal (\<lambda>_ _ m. m) (\<lambda>_. [])"
  have quiet: "stdout_of ?T (styled ?t) e = []" if "e \<in> set two_tasks" "entry_ident e = None" for e
    using that by (auto simp: trace_simps stdout_of_def terminal_render_def)
  have "term_stdout (pr_renderer (drive (prefixed (terminal_renderer ?T)) (keep_order_spec two_tasks) (prefixed_new ?t))) =
    as_bytes ''[a] x\<newline>[b] y\<newline>''"
    by (simp add: keep_order_spec_def visible_scopes_def of_scope_def trace_simps drive_def prefixed_def forwarding_def
        prefixed_render_def prefixed_entry_def inner_call_def terminal_render_def io_bind_def open_terminal_writes
        prefixed_new_def reset_line_def bracketed_def prefix_of_def as_bytes_def byte_of_char_def)
  then show ?thesis
    using stdout_as_if_sequential[OF sample_reliable two_tasks_allowed(1) quiet] by simp
qed

section \<open>A transient render error\<close>

text \<open>A renderer that shows the numbers of its entries and fails on the first time it sees one of them.\<close>

definition flaky_render :: "ConsoleEntry \<Rightarrow> (u64 list \<times> u64 list, unit) io" where
  "flaky_render e = (\<lambda>(shown, refused).
     if entry_sequence e \<in> set refused then ((shown, filter (\<lambda>n. n \<noteq> entry_sequence e) refused), Err ''interrupted'')
     else ((shown @ [entry_sequence e], refused), Ok ()))"

definition three_tasks :: "ConsoleEntry list" where
  "three_tasks =
     [entry_at 1 (ScopeDeclared 7 (scope_at 0 ''a'')), entry_at 2 (ScopeDeclared 7 (scope_at 1 ''b'')),
      entry_at 3 (ScopeDeclared 7 (scope_at 2 ''c'')), line_at 4 (scope_at 2 ''c'') ''z'',
      entry_at 5 (ScopeFinished 7 (scope_at 1 ''b'') Success), entry_at 6 (ScopeFinished 7 (scope_at 0 ''a'') Success),
      entry_at 7 (ScopeFinished 7 (scope_at 2 ''c'') Success)]"

definition small_disk :: SpoolEnv where
  "small_disk = sample_disk\<lparr>entry_size := 100\<rparr>"

definition keep_order_after :: "nat \<Rightarrow> u64 list \<Rightarrow> (u64 list \<times> u64 list) KeepOrderRenderer" where
  "keep_order_after n refused =
     drive (keep_order_renderer small_disk (default_renderer flaky_render)) (take n three_tasks) (keep_order_new ([], refused))"

lemma small_estimate: "estimated_memory small_disk (entry_at i event) = 100 + event_memory event"
  by (simp add: small_disk_def sample_disk_def estimated_memory_def entry_at_def)

lemmas flaky_simps =
  keep_order_renderer_def forwarding_def keep_order_render_def default_renderer_def flaky_render_def update_scope_def
  render_scoped_def keep_scope_default_def spool_default_def inner_call_def scope_at_def scope_key_def io_bind_def Let_def

lemma entry_at_simps [simp]: "entry_record (entry_at n event) = ExecutionRecord event" "entry_sequence (entry_at n event) = n"
  by (simp_all add: entry_at_def)

lemma flaky_declared:
  assumes "set refused \<subseteq> {5}"
  shows "keep_order_after 3 refused =
    \<lparr>ko_renderer = ([1, 2, 3], refused), ko_order = [(1, 0), (1, 1), (1, 2)],
     ko_scopes = Map.empty((1, 0) \<mapsto> keep_scope_default, (1, 1) \<mapsto> keep_scope_default, (1, 2) \<mapsto> keep_scope_default), ko_raw = {}\<rparr>"
proof -
  have "1 \<notin> set refused" "2 \<notin> set refused" "3 \<notin> set refused" using assms by auto
  then show ?thesis
    by (simp add: keep_order_after_def three_tasks_def drive_def keep_order_new_def flaky_simps)
qed

lemma keep_order_after_step:
  "n < length three_tasks \<Longrightarrow> keep_order_after (Suc n) refused =
    fst (keep_order_render small_disk (default_renderer flaky_render) (three_tasks ! n) (keep_order_after n refused))"
  by (simp add: keep_order_after_def take_Suc_conv_app_nth drive_def keep_order_renderer_def forwarding_def)

lemma flaky_line:
  assumes "set refused \<subseteq> {5}"
  shows "keep_order_after 4 refused =
    \<lparr>ko_renderer = ([1, 2, 3], refused), ko_order = [(1, 0), (1, 1), (1, 2)],
     ko_scopes = Map.empty((1, 0) \<mapsto> keep_scope_default, (1, 1) \<mapsto> keep_scope_default,
       (1, 2) \<mapsto> \<lparr>ks_entries = Memory [line_at 4 (scope_at 2 ''c'') ''z''] 103, ks_finished = False\<rparr>), ko_raw = {}\<rparr>"
  by (simp add: keep_order_after_step[of 3, simplified] flaky_declared[OF assms] three_tasks_def line_at_def flaky_simps
      push_entry_def small_estimate MEMORY_LIMIT_def label_length_def)

lemma flaky_finished:
  assumes "set refused \<subseteq> {5}"
  shows "keep_order_after 5 refused =
    \<lparr>ko_renderer = ([1, 2, 3], refused), ko_order = [(1, 0), (1, 1), (1, 2)],
     ko_scopes = Map.empty((1, 0) \<mapsto> keep_scope_default,
       (1, 1) \<mapsto> \<lparr>ks_entries = Memory [entry_at 5 (ScopeFinished 7 (scope_at 1 ''b'') Success)] 101, ks_finished = True\<rparr>,
       (1, 2) \<mapsto> \<lparr>ks_entries = Memory [line_at 4 (scope_at 2 ''c'') ''z''] 103, ks_finished = False\<rparr>), ko_raw = {}\<rparr>"
  by (simp add: keep_order_after_step[of 4, simplified] flaky_line[OF assms] three_tasks_def flaky_simps
      push_entry_def small_estimate MEMORY_LIMIT_def fun_upd_twist)

lemma flaky_recovered:
  "keep_order_after 6 [] =
    \<lparr>ko_renderer = ([1, 2, 3, 6, 5, 4], []), ko_order = [(1, 2)], ko_scopes = Map.empty((1, 2) \<mapsto> keep_scope_default), ko_raw = {}\<rparr>"
  by (simp add: keep_order_after_step[of 5, simplified] flaky_finished three_tasks_def line_at_def flaky_simps advance_def
      render_results_def fun_upd_twist)

lemma flaky_stuck:
  "keep_order_after 6 [5] =
    \<lparr>ko_renderer = ([1, 2, 3, 6], []), ko_order = [(1, 1), (1, 2)],
     ko_scopes = Map.empty((1, 2) \<mapsto> \<lparr>ks_entries = Memory [line_at 4 (scope_at 2 ''c'') ''z''] 103, ks_finished = False\<rparr>), ko_raw = {}\<rparr>"
  by (simp add: keep_order_after_step[of 5, simplified] flaky_finished three_tasks_def line_at_def flaky_simps advance_def
      render_results_def fun_upd_twist)


end
