(* ===== verification/Cache_Disk.thy ===== *)
theory Cache_Disk
  imports Cache_Result "HOL-Library.AList"
begin

text \<open>
  The directory of the local cache as the store sees it.  Paths are lists of components below the versioned
  layout directory; all calls of the store inspect a path without following links, so a link is a node like any
  other.  Every system call can fail, and the process can die during any call; the helpers of
  \<^verbatim>\<open>octa-cache/src/local/object.rs\<close>, \<^verbatim>\<open>platform.rs\<close> and the directory checks of \<^verbatim>\<open>local/mod.rs\<close> are built on them.
\<close>

section \<open>State and system calls\<close>

text \<open>A regular file with its content and time of modification, a directory, or a link (or reparse point).\<close>

datatype LNode = LFile "u8 list" nat | LDir | LOther


type_synonym lpath = "string list"

text \<open>Failures a host can report for any call, apart from those that say something about the tree.\<close>

datatype fault = Denied | Blocked | Broken

fun fault_kind :: "fault \<Rightarrow> io_kind" where
  "fault_kind Denied = PermissionDenied" | "fault_kind Blocked = WouldBlock" | "fault_kind Broken = OtherIo"

text \<open>
  \<open>faults\<close> is the outcome of the coming system calls (an empty list means that they work), \<open>lifetime\<close> the number
  of calls until the process dies, and \<open>torn_bytes\<close> how much of a failing write reaches the disk.  The last two fields
  are the length and the time the host reports for a node that is not a regular file.
\<close>

record Disk =
  tree :: "(lpath \<times> LNode) list"
  now :: nat
  faults :: "fault option list"
  lifetime :: "nat option"
  torn_bytes :: nat
  next_uuid :: nat
  odd_len :: "lpath \<Rightarrow> nat"
  odd_time :: "lpath \<Rightarrow> nat"

type_synonym 'a disk_io = "(Disk, io_kind, 'a) eff"
type_synonym 'a cache_io = "(Disk, CacheError, 'a) eff"

definition node :: "Disk \<Rightarrow> lpath \<Rightarrow> LNode option" where
  "node d = map_of (tree d)"

definition set_node :: "lpath \<Rightarrow> LNode \<Rightarrow> Disk \<Rightarrow> Disk" where
  "set_node p n d = d\<lparr>tree := AList.update p n (tree d)\<rparr>"

definition unset_node :: "lpath \<Rightarrow> Disk \<Rightarrow> Disk" where
  "unset_node p d = d\<lparr>tree := AList.delete p (tree d)\<rparr>"

text \<open>
  One system call.  A failing call, and the call during which the process dies, has only its partial effect; a
  dead process changes nothing any more.
\<close>

definition attempt :: "(Disk \<Rightarrow> Disk) \<Rightarrow> 'a disk_io \<Rightarrow> 'a disk_io" where
  "attempt partial f d =
     (case faults d of
        Some k # fs \<Rightarrow> (partial (d\<lparr>faults := fs\<rparr>), Err (fault_kind k))
      | None # fs \<Rightarrow> f (d\<lparr>faults := fs\<rparr>)
      | [] \<Rightarrow> f d)"

definition call :: "(Disk \<Rightarrow> Disk) \<Rightarrow> 'a disk_io \<Rightarrow> 'a disk_io" where
  "call partial f d =
     (case lifetime d of
        None \<Rightarrow> attempt partial f d
      | Some 0 \<Rightarrow> (d, Err OtherIo)
      | Some (Suc n) \<Rightarrow>
          if n = 0 then (partial (d\<lparr>lifetime := Some 0\<rparr>), Err OtherIo)
          else attempt partial f (d\<lparr>lifetime := Some n\<rparr>))"

definition node_metadata :: "lpath \<Rightarrow> LNode disk_io" where
  "node_metadata p = call id (\<lambda>d. (d, case node d p of None \<Rightarrow> Err NotFound | Some n \<Rightarrow> Ok n))"

text \<open>Opening, cloning and synchronising handles have no effect on the tree.\<close>

definition touch_handle :: "lpath \<Rightarrow> unit disk_io" where
  "touch_handle p = call id (\<lambda>d. (d, case node d p of None \<Rightarrow> Err NotFound | Some _ \<Rightarrow> Ok ()))"

definition has_dir :: "Disk \<Rightarrow> lpath \<Rightarrow> bool" where
  "has_dir d p \<longleftrightarrow> p = [] \<or> node d p = Some LDir"

definition create_new :: "lpath \<Rightarrow> unit disk_io" where
  "create_new p = call id (\<lambda>d.
     if node d p \<noteq> None then (d, Err AlreadyExists)
     else if \<not> has_dir d (butlast p) then (d, Err NotFound)
     else (set_node p (LFile [] (now d)) d, Ok ()))"

text \<open>Writing to an open file; the handle stays valid when its path is gone, and then nothing is visible.\<close>

definition write_content :: "lpath \<Rightarrow> u8 list \<Rightarrow> Disk \<Rightarrow> Disk" where
  "write_content p bytes d =
     (case node d p of Some (LFile _ _) \<Rightarrow> set_node p (LFile bytes (now d)) d | _ \<Rightarrow> d)"

definition write_all :: "lpath \<Rightarrow> u8 list \<Rightarrow> unit disk_io" where
  "write_all p bytes = call (\<lambda>d. write_content p (take (torn_bytes d) bytes) d) (\<lambda>d. (write_content p bytes d, Ok ()))"

definition read_file :: "lpath \<Rightarrow> u8 list disk_io" where
  "read_file p = call id (\<lambda>d. (d, case node d p of
     None \<Rightarrow> Err NotFound | Some (LFile bytes _) \<Rightarrow> Ok bytes | Some _ \<Rightarrow> Err OtherIo))"

definition rename :: "lpath \<Rightarrow> lpath \<Rightarrow> unit disk_io" where
  "rename src dst = call id (\<lambda>d.
     case node d src of
       None \<Rightarrow> (d, Err NotFound)
     | Some n \<Rightarrow>
         if \<not> has_dir d (butlast dst) then (d, Err NotFound)
         else if node d dst = Some LDir \<or> n = LDir then (d, Err OtherIo)
         else (set_node dst n (unset_node src d), Ok ()))"

definition remove_file :: "lpath \<Rightarrow> unit disk_io" where
  "remove_file p = call id (\<lambda>d.
     case node d p of
       None \<Rightarrow> (d, Err NotFound)
     | Some LDir \<Rightarrow> (d, Err OtherIo)
     | Some _ \<Rightarrow> (unset_node p d, Ok ()))"

definition create_dir :: "lpath \<Rightarrow> unit disk_io" where
  "create_dir p = call id (\<lambda>d.
     if node d p \<noteq> None then (d, Err AlreadyExists)
     else if \<not> has_dir d (butlast p) then (d, Err NotFound)
     else (set_node p LDir d, Ok ()))"

text \<open>\<open>fs::write\<close>: create or truncate, then write.\<close>

definition fs_write :: "lpath \<Rightarrow> u8 list \<Rightarrow> unit disk_io" where
  "fs_write p bytes = call
     (\<lambda>d. if node d p \<noteq> Some LDir \<and> node d p \<noteq> Some LOther \<and> has_dir d (butlast p)
          then set_node p (LFile (take (torn_bytes d) bytes) (now d)) d else d)
     (\<lambda>d.
        if node d p = Some LDir \<or> node d p = Some LOther then (d, Err OtherIo)
        else if \<not> has_dir d (butlast p) then (d, Err NotFound)
        else (set_node p (LFile bytes (now d)) d, Ok ()))"

definition children :: "Disk \<Rightarrow> lpath \<Rightarrow> string list" where
  "children d p = map last (filter (\<lambda>q. q \<noteq> [] \<and> butlast q = p) (map fst (tree d)))"

definition read_dir :: "lpath \<Rightarrow> string list disk_io" where
  "read_dir p = call id (\<lambda>d. (d,
     if has_dir d p then Ok (children d p) else if node d p = None then Err NotFound else Err OtherIo))"

definition remove_dir :: "lpath \<Rightarrow> unit disk_io" where
  "remove_dir p = call id (\<lambda>d.
     if node d p = None then (d, Err NotFound)
     else if node d p \<noteq> Some LDir then (d, Err OtherIo)
     else if children d p \<noteq> [] then (d, Err DirectoryNotEmpty)
     else (unset_node p d, Ok ()))"

text \<open>\<open>let _ = ...\<close>: the outcome of a call is ignored.\<close>

definition ignore :: "('s, 'e, 'a) eff \<Rightarrow> ('s, 'x, unit) eff" where
  "ignore m s = (fst (m s), Ok ())"

definition io_error :: "string \<Rightarrow> lpath \<Rightarrow> 'a disk_io \<Rightarrow> 'a cache_io" where
  "io_error operation p m d =
     (case m d of (d', Inl k) \<Rightarrow> (d', Err (Io operation (join ''/'' p) k)) | (d', Inr x) \<Rightarrow> (d', Ok x))"

definition fail :: "'e \<Rightarrow> ('s, 'e, 'a) eff" where "fail e s = (s, Err e)"

definition give :: "'a \<Rightarrow> ('s, 'e, 'a) eff" where "give x s = (s, Ok x)"

definition lift_result :: "('e, 'a) result \<Rightarrow> ('s, 'e, 'a) eff" where "lift_result r s = (s, r)"

text \<open>A match on the outcome of a call.\<close>

definition io_match :: "('s, 'e, 'a) eff \<Rightarrow> ('e \<Rightarrow> ('s, 'f, 'b) eff) \<Rightarrow> ('a \<Rightarrow> ('s, 'f, 'b) eff) \<Rightarrow> ('s, 'f, 'b) eff" where
  "io_match m h f s = (case m s of (s', Inl e) \<Rightarrow> h e s' | (s', Inr x) \<Rightarrow> f x s')"

section \<open>Helpers of the store\<close>

definition sync_directory :: "lpath \<Rightarrow> unit cache_io" where
  "sync_directory p = io_error ''synchronize cache directory'' p (touch_handle p)"

definition is_current_file :: "lpath \<Rightarrow> bool cache_io" where
  "is_current_file p =
     io_bind (io_error ''retain opened cache file'' p (touch_handle p)) (\<lambda>_.
     io_bind (io_error ''identify opened cache file'' p (touch_handle p)) (\<lambda>_.
     io_bind (io_error ''identify cache path'' p (touch_handle p)) (\<lambda>_. give True)))"

definition is_regular :: "LNode \<Rightarrow> bool" where
  "is_regular n = (case n of LFile _ _ \<Rightarrow> True | _ \<Rightarrow> False)"

definition node_len :: "Disk \<Rightarrow> lpath \<Rightarrow> LNode \<Rightarrow> nat" where
  "node_len d p n = (case n of LFile bytes _ \<Rightarrow> length bytes | _ \<Rightarrow> odd_len d p)"

definition node_time :: "Disk \<Rightarrow> lpath \<Rightarrow> LNode \<Rightarrow> nat" where
  "node_time d p n = (case n of LFile _ modified \<Rightarrow> modified | _ \<Rightarrow> odd_time d p)"

definition create_cache_directory :: "lpath \<Rightarrow> unit cache_io" where
  "create_cache_directory p =
     io_bind (io_match (create_dir p)
       (\<lambda>k. if k = AlreadyExists then give () else fail (Io ''create local cache directory'' (join ''/'' p) k)) give) (\<lambda>_.
     io_bind (io_error ''inspect created local cache directory'' p (node_metadata p)) (\<lambda>n.
       if n = LDir then give ()
       else fail (Configuration (''local cache directory '' @ quoted (join ''/'' p) @
         '' must not be a file, symbolic link, junction, or reparse point''))))"

text \<open>The walk over the directories above an object; a missing one is created or reported.\<close>

fun parent_loop :: "bool \<Rightarrow> lpath \<Rightarrow> string list \<Rightarrow> bool cache_io" where
  "parent_loop create current [] = give True"
| "parent_loop create current (c # cs) =
     (let p = current @ [c] in
      io_match (node_metadata p)
        (\<lambda>k. if k = NotFound
             then if create then io_bind (create_cache_directory p) (\<lambda>_. parent_loop create p cs) else give False
             else fail (Io ''inspect cache object ancestor'' (join ''/'' p) k))
        (\<lambda>n. if n = LDir then parent_loop create p cs
             else fail (Corrupt (join ''/'' p) ''cache object ancestor is not a regular directory'')))"

definition validate_cache_parent :: "lpath \<Rightarrow> bool \<Rightarrow> bool cache_io" where
  "validate_cache_parent object create = parent_loop create [] (butlast object)"

text \<open>\<open>Path::with_extension\<close> on the last component.\<close>

definition file_stem :: "string \<Rightarrow> string" where
  "file_stem name =
     (case dropWhile (\<lambda>c. c \<noteq> CHR ''.'') (rev name) of
        [] \<Rightarrow> name | _ # s \<Rightarrow> if s = [] then name else rev s)"

definition extension :: "string \<Rightarrow> string option" where
  "extension name =
     (case dropWhile (\<lambda>c. c \<noteq> CHR ''.'') (rev name) of
        [] \<Rightarrow> None | _ # s \<Rightarrow> if s = [] then None else Some (rev (takeWhile (\<lambda>c. c \<noteq> CHR ''.'') (rev name))))"

definition with_extension :: "lpath \<Rightarrow> string \<Rightarrow> lpath" where
  "with_extension p ext = butlast p @ [file_stem (last p) @ ''.'' @ ext]"

definition open_lock_file :: "lpath \<Rightarrow> unit cache_io" where
  "open_lock_file p =
     io_match (create_new p)
       (\<lambda>k. if k \<noteq> AlreadyExists then fail (Io ''create cache lock'' (join ''/'' p) k)
        else
          io_bind (io_error ''inspect cache lock'' p (node_metadata p)) (\<lambda>n.
            if \<not> is_regular n
            then fail (Configuration (''cache lock '' @ quoted (join ''/'' p) @ '' must be a regular non-link file''))
            else
              io_bind (io_error ''open cache lock'' p (touch_handle p)) (\<lambda>_.
              io_bind (io_error ''inspect opened cache lock'' p (node_metadata p)) (\<lambda>opened.
              io_bind (io_error ''re-inspect cache lock'' p (node_metadata p)) (\<lambda>current.
              io_bind (is_current_file p) (\<lambda>same.
                if \<not> same \<or> \<not> is_regular opened \<or> \<not> is_regular current
                then fail (Configuration (''cache lock '' @ quoted (join ''/'' p) @ '' changed while it was opened''))
                else give ()))))))
       give"

fun make_dirs :: "lpath \<Rightarrow> string list \<Rightarrow> unit disk_io" where
  "make_dirs current [] = give ()"
| "make_dirs current (c # cs) =
     (let p = current @ [c] in
      io_match (create_dir p)
        (\<lambda>k. if k = AlreadyExists
             then io_bind (node_metadata p) (\<lambda>n. if n = LDir then make_dirs p cs else fail AlreadyExists)
             else fail k)
        (\<lambda>_. make_dirs p cs))"

text \<open>Waiting for the lock is the business of the host; the call returns when it is granted or fails.\<close>

definition acquire_lock :: "lpath \<Rightarrow> bool \<Rightarrow> unit cache_io" where
  "acquire_lock p exclusive =
     io_bind (io_error ''create cache lock directory'' (butlast p) (make_dirs [] (butlast p))) (\<lambda>_.
     io_bind (open_lock_file p) (\<lambda>_.
       io_error (if exclusive then ''lock cache object'' else ''lock cache for reading'') p (touch_handle p)))"

section \<open>Access markers\<close>

definition refresh_marker :: "lpath \<Rightarrow> unit cache_io" where
  "refresh_marker marker =
     io_bind (io_match (remove_file marker)
       (\<lambda>k. if k = NotFound then give ()
            else fail (Io ''remove stale cache action access marker'' (join ''/'' marker) k)) give) (\<lambda>_.
     io_match (create_new marker)
       (\<lambda>k. if k = AlreadyExists \<or> k = NotFound then give ()
            else fail (Io ''update cache action access marker'' (join ''/'' marker) k)) give)"

definition record_sampled_access :: "lpath \<Rightarrow> nat \<Rightarrow> unit cache_io" where
  "record_sampled_access p interval =
     (let marker = with_extension p ''access''; parent = butlast marker in
      io_match (node_metadata parent)
        (\<lambda>k. if k = NotFound then give ()
             else fail (Io ''inspect cache action access marker parent'' (join ''/'' parent) k))
        (\<lambda>n. if n \<noteq> LDir
             then fail (Io ''inspect cache action access marker parent'' (join ''/'' parent) NotADirectory)
             else
               io_match (node_metadata marker)
                 (\<lambda>k. if k = NotFound then refresh_marker marker
                      else fail (Io ''inspect cache action access marker'' (join ''/'' marker) k))
                 (\<lambda>m d. if (case m of LFile _ modified \<Rightarrow> modified \<le> now d \<and> now d - modified < interval | _ \<Rightarrow> False)
                        then give () d else refresh_marker marker d)))"

section \<open>Verification of an encoded blob\<close>

text \<open>
  The Zstandard decoder: it cannot be created, its window cannot be bounded, or it yields pieces of output and then
  the end or an error.
\<close>

datatype zstd_open = NoDecoder string | NoWindow string | Decoder "u8 list list" "string option"

type_synonym zstd_reader = "u8 list \<Rightarrow> zstd_open"

text \<open>A file is absorbed as one piece; the pieces of the verification buffer add up to the same checks.\<close>

fun verify_loop :: "u64 \<Rightarrow> u64 \<Rightarrow> u8 list \<Rightarrow> u8 list list \<Rightarrow> string option \<Rightarrow> (CacheError, u64 \<times> u8 list) result" where
  "verify_loop declared expanded absorbed [] None = Ok (expanded, absorbed)"
| "verify_loop declared expanded absorbed [] (Some m) = Err (InvalidBundle (''cannot verify encoded blob: '' @ m))"
| "verify_loop declared expanded absorbed (c # cs) end =
     (case checked_add expanded (word_of_nat (length c)) of
        None \<Rightarrow> Err (Limit ''expanded blob size overflowed'')
      | Some n \<Rightarrow>
          if n > declared then Err (InvalidBundle ''blob expands beyond its declared size'')
          else verify_loop declared n (absorbed @ c) cs end)"

definition verify_chunks :: "(u8 list \<Rightarrow> u8 list) \<Rightarrow> BlobDescriptor \<Rightarrow> u8 list list \<Rightarrow> string option \<Rightarrow> (CacheError, unit) result" where
  "verify_chunks blake3 b chunks end =
     and_then (verify_loop (expanded_size_bytes b) 0 [] chunks end) (\<lambda>(expanded, absorbed).
       if digest_new Blake3 (blake3 absorbed) expanded \<noteq> digest b
       then Err (InvalidBundle ''expanded blob digest or size differs from its descriptor'')
       else Ok ())"

definition verify_bytes :: "(u8 list \<Rightarrow> u8 list) \<Rightarrow> zstd_reader \<Rightarrow> BlobDescriptor \<Rightarrow> u8 list \<Rightarrow> (CacheError, unit) result" where
  "verify_bytes blake3 zstd b bytes =
     (if word_of_nat (length bytes) \<noteq> encoded_size_bytes b
      then Err (InvalidBundle (''encoded blob has '' @ decimal (length bytes) @ '' bytes, expected '' @
             decimal (unat (encoded_size_bytes b))))
      else
        case encoding b of
          Identity \<Rightarrow> verify_chunks blake3 b (if bytes = [] then [] else [bytes]) None
        | ZstdV1 \<Rightarrow>
            (case zstd bytes of
               NoDecoder m \<Rightarrow> Err (InvalidBundle (''cannot decode Zstandard blob: '' @ m))
             | NoWindow m \<Rightarrow> Err (InvalidBundle (''cannot bound Zstandard decoder window: '' @ m))
             | Decoder chunks end \<Rightarrow> verify_chunks blake3 b chunks end))"

definition verify_encoded_blob ::
    "(u8 list \<Rightarrow> u8 list) \<Rightarrow> zstd_reader \<Rightarrow> (io_kind \<Rightarrow> string) \<Rightarrow> lpath \<Rightarrow> BlobDescriptor \<Rightarrow> u64 \<Rightarrow> unit cache_io" where
  "verify_encoded_blob blake3 zstd io p b max_expanded =
     (if expanded_size_bytes b > max_expanded
      then fail (Limit (''blob expands to '' @ decimal (unat (expanded_size_bytes b)) @
             '' bytes, above the configured limit of '' @ decimal (unat max_expanded)))
      else
        io_bind (io_error ''open temporary blob for verification'' p (touch_handle p)) (\<lambda>_.
        io_bind (io_error ''inspect temporary blob for verification'' p (node_metadata p)) (\<lambda>n d.
          if word_of_nat (node_len d p n) \<noteq> encoded_size_bytes b
          then fail (InvalidBundle (''encoded blob has '' @ decimal (node_len d p n) @ '' bytes, expected '' @
                 decimal (unat (encoded_size_bytes b)))) d
          else
            io_match (read_file p)
              (\<lambda>k. fail (InvalidBundle (''cannot verify encoded blob: '' @ io k)))
              (\<lambda>bytes. lift_result (verify_bytes blake3 zstd b bytes)) d)))"

end
