(* ===== verification/Local_Gc.thy ===== *)
theory Local_Gc
  imports Cache_Disk
begin

text \<open>
  Capacity and maintenance of the local cache: the configuration (\<^verbatim>\<open>octa-cache/src/local/mod.rs\<close>), the byte ledger
  (\<^verbatim>\<open>local/capacity.rs\<close>) and mark-and-sweep collection (\<^verbatim>\<open>local/gc.rs\<close>).
\<close>

section \<open>Configuration\<close>

record LocalCacheConfig =
  cfg_root_absolute :: bool
  cfg_max_bytes :: u64
  cfg_max_expanded_blob_bytes :: u64
  cfg_max_blob_compression_ratio :: u64
  cfg_max_entries :: nat
  cfg_high_watermark_bytes :: u64
  cfg_low_watermark_bytes :: u64
  cfg_temporary_grace :: nat
  cfg_access_update_interval :: nat

definition GIBIBYTE :: u64 where "GIBIBYTE = 1024 * 1024 * 1024"

definition config_new :: "bool \<Rightarrow> LocalCacheConfig" where
  "config_new absolute =
     \<lparr>cfg_root_absolute = absolute, cfg_max_bytes = 20 * GIBIBYTE, cfg_max_expanded_blob_bytes = 100 * GIBIBYTE,
      cfg_max_blob_compression_ratio = 1000, cfg_max_entries = 1000000, cfg_high_watermark_bytes = 18 * GIBIBYTE,
      cfg_low_watermark_bytes = 16 * GIBIBYTE, cfg_temporary_grace = 3600, cfg_access_update_interval = 3600\<rparr>"

definition config_validate :: "LocalCacheConfig \<Rightarrow> (CacheError, unit) result" where
  "config_validate c =
     (if \<not> cfg_root_absolute c
        then Err (Configuration ''local cache root must be an absolute operator-owned directory'')
      else if cfg_max_bytes c = 0 \<or> cfg_max_expanded_blob_bytes c = 0 \<or> cfg_max_blob_compression_ratio c = 0
          \<or> cfg_max_entries c = 0 \<or> cfg_low_watermark_bytes c > cfg_high_watermark_bytes c
          \<or> cfg_high_watermark_bytes c > cfg_max_bytes c
        then Err (Configuration
          ''local cache sizes, compression ratio, and entry limit must be nonzero, with 0 <= low <= high <= maximum'')
      else if cfg_temporary_grace c = 0 \<or> cfg_access_update_interval c = 0
        then Err (Configuration ''local cache maintenance intervals must be greater than zero'')
      else Ok ())"

fun protocol_text :: "CacheProtocolError \<Rightarrow> string" where
  "protocol_text (DigestError m) = ''invalid digest: '' @ m"
| "protocol_text (PathError m) = ''invalid relative path: '' @ m"
| "protocol_text (ActionError m) = ''invalid action descriptor: '' @ m"
| "protocol_text (ResultError m) = ''invalid action result: '' @ m"
| "protocol_text (ConfigurationError m) = ''invalid cache configuration: '' @ m"

text \<open>The texts of cache errors; the text of an operating-system error is the host's.\<close>

fun cache_error_text :: "(io_kind \<Rightarrow> string) \<Rightarrow> CacheError \<Rightarrow> string" where
  "cache_error_text io CacheCancelled = ''cache operation was cancelled''"
| "cache_error_text io (Configuration m) = ''invalid cache configuration: '' @ m"
| "cache_error_text io (PathInvalid p reason) = ''invalid cache path '' @ quoted p @ '': '' @ reason"
| "cache_error_text io (UnsupportedEntry p kind) = ''unsupported filesystem entry '' @ quoted p @ '': '' @ kind"
| "cache_error_text io (UnstableFile p) = ''filesystem entry '' @ quoted p @ '' changed while cache data was being read''"
| "cache_error_text io (InvalidBundle m) = ''invalid output bundle: '' @ m"
| "cache_error_text io (Limit m) = ''cache limit exceeded: '' @ m"
| "cache_error_text io (BundleSource k) = ''cache bundle source failed: '' @ io k"
| "cache_error_text io (Stream k) = ''cache bundle stream failed: '' @ io k"
| "cache_error_text io (TemporaryFile k) = ''cache temporary file failed: '' @ io k"
| "cache_error_text io (Protocol e) = ''cache protocol value is invalid: '' @ protocol_text e"
| "cache_error_text io (Metadata m) = ''invalid cache metadata: '' @ m"
| "cache_error_text io (Remote operation m) = ''remote cache '' @ operation @ '' failed: '' @ m"
| "cache_error_text io (Corrupt p reason) = ''corrupt cache object '' @ quoted p @ '': '' @ reason"
| "cache_error_text io (Io operation p k) = ''failed to '' @ operation @ '' '' @ quoted p @ '': '' @ io k"
| "cache_error_text io (Worker m) = ''cache worker failed: '' @ m"
| "cache_error_text io (WorkerTerminated m) = ''cache worker failed: '' @ m"
| "cache_error_text io (CapacityRelease primary e) =
     cache_error_text io primary @ ''; additionally failed to release cache capacity: '' @ cache_error_text io e"

definition with_capacity :: "LocalCacheCapacity \<Rightarrow> LocalCacheConfig \<Rightarrow> (CacheError, LocalCacheConfig) result" where
  "with_capacity capacity c =
     (case capacity_validate capacity of
        Inl e \<Rightarrow> Err (Configuration (protocol_text e))
      | Inr _ \<Rightarrow>
          let c' = c\<lparr>cfg_max_bytes := max_bytes capacity, cfg_high_watermark_bytes := high_watermark_bytes capacity,
                    cfg_low_watermark_bytes := low_watermark_bytes capacity\<rparr>
          in and_then (config_validate c') (\<lambda>_. Ok c'))"

text \<open>The libraries the store relies on, and the iteration order of a hash set.\<close>

record 'v StoreEnv =
  store_config :: LocalCacheConfig
  blake3_of :: "u8 list \<Rightarrow> u8 list"
  zstd_of :: zstd_reader
  result_json :: "'v json_writer"
  parse_result :: "u8 list \<Rightarrow> (string, 'v ActionResultV1) result"
  uuid_text :: "nat \<Rightarrow> string"
  hash_order :: "lpath list \<Rightarrow> lpath list"
  io_text :: "io_kind \<Rightarrow> string"

definition new_v4 :: "('v, 'z) StoreEnv_scheme \<Rightarrow> (Disk, 'e, string) eff" where
  "new_v4 env d = (d\<lparr>next_uuid := Suc (next_uuid d)\<rparr>, Ok (uuid_text env (next_uuid d)))"

section \<open>Traversal\<close>

text \<open>
  The loop over the entries of one directory.  The stack of directories is a list with its top in front; the visitor
  carries its own value.
\<close>

fun visit_entries ::
    "nat \<Rightarrow> (lpath \<Rightarrow> 'b \<Rightarrow> 'b cache_io) \<Rightarrow> lpath \<Rightarrow> string list \<Rightarrow> nat \<Rightarrow> lpath list \<Rightarrow> 'b \<Rightarrow> (nat \<times> lpath list \<times> 'b) cache_io" where
  "visit_entries limit visit dir [] visited pending acc = give (visited, pending, acc)"
| "visit_entries limit visit dir (c # cs) visited pending acc =
     (if limit \<le> visited
      then fail (Limit (''local cache maintenance exceeds '' @ decimal limit @ '' filesystem entries''))
      else
        io_bind (io_error ''read local cache entry'' dir (call id (give ()))) (\<lambda>_.
        io_bind (io_error ''inspect local cache entry'' (dir @ [c]) (node_metadata (dir @ [c]))) (\<lambda>n.
          case n of
            LDir \<Rightarrow> visit_entries limit visit dir cs (Suc visited) ((dir @ [c]) # pending) acc
          | LFile _ _ \<Rightarrow>
              io_bind (visit (dir @ [c]) acc) (\<lambda>acc'. visit_entries limit visit dir cs (Suc visited) pending acc')
          | LOther \<Rightarrow> visit_entries limit visit dir cs (Suc visited) pending acc)))"

text \<open>
  The loop over the stack.  Each directory below the root is pushed by one visited entry, so \<open>Suc limit\<close> rounds are
  enough: the first argument is never used up.
\<close>

fun visit_dirs ::
    "nat \<Rightarrow> nat \<Rightarrow> (lpath \<Rightarrow> 'b \<Rightarrow> 'b cache_io) \<Rightarrow> lpath list \<Rightarrow> nat \<Rightarrow> 'b \<Rightarrow> 'b cache_io" where
  "visit_dirs fuel limit visit [] visited acc = give acc"
| "visit_dirs 0 limit visit (dir # pending) visited acc = fail (Limit ''unreachable'')"
| "visit_dirs (Suc fuel) limit visit (dir # pending) visited acc =
     io_match (read_dir dir)
       (\<lambda>k. if k = NotFound then visit_dirs fuel limit visit pending visited acc
            else fail (Io ''scan local cache directory'' (join ''/'' dir) k))
       (\<lambda>names. io_bind (visit_entries limit visit dir names visited pending acc) (\<lambda>(visited', pending', acc').
          visit_dirs fuel limit visit pending' visited' acc'))"

definition visit_regular_files :: "lpath \<Rightarrow> nat \<Rightarrow> (lpath \<Rightarrow> 'b \<Rightarrow> 'b cache_io) \<Rightarrow> 'b \<Rightarrow> 'b cache_io" where
  "visit_regular_files root limit visit acc = visit_dirs (Suc limit) limit visit [root] 0 acc"

definition regular_files :: "lpath \<Rightarrow> nat \<Rightarrow> lpath list cache_io" where
  "regular_files root limit = visit_regular_files root limit (\<lambda>p acc. give (acc @ [p])) []"

definition file_size :: "lpath \<Rightarrow> u64 cache_io" where
  "file_size p =
     io_bind (io_error ''measure local cache file'' p (node_metadata p)) (\<lambda>n d. give (word_of_nat (node_len d p n)) d)"

definition file_size_if_present :: "lpath \<Rightarrow> u64 cache_io" where
  "file_size_if_present p =
     io_match (node_metadata p)
       (\<lambda>k. if k = NotFound then give 0 else fail (Io ''measure local cache file'' (join ''/'' p) k))
       (\<lambda>n d. give (word_of_nat (node_len d p n)) d)"

definition directory_bytes :: "lpath \<Rightarrow> nat \<Rightarrow> u64 cache_io" where
  "directory_bytes root limit =
     visit_regular_files root limit (\<lambda>p total. io_bind (file_size p) (\<lambda>n. give (saturating_add total n))) 0"

definition path_exists :: "lpath \<Rightarrow> bool cache_io" where
  "path_exists p =
     io_match (node_metadata p)
       (\<lambda>k. if k = NotFound then give False else fail (Io ''inspect local cache file'' (join ''/'' p) k))
       (\<lambda>n. give (is_regular n))"

definition older_than :: "lpath \<Rightarrow> nat \<Rightarrow> nat \<Rightarrow> bool cache_io" where
  "older_than p time age =
     io_bind (io_error ''read local cache file age'' p (node_metadata p)) (\<lambda>n d. give (age \<le> time - node_time d p n) d)"

definition remove_file_retry_later :: "lpath \<Rightarrow> bool cache_io" where
  "remove_file_retry_later p =
     io_match (remove_file p)
       (\<lambda>k. if k = NotFound \<or> k = PermissionDenied \<or> k = WouldBlock then give False
            else fail (Io ''remove local cache file'' (join ''/'' p) k))
       (\<lambda>_. give True)"

section \<open>The byte ledger\<close>

definition STATE_FILE :: lpath where "STATE_FILE = [''capacity-v1'']"
definition STATE_BYTES :: nat where "STATE_BYTES = 8"

definition ledger_lock :: "unit cache_io" where
  "ledger_lock =
     io_bind (open_lock_file [''locks'', ''capacity.lock'']) (\<lambda>_.
       io_error ''lock local cache capacity'' [''locks'', ''capacity.lock''] (touch_handle [''locks'', ''capacity.lock'']))"

definition read_sync :: "u64 cache_io" where
  "read_sync =
     io_bind (io_error ''inspect local cache capacity'' STATE_FILE (node_metadata STATE_FILE)) (\<lambda>n d.
       if \<not> is_regular n \<or> node_len d STATE_FILE n \<noteq> STATE_BYTES
       then fail (Metadata ''local cache capacity state must be an eight-byte regular non-link file'') d
       else
         io_bind (io_error ''read local cache capacity'' STATE_FILE (touch_handle STATE_FILE)) (\<lambda>_.
         io_bind (io_error ''re-inspect local cache capacity'' STATE_FILE (node_metadata STATE_FILE)) (\<lambda>current.
         io_bind (is_current_file STATE_FILE) (\<lambda>same.
           if \<not> same \<or> \<not> is_regular current
           then fail (Metadata ''local cache capacity state changed while it was opened'')
           else
             io_bind (io_error ''read local cache capacity'' STATE_FILE (read_file STATE_FILE)) (\<lambda>bytes.
               if length bytes < STATE_BYTES then fail (Io ''read local cache capacity'' (join ''/'' STATE_FILE) UnexpectedEof)
               else if length bytes > STATE_BYTES then fail (Metadata ''local cache capacity state has trailing bytes'')
               else give (word_of_nat (from_be bytes)))))) d)"

definition write_sync :: "u64 \<Rightarrow> unit cache_io" where
  "write_sync used =
     (let store = io_error ''write local cache capacity'' STATE_FILE
            (io_bind (write_all STATE_FILE (u64_be used)) (\<lambda>_. touch_handle STATE_FILE))
      in io_match (node_metadata STATE_FILE)
           (\<lambda>k. if k = NotFound
                then io_bind (io_error ''create local cache capacity'' STATE_FILE (create_new STATE_FILE)) (\<lambda>_. store)
                else fail (Io ''inspect local cache capacity'' (join ''/'' STATE_FILE) k))
           (\<lambda>n. if \<not> is_regular n
                then fail (Configuration (''local cache capacity state '' @ quoted (join ''/'' STATE_FILE) @
                       '' must be a regular non-link file''))
                else
                  io_bind (io_error ''write local cache capacity'' STATE_FILE (touch_handle STATE_FILE)) (\<lambda>_.
                  io_bind (io_error ''re-inspect local cache capacity'' STATE_FILE (node_metadata STATE_FILE)) (\<lambda>current.
                  io_bind (is_current_file STATE_FILE) (\<lambda>same.
                    if \<not> same \<or> \<not> is_regular current
                    then fail (Configuration ''local cache capacity state changed while it was opened'')
                    else
                      io_bind (io_error ''truncate local cache capacity'' STATE_FILE (write_all STATE_FILE [])) (\<lambda>_.
                        store))))))"

definition used :: "u64 cache_io" where
  "used = io_bind ledger_lock (\<lambda>_. read_sync)"

definition try_reserve :: "u64 \<Rightarrow> u64 \<Rightarrow> bool cache_io" where
  "try_reserve bytes limit =
     io_bind ledger_lock (\<lambda>_.
     io_bind read_sync (\<lambda>current.
       case checked_add current bytes of
         None \<Rightarrow> fail (Limit ''local cache byte accounting overflowed'')
       | Some reserved \<Rightarrow>
           if reserved > limit then give False
           else io_bind (write_sync reserved) (\<lambda>_. give True)))"

definition release :: "u64 \<Rightarrow> unit cache_io" where
  "release bytes =
     io_bind ledger_lock (\<lambda>_. io_bind read_sync (\<lambda>current. write_sync (saturating_sub current bytes)))"

definition reconcile :: "u64 \<Rightarrow> unit cache_io" where
  "reconcile measured = io_bind ledger_lock (\<lambda>_. write_sync measured)"

text \<open>The size of a state that cannot be read, after a link in its place has been removed.\<close>

definition old_state_bytes :: "u64 cache_io" where
  "old_state_bytes =
     io_match (node_metadata STATE_FILE)
       (\<lambda>k. if k = NotFound then give 0 else fail (Io ''inspect local cache capacity state'' (join ''/'' STATE_FILE) k))
       (\<lambda>n. case n of
          LFile bytes _ \<Rightarrow> give (word_of_nat (length bytes))
        | LOther \<Rightarrow>
            io_bind (io_error ''remove unsafe local cache capacity state'' STATE_FILE (remove_file STATE_FILE)) (\<lambda>_. give 0)
        | LDir \<Rightarrow> fail (Configuration (''local cache capacity state '' @ quoted (join ''/'' STATE_FILE) @
              '' must be a regular non-link file'')))"

definition ledger_open :: "nat \<Rightarrow> unit cache_io" where
  "ledger_open limit =
     io_bind ledger_lock (\<lambda>_.
       io_match read_sync
         (\<lambda>_. io_bind old_state_bytes (\<lambda>old.
              io_bind (directory_bytes [] limit) (\<lambda>measured.
                write_sync (saturating_add (saturating_sub measured old) (word_of_nat STATE_BYTES)))))
         (\<lambda>_. give ()))"

section \<open>Collection\<close>

definition blob_relative_path :: "BlobDescriptor \<Rightarrow> lpath" where
  "blob_relative_path b =
     (let h = hex (digest b); enc = (case encoding b of Identity \<Rightarrow> ''identity'' | ZstdV1 \<Rightarrow> ''zstd-v1'')
      in [''blobs'', ''blake3'', take 2 h,
          h @ ''-'' @ decimal (unat (expanded_size_bytes b)) @ ''-'' @ enc @ ''-'' @
          decimal (unat (encoded_size_bytes b)) @ ''.blob''])"

record GarbageCollection =
  bytes_before :: u64
  bytes_after :: u64
  actions_removed :: nat
  blobs_removed :: nat
  maintenance_files_removed :: nat

record 'v ActionEntry =
  ae_path :: lpath
  ae_access :: nat
  ae_result :: "'v ActionResultV1"

fun remove_dirs :: "lpath list \<Rightarrow> unit cache_io" where
  "remove_dirs [] = give ()"
| "remove_dirs (p # ps) =
     io_bind (io_match (remove_dir p)
       (\<lambda>k. if k = NotFound \<or> k = DirectoryNotEmpty then give ()
            else fail (Io ''remove empty local cache directory'' (join ''/'' p) k)) give) (\<lambda>_. remove_dirs ps)"

fun scan_entries :: "nat \<Rightarrow> lpath \<Rightarrow> string list \<Rightarrow> nat \<Rightarrow> lpath list \<Rightarrow> lpath list \<Rightarrow> (nat \<times> lpath list \<times> lpath list) cache_io" where
  "scan_entries limit dir [] visited pending found = give (visited, pending, found)"
| "scan_entries limit dir (c # cs) visited pending found =
     (if limit \<le> visited
      then fail (Limit (''local cache maintenance exceeds '' @ decimal limit @ '' filesystem entries''))
      else
        io_bind (io_error ''read local cache entry'' dir (call id (give ()))) (\<lambda>_.
        io_bind (io_error ''inspect local cache entry'' (dir @ [c]) (node_metadata (dir @ [c]))) (\<lambda>n.
          if n = LDir
          then scan_entries limit dir cs (Suc visited) ((dir @ [c]) # pending) (found @ [dir @ [c]])
          else scan_entries limit dir cs (Suc visited) pending found)))"

fun scan_loop :: "nat \<Rightarrow> nat \<Rightarrow> lpath list \<Rightarrow> nat \<Rightarrow> lpath list \<Rightarrow> lpath list cache_io" where
  "scan_loop fuel limit [] visited found = give found"
| "scan_loop 0 limit (dir # pending) visited found = fail (Limit ''unreachable'')"
| "scan_loop (Suc fuel) limit (dir # pending) visited found =
     io_match (read_dir dir)
       (\<lambda>k. if k = NotFound then scan_loop fuel limit pending visited found
            else fail (Io ''scan local cache directory'' (join ''/'' dir) k))
       (\<lambda>names. io_bind (scan_entries limit dir names visited pending found) (\<lambda>(visited', pending', found').
          scan_loop fuel limit pending' visited' found'))"

definition remove_empty_children :: "lpath \<Rightarrow> nat \<Rightarrow> unit cache_io" where
  "remove_empty_children root limit =
     io_bind (scan_loop (Suc limit) limit [root] 0 []) (\<lambda>found. remove_dirs (rev found))"

fun remove_aged :: "nat \<Rightarrow> nat \<Rightarrow> lpath list \<Rightarrow> nat \<Rightarrow> nat cache_io" where
  "remove_aged time grace [] removed = give removed"
| "remove_aged time grace (p # ps) removed =
     io_bind (older_than p time grace) (\<lambda>old.
     io_bind (if old then remove_file_retry_later p else give False) (\<lambda>gone.
       remove_aged time grace ps (if gone then Suc removed else removed)))"

definition cleanup_aged_files :: "lpath \<Rightarrow> nat \<Rightarrow> nat \<Rightarrow> nat \<Rightarrow> nat \<Rightarrow> nat cache_io" where
  "cleanup_aged_files root time grace limit removed =
     io_bind (regular_files root limit) (\<lambda>files.
     io_bind (remove_aged time grace files removed) (\<lambda>removed'.
     io_bind (remove_empty_children root limit) (\<lambda>_. give removed')))"

fun remove_orphans :: "nat \<Rightarrow> nat \<Rightarrow> lpath list \<Rightarrow> nat \<Rightarrow> nat cache_io" where
  "remove_orphans time grace [] removed = give removed"
| "remove_orphans time grace (p # ps) removed =
     (if extension (last p) \<noteq> Some ''access'' then remove_orphans time grace ps removed
      else
        io_bind (path_exists (with_extension p ''json'')) (\<lambda>present.
        io_bind (if present then give False else older_than p time grace) (\<lambda>old.
        io_bind (if old then remove_file_retry_later p else give False) (\<lambda>gone.
          remove_orphans time grace ps (if gone then Suc removed else removed)))))"

definition cleanup_orphan_access_markers :: "('v, 'z) StoreEnv_scheme \<Rightarrow> nat \<Rightarrow> nat \<Rightarrow> nat cache_io" where
  "cleanup_orphan_access_markers env time removed =
     io_bind (regular_files [''actions''] (cfg_max_entries (store_config env))) (\<lambda>files.
       remove_orphans time (cfg_temporary_grace (store_config env)) files removed)"

definition utf8_or :: "string \<Rightarrow> string \<Rightarrow> string" where
  "utf8_or fallback name = (if utf8_valid name then name else fallback)"

definition gc_quarantine_action :: "('v, 'z) StoreEnv_scheme \<Rightarrow> lpath \<Rightarrow> string \<Rightarrow> unit cache_io" where
  "gc_quarantine_action env p reason =
     io_bind (new_v4 env) (\<lambda>uuid.
       let destination = [''quarantine'', uuid @ ''-'' @ utf8_or ''action'' (last p)];
           reason_path = with_extension destination ''reason''
       in
         io_bind (io_error ''quarantine invalid action during collection'' p (rename p destination)) (\<lambda>_.
         io_bind (io_error ''write garbage-collection quarantine reason'' reason_path (fs_write reason_path (as_bytes reason))) (\<lambda>_.
         io_bind (sync_directory (butlast p)) (\<lambda>_.
         io_bind (sync_directory (butlast destination)) (\<lambda>_.
           ignore (remove_file_retry_later (with_extension p ''access'')))))))"

definition action_file_name :: "Digest \<Rightarrow> string" where
  "action_file_name action_key = hex action_key @ ''-'' @ decimal (unat (size_bytes action_key)) @ ''.json''"

text \<open>The checks on one action record: its content, or why it is quarantined.\<close>

definition check_action :: "('v, 'z) StoreEnv_scheme \<Rightarrow> string \<Rightarrow> u8 list \<Rightarrow> (string, 'v ActionResultV1) result" where
  "check_action env name bytes =
     (case parse_result env bytes of
        Inl m \<Rightarrow> Err (''action metadata cannot be decoded: '' @ m)
      | Inr r \<Rightarrow>
          case result_validate (result_json env) r of
            Inl e \<Rightarrow> Err (protocol_text e)
          | Inr _ \<Rightarrow>
              if name \<noteq> action_file_name (action r)
              then Err ''action metadata is not stored under its bound digest'' else Ok r)"

definition access_time :: "lpath \<Rightarrow> nat cache_io" where
  "access_time p =
     (let marker = with_extension p ''access'' in
      io_match (node_metadata marker)
        (\<lambda>_. io_bind (io_error ''read action access time'' p (node_metadata p)) (\<lambda>n d. give (node_time d p n) d))
        (\<lambda>n d. give (node_time d marker n) d))"

fun load_loop :: "('v, 'z) StoreEnv_scheme \<Rightarrow> lpath list \<Rightarrow> 'v ActionEntry list \<Rightarrow> 'v ActionEntry list cache_io" where
  "load_loop env [] acc = give acc"
| "load_loop env (p # ps) acc =
     (if extension (last p) \<noteq> Some ''json'' then load_loop env ps acc
      else
        io_bind (file_size p) (\<lambda>n.
          if unat n > MAX_ACTION_RESULT_WIRE_BYTES
          then io_bind (gc_quarantine_action env p ''action metadata exceeds its wire-size limit'') (\<lambda>_. load_loop env ps acc)
          else
            io_bind (io_error ''read action during garbage collection'' p (read_file p)) (\<lambda>bytes.
              case check_action env (last p) bytes of
                Inl reason \<Rightarrow> io_bind (gc_quarantine_action env p reason) (\<lambda>_. load_loop env ps acc)
              | Inr r \<Rightarrow>
                  io_bind (access_time p) (\<lambda>t.
                    load_loop env ps (acc @ [\<lparr>ae_path = p, ae_access = t, ae_result = r\<rparr>])))))"

definition load_actions :: "('v, 'z) StoreEnv_scheme \<Rightarrow> 'v ActionEntry list cache_io" where
  "load_actions env =
     io_bind (regular_files [''actions''] (cfg_max_entries (store_config env))) (\<lambda>files. load_loop env files [])"

fun count_references :: "'v ActionEntry list \<Rightarrow> (lpath \<times> nat) list" where
  "count_references [] = []"
| "count_references (a # as) =
     (case output_bundle (ae_result a) of
        None \<Rightarrow> count_references as
      | Some b \<Rightarrow> entry_update (blob_relative_path b) 0 Suc (count_references as))"

fun plan_loop :: "LocalCacheConfig \<Rightarrow> nat \<Rightarrow> u64 \<Rightarrow> (lpath \<times> nat) list \<Rightarrow> lpath list \<Rightarrow> 'v ActionEntry list \<Rightarrow> lpath list cache_io" where
  "plan_loop c time projected references planned [] = give planned"
| "plan_loop c time projected references planned (a # as) =
     (if projected \<le> cfg_low_watermark_bytes c then give planned
      else
        io_bind (file_size (ae_path a)) (\<lambda>n.
        io_bind (file_size_if_present (with_extension (ae_path a) ''access'')) (\<lambda>m.
          let projected = saturating_sub (saturating_sub projected n) m; planned = planned @ [ae_path a] in
          case output_bundle (ae_result a) of
            None \<Rightarrow> plan_loop c time projected references planned as
          | Some b \<Rightarrow>
              let relative = blob_relative_path b in
              (case map_of references relative of
                 None \<Rightarrow> fail (Worker ''every action blob was counted before eviction'')
               | Some n_refs \<Rightarrow>
                   let references = AList.update relative (n_refs - 1) references in
                   io_bind (if n_refs - 1 = 0 then path_exists relative else give False) (\<lambda>present.
                   io_bind (if present then older_than relative time (cfg_temporary_grace c) else give False) (\<lambda>old.
                     if old
                     then io_bind (file_size relative) (\<lambda>k.
                       plan_loop c time (saturating_sub projected k) references planned as)
                     else plan_loop c time projected references planned as))))))"

fun remove_planned :: "lpath list \<Rightarrow> lpath list \<Rightarrow> lpath list cache_io" where
  "remove_planned [] removed = give removed"
| "remove_planned (p # ps) removed =
     io_bind (remove_file_retry_later p) (\<lambda>gone.
       if gone
       then io_bind (sync_directory (butlast p)) (\<lambda>_.
            io_bind (ignore (remove_file_retry_later (with_extension p ''access''))) (\<lambda>_. remove_planned ps (removed @ [p])))
       else remove_planned ps removed)"

definition reachable_blobs :: "'v ActionEntry list \<Rightarrow> lpath list \<Rightarrow> lpath list" where
  "reachable_blobs actions removed =
     map blob_relative_path (List.map_filter (\<lambda>a. output_bundle (ae_result a))
       (filter (\<lambda>a. ae_path a \<notin> set removed) actions))"

fun sweep_blobs :: "lpath list \<Rightarrow> nat \<Rightarrow> nat \<Rightarrow> lpath list \<Rightarrow> nat \<Rightarrow> nat cache_io" where
  "sweep_blobs reachable time grace [] removed = give removed"
| "sweep_blobs reachable time grace (p # ps) removed =
     io_bind (if p \<in> set reachable then give False else older_than p time grace) (\<lambda>old.
     io_bind (if old then remove_file_retry_later p else give False) (\<lambda>gone.
       sweep_blobs reachable time grace ps (if gone then Suc removed else removed)))"

text \<open>Removal of aged maintenance files; the value is their number.\<close>

definition run_maintenance :: "('v, 'z) StoreEnv_scheme \<Rightarrow> nat \<Rightarrow> nat cache_io" where
  "run_maintenance env time =
     (let c = store_config env in
      io_bind (cleanup_aged_files [''tmp''] time (cfg_temporary_grace c) (cfg_max_entries c) 0) (\<lambda>n.
      io_bind (cleanup_aged_files [''quarantine''] time (cfg_temporary_grace c) (cfg_max_entries c) n) (\<lambda>n.
        cleanup_orphan_access_markers env time n)))"

text \<open>Eviction of actions and sweep of the blobs; the values are the numbers of both.\<close>

definition evict_and_sweep :: "('v, 'z) StoreEnv_scheme \<Rightarrow> nat \<Rightarrow> u64 \<Rightarrow> (nat \<times> nat) cache_io" where
  "evict_and_sweep env time after_maintenance =
     (let c = store_config env in
      io_bind (load_actions env) (\<lambda>loaded.
        let actions = sort_key ae_access loaded in
        io_bind (plan_loop c time after_maintenance (count_references actions) [] actions) (\<lambda>planned.
        io_bind (remove_planned (hash_order env planned) []) (\<lambda>removed.
        io_bind (regular_files [''blobs''] (cfg_max_entries c)) (\<lambda>blobs.
        io_bind (sweep_blobs (reachable_blobs actions removed) time (cfg_temporary_grace c) blobs 0) (\<lambda>swept.
        io_bind (remove_empty_children [''blobs''] (cfg_max_entries c)) (\<lambda>_.
        io_bind (remove_empty_children [''actions''] (cfg_max_entries c)) (\<lambda>_.
          give (length removed, swept)))))))))"

text \<open>One pass at the given time.\<close>

definition collect_at :: "('v, 'z) StoreEnv_scheme \<Rightarrow> bool \<Rightarrow> nat \<Rightarrow> GarbageCollection cache_io" where
  "collect_at env force time =
     (let c = store_config env in
      io_bind (directory_bytes [] (cfg_max_entries c)) (\<lambda>before.
      io_bind (run_maintenance env time) (\<lambda>maintained.
      io_bind (directory_bytes [] (cfg_max_entries c)) (\<lambda>after_maintenance.
        if after_maintenance \<le> (if force then cfg_low_watermark_bytes c else cfg_high_watermark_bytes c)
        then give \<lparr>bytes_before = before, bytes_after = after_maintenance, actions_removed = 0, blobs_removed = 0,
                   maintenance_files_removed = maintained\<rparr>
        else
          io_bind (evict_and_sweep env time after_maintenance) (\<lambda>(evicted, swept).
          io_bind (directory_bytes [] (cfg_max_entries c)) (\<lambda>after.
            give \<lparr>bytes_before = before, bytes_after = after, actions_removed = evicted, blobs_removed = swept,
                  maintenance_files_removed = maintained\<rparr>))))))"

definition collect_locked :: "('v, 'z) StoreEnv_scheme \<Rightarrow> bool \<Rightarrow> GarbageCollection cache_io" where
  "collect_locked env force d = collect_at env force (now d) d"

definition collect :: "('v, 'z) StoreEnv_scheme \<Rightarrow> bool \<Rightarrow> GarbageCollection cache_io" where
  "collect env force =
     io_bind (acquire_lock [''locks'', ''gc.lock''] True) (\<lambda>_.
     io_bind (collect_locked env force) (\<lambda>report.
     io_bind (reconcile (bytes_after report)) (\<lambda>_. give report)))"

end
