(* ===== verification/Local_Store.thy ===== *)
theory Local_Store
  imports Local_Gc
begin

text \<open>
  The local action cache and content-addressed blob store of \<^verbatim>\<open>octa-cache/src/local/mod.rs\<close> with the outcome type
  of \<^verbatim>\<open>store.rs\<close>.  The view is that of one process: taking a lock can fail but excludes nobody here.
\<close>

datatype WriteOutcome = Written | AlreadyPresent | Conflict

record 'v ActionLookup =
  al_result :: "'v ActionResultV1"
  al_layer :: CacheLayer

definition gc_lock_path :: lpath where "gc_lock_path = [''locks'', ''gc.lock'']"

definition open_directories :: "lpath list" where
  "open_directories =
     [[''actions''], [''blobs''], [''blobs'', ''blake3''], [''tmp''], [''locks''], [''locks'', ''objects''], [''quarantine''],
      [''restore-journal'']]"

text \<open>Opening below an existing layout directory; the root and the layout itself are created by the host path code.\<close>

definition store_open :: "('v, 'z) StoreEnv_scheme \<Rightarrow> unit cache_io" where
  "store_open env =
     io_bind (lift_result (config_validate (store_config env))) (\<lambda>_.
     io_bind (io_each create_cache_directory open_directories) (\<lambda>_.
     io_bind (open_lock_file gc_lock_path) (\<lambda>_.
     io_bind (io_error ''lock local cache during startup'' gc_lock_path (touch_handle gc_lock_path)) (\<lambda>_.
       ledger_open (cfg_max_entries (store_config env))))))"

record LocalCacheStatus =
  status_used_bytes :: u64
  status_max_bytes :: u64
  status_high_watermark_bytes :: u64
  status_low_watermark_bytes :: u64

definition status :: "('v, 'z) StoreEnv_scheme \<Rightarrow> LocalCacheStatus cache_io" where
  "status env =
     (let c = store_config env in
      io_bind used (\<lambda>n. give \<lparr>status_used_bytes = n, status_max_bytes = cfg_max_bytes c,
        status_high_watermark_bytes = cfg_high_watermark_bytes c, status_low_watermark_bytes = cfg_low_watermark_bytes c\<rparr>))"

definition prune :: "('v, 'z) StoreEnv_scheme \<Rightarrow> GarbageCollection cache_io" where
  "prune env = collect env True"

section \<open>Paths\<close>

definition shard_name :: "('v, 'z) StoreEnv_scheme \<Rightarrow> u8 list \<Rightarrow> string" where
  "shard_name env key = take 3 (concat (map hex_byte (blake3_of env key)))"

definition object_lock_path :: "('v, 'z) StoreEnv_scheme \<Rightarrow> string \<Rightarrow> lpath" where
  "object_lock_path env key = [''locks'', ''objects'', shard_name env (as_bytes key) @ ''.lock'']"

definition namespace_directory :: "('v, 'z) StoreEnv_scheme \<Rightarrow> string \<Rightarrow> (CacheError, string) result" where
  "namespace_directory env namespace =
     and_then (lift_protocol (validate_namespace namespace)) (\<lambda>_.
       Ok (concat (map hex_byte (blake3_of env (as_bytes namespace)))))"

definition validate_action_digest :: "Digest \<Rightarrow> (CacheError, unit) result" where
  "validate_action_digest key =
     (if algorithm key \<noteq> Blake3 then Err (Configuration ''local action keys must use BLAKE3'') else Ok ())"

definition action_path :: "('v, 'z) StoreEnv_scheme \<Rightarrow> string \<Rightarrow> Digest \<Rightarrow> (CacheError, lpath) result" where
  "action_path env namespace key =
     and_then (validate_action_digest key) (\<lambda>_.
     and_then (namespace_directory env namespace) (\<lambda>ns.
       Ok [''actions'', ns, take 2 (hex key), action_file_name key]))"

section \<open>Quarantine\<close>

definition quarantine_locked :: "('v, 'z) StoreEnv_scheme \<Rightarrow> lpath \<Rightarrow> string \<Rightarrow> unit cache_io" where
  "quarantine_locked env source reason =
     io_bind (validate_cache_parent source False) (\<lambda>present.
       if \<not> present then give ()
       else
         io_match (node_metadata source)
           (\<lambda>k. if k = NotFound then give ()
                else fail (Io ''inspect cache object for quarantine'' (join ''/'' source) k))
           (\<lambda>_. io_bind (new_v4 env) (\<lambda>uuid.
              let destination = [''quarantine'', uuid @ ''-'' @ utf8_or ''object'' (last source)];
                  reason_path = with_extension destination ''reason''
              in
                io_bind (io_error ''quarantine cache object'' source (rename source destination)) (\<lambda>_.
                io_bind (io_error ''write quarantine reason'' reason_path (fs_write reason_path (as_bytes reason))) (\<lambda>_.
                io_bind (sync_directory (butlast source)) (\<lambda>_.
                  sync_directory (butlast destination)))))))"

definition quarantine :: "('v, 'z) StoreEnv_scheme \<Rightarrow> lpath \<Rightarrow> string \<Rightarrow> unit cache_io" where
  "quarantine env source reason =
     io_bind (acquire_lock gc_lock_path False) (\<lambda>_.
     io_bind (acquire_lock (object_lock_path env (join ''/'' source)) True) (\<lambda>_.
       quarantine_locked env source reason))"

definition quarantine_blob :: "('v, 'z) StoreEnv_scheme \<Rightarrow> BlobDescriptor \<Rightarrow> string \<Rightarrow> unit cache_io" where
  "quarantine_blob env b reason =
     io_bind (lift_result (lift_protocol (blob_validate b))) (\<lambda>_. quarantine env (blob_relative_path b) reason)"

definition quarantine_action :: "('v, 'z) StoreEnv_scheme \<Rightarrow> lpath \<Rightarrow> string \<Rightarrow> 'a cache_io" where
  "quarantine_action env p reason =
     io_bind (quarantine env p reason) (\<lambda>_. fail (Corrupt (join ''/'' p) reason))"

definition result_bytes :: "('v, 'z) StoreEnv_scheme \<Rightarrow> 'v ActionResultV1 \<Rightarrow> u8 list" where
  "result_bytes env r = concat (json_result (result_json env) r)"

definition quarantine_conflicting_action ::
    "('v, 'z) StoreEnv_scheme \<Rightarrow> string \<Rightarrow> 'v ActionResultV1 \<Rightarrow> bool cache_io" where
  "quarantine_conflicting_action env namespace verified =
     io_bind (lift_result (action_path env namespace (action verified))) (\<lambda>p.
     io_bind (acquire_lock gc_lock_path False) (\<lambda>_.
     io_bind (acquire_lock (object_lock_path env (join ''/'' p)) True) (\<lambda>_.
     io_bind (validate_cache_parent p False) (\<lambda>present.
       if \<not> present then give False
       else
         io_match (node_metadata p)
           (\<lambda>k. if k = NotFound then give False
                else fail (Io ''inspect conflicting local action'' (join ''/'' p) k))
           (\<lambda>n. io_bind
              (\<lambda>d. if is_regular n \<and> node_len d p n \<le> MAX_ACTION_RESULT_WIRE_BYTES
                   then io_bind (io_error ''read conflicting local action'' p (read_file p)) (\<lambda>bytes.
                     give (bytes = result_bytes env verified)) d
                   else give False d)
              (\<lambda>equal.
                 if equal then give False
                 else io_bind (quarantine_locked env p
                     ''local action conflicts with a completely verified remote result'') (\<lambda>_. give True)))))))"

section \<open>Publication\<close>

definition temporary_path :: "('v, 'z) StoreEnv_scheme \<Rightarrow> string \<Rightarrow> (Disk, 'e, lpath) eff" where
  "temporary_path env kind = io_bind (new_v4 env) (\<lambda>uuid. give [''tmp'', kind @ ''-'' @ uuid @ ''.tmp''])"

text \<open>Under the lock of the object: the final check of existence and the rename.\<close>

definition publish_rename :: "lpath \<Rightarrow> lpath \<Rightarrow> WriteOutcome cache_io" where
  "publish_rename temporary destination =
     io_match (node_metadata destination)
       (\<lambda>k. if k \<noteq> NotFound
            then fail (Io ''inspect cache object before publication'' (join ''/'' destination) k)
            else
              io_bind (io_error ''publish immutable cache object'' destination (rename temporary destination)) (\<lambda>_.
              io_bind (sync_directory (butlast destination)) (\<lambda>_. give Written)))
       (\<lambda>n. if is_regular n then give AlreadyPresent
            else io_bind (ignore (remove_file temporary)) (\<lambda>_.
              fail (Corrupt (join ''/'' destination) ''cache object path is not a regular file'')))"

definition publish_temporary :: "('v, 'z) StoreEnv_scheme \<Rightarrow> lpath \<Rightarrow> lpath \<Rightarrow> WriteOutcome cache_io" where
  "publish_temporary env temporary destination =
     io_bind (validate_cache_parent destination True) (\<lambda>_.
     io_bind (acquire_lock (object_lock_path env (join ''/'' destination)) True) (\<lambda>_.
       publish_rename temporary destination))"

text \<open>On an error the temporary file is removed and the error kept.\<close>

definition or_remove :: "lpath \<Rightarrow> 'a cache_io \<Rightarrow> 'a cache_io" where
  "or_remove temporary m = io_match m (\<lambda>e. io_bind (ignore (remove_file temporary)) (\<lambda>_. fail e)) give"

definition publish_bytes :: "('v, 'z) StoreEnv_scheme \<Rightarrow> lpath \<Rightarrow> u8 list \<Rightarrow> WriteOutcome cache_io" where
  "publish_bytes env destination bytes =
     io_bind (temporary_path env ''metadata'') (\<lambda>temporary.
     io_bind (io_error ''create temporary cache metadata'' temporary (create_new temporary)) (\<lambda>_.
     io_bind (or_remove temporary (io_error ''write temporary cache metadata'' temporary
       (io_bind (write_all temporary bytes) (\<lambda>_. touch_handle temporary)))) (\<lambda>_.
     io_bind (or_remove temporary (publish_temporary env temporary destination)) (\<lambda>outcome.
       if outcome = AlreadyPresent
       then io_bind (ignore (remove_file temporary)) (\<lambda>_. give outcome) else give outcome))))"

definition verify_blob_file :: "('v, 'z) StoreEnv_scheme \<Rightarrow> lpath \<Rightarrow> BlobDescriptor \<Rightarrow> unit cache_io" where
  "verify_blob_file env p b =
     verify_encoded_blob (blake3_of env) (zstd_of env) (io_text env) p b (cfg_max_expanded_blob_bytes (store_config env))"

definition existing_blob_is_valid :: "('v, 'z) StoreEnv_scheme \<Rightarrow> BlobDescriptor \<Rightarrow> bool cache_io" where
  "existing_blob_is_valid env b =
     (let p = blob_relative_path b;
          reject = io_bind (quarantine_blob env b ''existing blob failed validation before publication'') (\<lambda>_. give False)
      in io_bind (validate_cache_parent p False) (\<lambda>present.
        if \<not> present then give False
        else
          io_match (node_metadata p)
            (\<lambda>k. if k = NotFound then give False
                 else fail (Io ''inspect existing local cache blob'' (join ''/'' p) k))
            (\<lambda>n d.
               if is_regular n \<and> word_of_nat (node_len d p n) = encoded_size_bytes b
               then io_match (verify_blob_file env p b) (\<lambda>_. reject) (\<lambda>_. give True) d
               else reject d)))"

section \<open>Writing\<close>

text \<open>A stream is the bytes it delivers, then its end or an error.\<close>

type_synonym BlobReader = "u8 list \<times> io_kind option"

text \<open>\<open>tokio::io::copy\<close> of at most \<open>n\<close> bytes into the temporary file.\<close>

definition copy_limited :: "BlobReader \<Rightarrow> nat \<Rightarrow> lpath \<Rightarrow> nat disk_io" where
  "copy_limited body n p =
     (case body of (bytes, end) \<Rightarrow>
        io_bind (write_all p (take n bytes)) (\<lambda>_.
          case end of
            Some k \<Rightarrow> if length bytes < n then fail k else give (length (take n bytes))
          | None \<Rightarrow> give (length (take n bytes))))"

definition reserve_capacity :: "('v, 'z) StoreEnv_scheme \<Rightarrow> u64 \<Rightarrow> unit cache_io" where
  "reserve_capacity env incoming =
     (let c = store_config env in
      if incoming > cfg_max_bytes c
      then fail (Limit (''cache object of '' @ decimal (unat incoming) @ '' bytes exceeds the local capacity of '' @
             decimal (unat (cfg_max_bytes c)) @ '' bytes''))
      else
        io_bind (acquire_lock gc_lock_path False) (\<lambda>_.
        io_bind (try_reserve incoming (cfg_high_watermark_bytes c)) (\<lambda>reserved.
          if reserved then give ()
          else
            io_bind (collect env False) (\<lambda>_.
            io_bind (acquire_lock gc_lock_path False) (\<lambda>_.
            io_bind (try_reserve incoming (cfg_max_bytes c)) (\<lambda>reserved.
              if reserved then give ()
              else fail (Limit ''local cache remains full after garbage collection'')))))))"

definition validate_blob_resources :: "('v, 'z) StoreEnv_scheme \<Rightarrow> BlobDescriptor \<Rightarrow> (CacheError, unit) result" where
  "validate_blob_resources env b =
     (let c = store_config env; allowed = saturating_mul (encoded_size_bytes b) (cfg_max_blob_compression_ratio c) in
      if expanded_size_bytes b > cfg_max_expanded_blob_bytes c \<or> expanded_size_bytes b > allowed
      then Err (Limit ''blob descriptor exceeds local expansion or compression-ratio limits'') else Ok ())"

definition finish_reservation :: "u64 \<Rightarrow> (CacheError, WriteOutcome) result \<Rightarrow> WriteOutcome cache_io" where
  "finish_reservation bytes r =
     (if r = Ok Written then lift_result r
      else io_match (release bytes)
        (\<lambda>e. case r of Inr _ \<Rightarrow> fail e | Inl primary \<Rightarrow> fail (CapacityRelease primary e))
        (\<lambda>_. lift_result r))"

text \<open>Staging: the producer's bytes are copied to a temporary file and verified there.\<close>

definition stage_blob :: "('v, 'z) StoreEnv_scheme \<Rightarrow> BlobDescriptor \<Rightarrow> BlobReader \<Rightarrow> lpath \<Rightarrow> unit cache_io" where
  "stage_blob env b body temporary =
     io_bind (or_remove temporary (io_error ''write temporary cache blob'' temporary
       (copy_limited body (unat (saturating_add (encoded_size_bytes b) 1)) temporary))) (\<lambda>copied.
     io_bind (or_remove temporary
       (if copied \<noteq> unat (encoded_size_bytes b)
        then fail (InvalidBundle (''blob stream contained '' @ decimal copied @ '' bytes, expected '' @
               decimal (unat (encoded_size_bytes b))))
        else give ())) (\<lambda>_.
     io_bind (or_remove temporary (io_error ''synchronize temporary cache blob'' temporary (touch_handle temporary))) (\<lambda>_.
       or_remove temporary (verify_blob_file env temporary b))))"

text \<open>After publication: an object that was there before must verify, or it is quarantined.\<close>

definition settle_blob :: "('v, 'z) StoreEnv_scheme \<Rightarrow> BlobDescriptor \<Rightarrow> lpath \<Rightarrow> WriteOutcome \<Rightarrow> WriteOutcome cache_io" where
  "settle_blob env b temporary outcome =
     (if outcome = AlreadyPresent
      then io_match (verify_blob_file env (blob_relative_path b) b)
        (\<lambda>e. io_bind (quarantine_blob env b
               (''existing blob failed publication verification: '' @ cache_error_text (io_text env) e)) (\<lambda>_.
             io_bind (ignore (remove_file temporary)) (\<lambda>_. fail e)))
        (\<lambda>_. io_bind (ignore (remove_file temporary)) (\<lambda>_. give AlreadyPresent))
      else give outcome)"

definition write_blob_reserved ::
    "('v, 'z) StoreEnv_scheme \<Rightarrow> BlobDescriptor \<Rightarrow> BlobReader \<Rightarrow> WriteOutcome cache_io" where
  "write_blob_reserved env b body =
     io_bind (temporary_path env ''blob'') (\<lambda>temporary.
     io_bind (io_error ''create temporary cache blob'' temporary (create_new temporary)) (\<lambda>_.
     io_bind (stage_blob env b body temporary) (\<lambda>_.
     io_bind (or_remove temporary (publish_temporary env temporary (blob_relative_path b))) (\<lambda>outcome.
       settle_blob env b temporary outcome))))"

text \<open>An action is published only after its blob is in place.\<close>

definition require_blob :: "BlobDescriptor \<Rightarrow> unit cache_io" where
  "require_blob b =
     (let p = blob_relative_path b; absent = Corrupt (join ''/'' p) ''action result references a missing blob'' in
      io_bind (validate_cache_parent p False) (\<lambda>present.
        if \<not> present then fail absent
        else
          io_match (node_metadata p)
            (\<lambda>k. if k = NotFound then fail absent
                 else fail (Io ''verify blob before action publication'' (join ''/'' p) k))
            (\<lambda>n d.
               if \<not> is_regular n \<or> word_of_nat (node_len d p n) \<noteq> encoded_size_bytes b
               then fail (Corrupt (join ''/'' p) ''action result references an absent or incomplete blob'') d
               else give () d)))"

text \<open>A record that was there before is compared byte by byte.\<close>

definition compare_published :: "lpath \<Rightarrow> u8 list \<Rightarrow> WriteOutcome \<Rightarrow> WriteOutcome cache_io" where
  "compare_published destination bytes outcome =
     (if outcome \<noteq> AlreadyPresent then give outcome
      else
        io_bind (io_error ''inspect concurrently published action'' destination (node_metadata destination)) (\<lambda>n d.
          if \<not> is_regular n \<or> node_len d destination n > MAX_ACTION_RESULT_WIRE_BYTES
          then fail (Corrupt (join ''/'' destination)
            ''concurrently published action is not bounded regular metadata'') d
          else
            io_bind (io_error ''read concurrently published action'' destination (read_file destination)) (\<lambda>existing.
              give (if existing = bytes then AlreadyPresent else Conflict)) d))"

definition write_action_reserved ::
    "('v, 'z) StoreEnv_scheme \<Rightarrow> lpath \<Rightarrow> 'v ActionResultV1 \<Rightarrow> u8 list \<Rightarrow> WriteOutcome cache_io" where
  "write_action_reserved env destination r bytes =
     io_bind (case output_bundle r of None \<Rightarrow> give () | Some b \<Rightarrow> require_blob b) (\<lambda>_.
     io_bind (publish_bytes env destination bytes) (\<lambda>outcome. compare_published destination bytes outcome))"

section \<open>The store operations\<close>

definition local_get_action :: "('v, 'z) StoreEnv_scheme \<Rightarrow> string \<Rightarrow> Digest \<Rightarrow> 'v ActionLookup option cache_io" where
  "local_get_action env namespace key =
     io_bind (lift_result (action_path env namespace key)) (\<lambda>p.
     io_bind (acquire_lock gc_lock_path False) (\<lambda>_.
     io_bind (validate_cache_parent p False) (\<lambda>present.
       if \<not> present then give None
       else
         io_match (node_metadata p)
           (\<lambda>k. if k = NotFound then give None else fail (Io ''inspect action result'' (join ''/'' p) k))
           (\<lambda>n d.
              if \<not> is_regular n \<or> node_len d p n > MAX_ACTION_RESULT_WIRE_BYTES
              then quarantine_action env p (''action metadata exceeds '' @ decimal MAX_ACTION_RESULT_WIRE_BYTES @
                '' bytes or is not a regular file'') d
              else
                io_bind (io_error ''read action result'' p (read_file p)) (\<lambda>bytes.
                  case parse_result env bytes of
                    Inl m \<Rightarrow> quarantine_action env p (''action metadata cannot be decoded: '' @ m)
                  | Inr r \<Rightarrow>
                      (case result_validate (result_json env) r of
                         Inl e \<Rightarrow> quarantine_action env p (protocol_text e)
                       | Inr _ \<Rightarrow>
                           if action r \<noteq> key
                           then quarantine_action env p ''stored action result is bound to a different digest''
                           else
                             io_bind (record_sampled_access p (cfg_access_update_interval (store_config env))) (\<lambda>_.
                               give (Some \<lparr>al_result = r, al_layer = LocalLayer\<rparr>)))) d))))"

fun missing_loop :: "BlobDescriptor list \<Rightarrow> BlobDescriptor list \<Rightarrow> BlobDescriptor list \<Rightarrow>
    (BlobDescriptor list \<times> BlobDescriptor list) cache_io" where
  "missing_loop [] absent corrupt = give (absent, corrupt)"
| "missing_loop (b # bs) absent corrupt =
     (let p = blob_relative_path b in
      io_bind (lift_result (lift_protocol (blob_validate b))) (\<lambda>_.
      io_bind (validate_cache_parent p False) (\<lambda>present.
        if \<not> present then missing_loop bs (absent @ [b]) corrupt
        else
          io_match (node_metadata p)
            (\<lambda>k. if k = NotFound then missing_loop bs (absent @ [b]) corrupt
                 else fail (Io ''inspect local cache blob'' (join ''/'' p) k))
            (\<lambda>n d.
               if is_regular n \<and> word_of_nat (node_len d p n) = encoded_size_bytes b
               then missing_loop bs absent corrupt d
               else missing_loop bs (absent @ [b]) (corrupt @ [b]) d))))"

definition local_find_missing_blobs :: "('v, 'z) StoreEnv_scheme \<Rightarrow> BlobDescriptor list \<Rightarrow> BlobDescriptor list cache_io" where
  "local_find_missing_blobs env blobs =
     io_bind (acquire_lock gc_lock_path False) (\<lambda>_.
     io_bind (missing_loop blobs [] []) (\<lambda>(absent, corrupt).
     io_bind (io_each (\<lambda>b. quarantine_blob env b ''encoded blob size or file kind differs from its descriptor'') corrupt) (\<lambda>_.
       give absent)))"

definition local_read_blob :: "('v, 'z) StoreEnv_scheme \<Rightarrow> BlobDescriptor \<Rightarrow> BlobReader cache_io" where
  "local_read_blob env b =
     (let p = blob_relative_path b;
          reason = ''encoded blob size or file kind differs from its descriptor'';
          reject = io_bind (quarantine_blob env b reason) (\<lambda>_. fail (Corrupt (join ''/'' p) reason))
      in
        io_bind (lift_result (lift_protocol (blob_validate b))) (\<lambda>_.
        io_bind (acquire_lock gc_lock_path False) (\<lambda>_.
        io_bind (validate_cache_parent p False) (\<lambda>present.
          if \<not> present then fail (Io ''open local cache blob'' (join ''/'' p) NotFound)
          else
            io_bind (io_error ''inspect local cache blob'' p (node_metadata p)) (\<lambda>n d.
              if \<not> is_regular n \<or> word_of_nat (node_len d p n) \<noteq> encoded_size_bytes b then reject d
              else
                io_bind (io_error ''open local cache blob'' p (touch_handle p)) (\<lambda>_.
                io_bind (io_error ''inspect local cache blob'' p (read_file p)) (\<lambda>bytes.
                  if word_of_nat (length bytes) \<noteq> encoded_size_bytes b then reject
                  else give (bytes, None))) d)))))"

definition local_recover_corrupt_blob :: "('v, 'z) StoreEnv_scheme \<Rightarrow> BlobDescriptor \<Rightarrow> BlobReader option cache_io" where
  "local_recover_corrupt_blob env b =
     io_bind (existing_blob_is_valid env b) (\<lambda>valid.
       if valid then io_bind (local_read_blob env b) (\<lambda>reader. give (Some reader)) else give None)"

definition local_write_blob :: "('v, 'z) StoreEnv_scheme \<Rightarrow> BlobDescriptor \<Rightarrow> BlobReader \<Rightarrow> WriteOutcome cache_io" where
  "local_write_blob env b body =
     io_bind (lift_result (lift_protocol (blob_validate b))) (\<lambda>_.
     io_bind (lift_result (validate_blob_resources env b)) (\<lambda>_.
     io_bind (existing_blob_is_valid env b) (\<lambda>valid.
       if valid then give AlreadyPresent
       else
         io_bind (reserve_capacity env (encoded_size_bytes b)) (\<lambda>_.
         io_match (write_blob_reserved env b body)
           (\<lambda>e. finish_reservation (encoded_size_bytes b) (Err e))
           (\<lambda>outcome. finish_reservation (encoded_size_bytes b) (Ok outcome))))))"

definition local_write_action :: "('v, 'z) StoreEnv_scheme \<Rightarrow> string \<Rightarrow> 'v ActionResultV1 \<Rightarrow> WriteOutcome cache_io" where
  "local_write_action env namespace r =
     io_bind (lift_result (lift_protocol (result_validate (result_json env) r))) (\<lambda>_.
     io_bind (lift_result (action_path env namespace (action r))) (\<lambda>destination.
       let bytes = result_bytes env r; n = word_of_nat (length bytes) in
       io_bind (reserve_capacity env n) (\<lambda>_.
       io_match (write_action_reserved env destination r bytes)
         (\<lambda>e. finish_reservation n (Err e)) (\<lambda>outcome. finish_reservation n (Ok outcome)))))"

end
