(* ===== verification/Local_Safety.thy ===== *)
theory Local_Safety
  imports Local_Store "HOL-Library.Code_Target_Numeral"
begin

text \<open>
  What the operations of the local store do to the tree, whatever calls fail and wherever the process dies: they
  leave everything outside of their working directories alone, they publish complete objects only, and collection
  never takes the blob of a surviving action.
\<close>

section \<open>System calls\<close>

type_synonym tree_view = "lpath \<Rightarrow> LNode option"

lemma node_simps [simp]:
  "node (d\<lparr>faults := fs\<rparr>) = node d" "node (d\<lparr>lifetime := l\<rparr>) = node d" "node (d\<lparr>next_uuid := k\<rparr>) = node d"
  "node (set_node p n d) = (node d)(p \<mapsto> n)" "node (unset_node p d) = (node d)(p := None)"
  by (simp_all add: node_def set_node_def unset_node_def update_conv' delete_conv')

text \<open>A call works on the tree it finds, or has its partial effect and reports a failure that says nothing about the tree.\<close>

definition opaque :: "io_kind \<Rightarrow> bool" where
  "opaque k \<longleftrightarrow> k \<noteq> NotFound \<and> k \<noteq> AlreadyExists \<and> k \<noteq> DirectoryNotEmpty"

lemma call_outcome:
  "\<exists>d1. node d1 = node d \<and>
    (call partial f d = f d1 \<or> (\<exists>k. opaque k \<and> (call partial f d = (partial d1, Inl k) \<or> call partial f d = (d1, Inl k))))"
proof -
  have kind: "opaque (fault_kind k)" for k by (cases k) (auto simp: opaque_def)
  have attempt: "\<exists>d1. node d1 = node d0 \<and> (attempt partial f d0 = f d1 \<or> (\<exists>k. opaque k \<and> attempt partial f d0 = (partial d1, Inl k)))" for d0
  proof (cases "faults d0")
    case (Cons x fs)
    then show ?thesis using kind
      by (cases x) (auto simp: attempt_def intro!: exI[of _ "d0\<lparr>faults := fs\<rparr>"])
  qed (auto simp: attempt_def)
  show ?thesis
  proof (cases "lifetime d")
    case None
    then show ?thesis using attempt[of d] by (auto simp: call_def)
  next
    case (Some n)
    have other: "opaque OtherIo" by (simp add: opaque_def)
    show ?thesis
    proof (cases n)
      case 0
      then have "call partial f d = (d, Inl OtherIo)" using Some by (simp add: call_def)
      then show ?thesis using other by blast
    next
      case (Suc m)
      let ?d = "d\<lparr>lifetime := Some m\<rparr>"
      have nodes: "node ?d = node d" by simp
      show ?thesis
      proof (cases "m = 0")
        case True
        then have "call partial f d = (partial ?d, Inl OtherIo)" using Some Suc by (simp add: call_def)
        then show ?thesis using other nodes by blast
      next
        case False
        then have "call partial f d = attempt partial f ?d" using Some Suc by (simp add: call_def)
        then show ?thesis using attempt[of ?d] nodes by metis
      qed
    qed
  qed
qed

text \<open>The outcomes of a program on any disk that shows a given tree.\<close>

definition wp :: "(Disk, 'e, 'a) eff \<Rightarrow> (tree_view \<Rightarrow> ('e, 'a) result \<Rightarrow> bool) \<Rightarrow> tree_view \<Rightarrow> bool" where
  "wp m Q t \<longleftrightarrow> (\<forall>d. node d = t \<longrightarrow> Q (node (fst (m d))) (snd (m d)))"

lemma wpI: "(\<And>d. node d = t \<Longrightarrow> Q (node (fst (m d))) (snd (m d))) \<Longrightarrow> wp m Q t"
  by (simp add: wp_def)

lemma wpD: "wp m Q (node d) \<Longrightarrow> m d = (d', r) \<Longrightarrow> Q (node d') r"
  by (auto simp: wp_def)

lemma wp_mono: "wp m Q t \<Longrightarrow> (\<And>t' r. Q t' r \<Longrightarrow> Q' t' r) \<Longrightarrow> wp m Q' t"
  by (auto simp: wp_def)

lemma wp_call:
  assumes "\<And>d. node d = t \<Longrightarrow> Q (node (fst (f d))) (snd (f d))"
    "\<And>d k. node d = t \<Longrightarrow> opaque k \<Longrightarrow> Q (node (partial d)) (Inl k)" "\<And>k. opaque k \<Longrightarrow> Q t (Inl k)"
  shows "wp (call partial f) Q t"
proof (rule wpI)
  fix d assume t: "node d = t"
  obtain d1 where "node d1 = node d" "call partial f d = f d1 \<or>
      (\<exists>k. opaque k \<and> (call partial f d = (partial d1, Inl k) \<or> call partial f d = (d1, Inl k)))"
    using call_outcome[of d partial f] by blast
  then show "Q (node (fst (call partial f d))) (snd (call partial f d))" using assms t by auto
qed

lemma wp_bind:
  "wp m (\<lambda>t' r. case r of Inl e \<Rightarrow> Q t' (Inl e) | Inr x \<Rightarrow> wp (f x) Q t') t \<Longrightarrow> wp (io_bind m f) Q t"
  unfolding wp_def by (auto simp: io_bind_def split: prod.splits sum.splits)

lemma wp_match:
  "wp m (\<lambda>t' r. case r of Inl e \<Rightarrow> wp (h e) Q t' | Inr x \<Rightarrow> wp (f x) Q t') t \<Longrightarrow> wp (io_match m h f) Q t"
  unfolding wp_def by (auto simp: io_match_def split: prod.splits sum.splits)

lemma wp_match_of:
  assumes "wp m M t" "\<And>t' e. M t' (Inl e) \<Longrightarrow> wp (h e) Q t'" "\<And>t' x. M t' (Inr x) \<Longrightarrow> wp (f x) Q t'"
  shows "wp (io_match m h f) Q t"
  by (rule wp_match, rule wp_mono[OF assms(1)]) (use assms(2,3) in \<open>auto split: sum.splits\<close>)

lemma wp_bind_of:
  assumes "wp m M t" "\<And>t' e. M t' (Inl e) \<Longrightarrow> Q t' (Inl e)" "\<And>t' x. M t' (Inr x) \<Longrightarrow> wp (f x) Q t'"
  shows "wp (io_bind m f) Q t"
  by (rule wp_bind, rule wp_mono[OF assms(1)]) (use assms(2,3) in \<open>auto split: sum.splits\<close>)

lemma wp_give: "Q t (Inr x) \<Longrightarrow> wp (give x) Q t"
  and wp_fail: "Q t (Inl e) \<Longrightarrow> wp (fail e) Q t"
  and wp_lift: "Q t r \<Longrightarrow> wp (lift_result r) Q t"
  by (auto simp: wp_def give_def fail_def lift_result_def)

lemma wp_choice: "wp a Q t \<Longrightarrow> wp b Q t \<Longrightarrow> wp (\<lambda>d. if q d then a d else b d) Q t"
  and wp_fail_on: "(\<And>e. Q t (Inl e)) \<Longrightarrow> wp (\<lambda>d. fail (h d) d) Q t"
  by (auto simp: wp_def fail_def)

lemma wp_io_error:
  "wp m (\<lambda>t' r. Q t' (case r of Inl k \<Rightarrow> Inl (Io c (join ''/'' p) k) | Inr x \<Rightarrow> Inr x)) t \<Longrightarrow> wp (io_error c p m) Q t"
  unfolding wp_def by (auto simp: io_error_def split: prod.splits sum.splits)

lemma wp_ignore: "wp m (\<lambda>t' r. Q t' (Inr ())) t \<Longrightarrow> wp (ignore m) Q t"
  by (simp add: wp_def ignore_def)

lemma wp_new_v4: "(\<And>u. Q t (Inr u)) \<Longrightarrow> wp (new_v4 env) Q t"
  by (auto simp: wp_def new_v4_def)

lemma wp_metadata:
  assumes "\<And>n. t p = Some n \<Longrightarrow> Q t (Inr n)" "t p = None \<Longrightarrow> Q t (Inl NotFound)" "\<And>k. opaque k \<Longrightarrow> Q t (Inl k)"
  shows "wp (node_metadata p) Q t"
  unfolding node_metadata_def using assms by (intro wp_call) (auto split: option.splits)

lemma wp_handle: "(\<And>r. Q t r) \<Longrightarrow> wp (touch_handle p) Q t"
  unfolding touch_handle_def by (intro wp_call) auto

lemma wp_read_file:
  assumes "\<And>bytes m. t p = Some (LFile bytes m) \<Longrightarrow> Q t (Inr bytes)" "\<And>k. Q t (Inl k)"
  shows "wp (read_file p) Q t"
  unfolding read_file_def using assms by (intro wp_call) (auto split: option.splits LNode.splits)

section \<open>Relations kept by the store\<close>

definition preserves :: "(tree_view \<Rightarrow> tree_view \<Rightarrow> bool) \<Rightarrow> (Disk, 'e, 'a) eff \<Rightarrow> bool" where
  "preserves R m \<longleftrightarrow> (\<forall>d. R (node d) (node (fst (m d))))"

lemma wp_preserves: "preserves R m \<Longrightarrow> (\<And>t' r. R t t' \<Longrightarrow> Q t' r) \<Longrightarrow> wp m Q t"
  by (auto simp: wp_def preserves_def)

lemma preserves_call:
  assumes "\<And>d. R (node d) (node d)" "\<And>d. R (node d) (node (fst (f d)))" "\<And>d. R (node d) (node (partial d))"
  shows "preserves R (call partial f)"
proof -
  have "R (node d) (node (fst (call partial f d)))" for d
  proof -
    obtain d1 where "node d1 = node d" "call partial f d = f d1 \<or>
        (\<exists>k. opaque k \<and> (call partial f d = (partial d1, Inl k) \<or> call partial f d = (d1, Inl k)))"
      using call_outcome[of d partial f] by blast
    then show ?thesis using assms(1,2,3)[of d1] by auto
  qed
  then show ?thesis by (simp add: preserves_def)
qed

text \<open>A relation between trees that programs keep when their parts do.\<close>

locale tree_relation =
  fixes R :: "tree_view \<Rightarrow> tree_view \<Rightarrow> bool"
  assumes refl: "R t t" and trans: "R t u \<Longrightarrow> R u v \<Longrightarrow> R t v"
begin

lemma bind: "preserves R m \<Longrightarrow> (\<And>x. preserves R (f x)) \<Longrightarrow> preserves R (io_bind m f)"
  unfolding preserves_def io_bind_def by (auto split: prod.splits sum.splits) (metis fst_conv trans)+

lemma bind_lift: "(\<And>x. r = Inr x \<Longrightarrow> preserves R (f x)) \<Longrightarrow> preserves R (io_bind (lift_result r) f)"
  by (cases r) (auto simp: preserves_def io_bind_def lift_result_def refl)

lemma bind_temporary:
  "(\<And>u. preserves R (f [''tmp'', kind @ ''-'' @ u @ ''.tmp''])) \<Longrightarrow> preserves R (io_bind (temporary_path env kind) f)"
  unfolding preserves_def temporary_path_def by (simp add: io_bind_def new_v4_def give_def) (metis node_simps(3))

lemma cases_of: "preserves R m \<Longrightarrow> (\<And>e. preserves R (h e)) \<Longrightarrow> (\<And>x. preserves R (f x)) \<Longrightarrow> preserves R (io_match m h f)"
  unfolding preserves_def io_match_def by (auto split: prod.splits sum.splits) (metis fst_conv trans)+

lemma pure:
  "preserves R (give x)" "preserves R (fail e)" "preserves R (lift_result r)" "preserves R (new_v4 env)"
  by (auto simp: preserves_def give_def fail_def lift_result_def new_v4_def refl)

lemma wrapped: "preserves R m \<Longrightarrow> preserves R (io_error c p m)" "preserves R n \<Longrightarrow> preserves R (ignore n)"
  by (auto simp: preserves_def io_error_def ignore_def split: prod.splits sum.splits) (metis fst_conv)+

lemma conditional:
  "(c \<Longrightarrow> preserves R a) \<Longrightarrow> (\<not> c \<Longrightarrow> preserves R b) \<Longrightarrow> preserves R (if c then a else b)"
  by simp

lemma conditional_on: "preserves R a \<Longrightarrow> preserves R b \<Longrightarrow> preserves R (\<lambda>d. if q d then a d else b d)"
  by (simp add: preserves_def)

lemma branches:
  "(\<And>b m. preserves R (f b m)) \<Longrightarrow> preserves R g \<Longrightarrow> preserves R h \<Longrightarrow>
     preserves R (case n of LFile b m \<Rightarrow> f b m | LDir \<Rightarrow> g | LOther \<Rightarrow> h)"
  "preserves R i \<Longrightarrow> (\<And>x. preserves R (j x)) \<Longrightarrow> preserves R (case y of None \<Rightarrow> i | Some x \<Rightarrow> j x)"
  "(\<And>e. preserves R (k e)) \<Longrightarrow> (\<And>z. preserves R (l z)) \<Longrightarrow> preserves R (case w of Inl e \<Rightarrow> k e | Inr z \<Rightarrow> l z)"
  "(\<And>u v. preserves R (o' u v)) \<Longrightarrow> preserves R (case pr of (u, v) \<Rightarrow> o' u v)"
  by (simp_all split: LNode.splits option.splits sum.splits prod.splits)

lemma queries:
  "preserves R (node_metadata p)" "preserves R (touch_handle p)" "preserves R (read_file p)" "preserves R (read_dir p)"
  "preserves R (call id (give x))"
  unfolding node_metadata_def touch_handle_def read_file_def read_dir_def give_def
  by (auto intro!: preserves_call simp: refl)

lemma stateful: "preserves R (\<lambda>d. give (g d) d)" "preserves R (\<lambda>d. fail (h d) d)"
  by (simp_all add: preserves_def give_def fail_def refl)

lemma each: "(\<And>x. preserves R (f x)) \<Longrightarrow> preserves R (io_each f xs)"
proof (induction xs)
  case (Cons x xs)
  then show ?case using bind[of "f x" "\<lambda>_. io_each f xs"] by (simp add: preserves_def)
qed (simp add: preserves_def refl)

lemmas rules = bind cases_of pure wrapped conditional conditional_on branches queries stateful each

lemma helpers: "preserves R (sync_directory p)" "preserves R (is_current_file p)"
  unfolding sync_directory_def is_current_file_def by (intro rules)+

lemma verify: "preserves R (verify_encoded_blob blake3 zstd io p b n)"
  unfolding verify_encoded_blob_def by (intro rules)

lemma visitor:
  assumes "\<And>p acc. preserves R (visit p acc)"
  shows "preserves R (visit_entries limit visit dir names visited pending acc)"
    "preserves R (visit_dirs fuel limit visit pending visited acc)"
proof -
  show entries: "preserves R (visit_entries limit visit dir names visited pending acc)" for dir names visited pending acc
    by (induction names arbitrary: visited pending acc) (auto intro!: rules assms)
  show "preserves R (visit_dirs fuel limit visit pending visited acc)"
  proof (induction fuel arbitrary: pending visited acc)
    case 0
    show ?case by (cases pending) (auto intro!: rules)
  next
    case (Suc fuel)
    then show ?case by (cases pending) (auto intro!: rules entries)
  qed
qed

lemma sizes:
  "preserves R (file_size p)" "preserves R (file_size_if_present p)" "preserves R (path_exists p)" "preserves R (older_than p n k)"
  unfolding file_size_def file_size_if_present_def path_exists_def older_than_def by (intro rules)+

lemma scans: "preserves R (regular_files root limit)" "preserves R (directory_bytes root limit)"
  unfolding regular_files_def directory_bytes_def visit_regular_files_def by (intro visitor rules sizes)+

lemma planning: "preserves R (plan_loop c time projected references planned actions)"
  by (induction actions arbitrary: projected references planned) (auto simp: Let_def intro!: rules sizes)

end

text \<open>Relations that directories do not matter for.\<close>

locale dir_relation = tree_relation +
  assumes create_dir: "preserves R (create_dir p)"
    and remove_dir: "preserves R (remove_dir p)"
begin

lemma cache_directory: "preserves R (create_cache_directory p)"
  unfolding create_cache_directory_def by (intro rules create_dir)

lemma parent_loop: "preserves R (parent_loop create current cs)"
  by (induction create current cs rule: parent_loop.induct) (auto simp: Let_def intro!: rules cache_directory)

lemma parent: "preserves R (validate_cache_parent p create)"
  unfolding validate_cache_parent_def by (rule parent_loop)

lemma dir_all: "preserves R (make_dirs current cs)"
  by (induction current cs rule: make_dirs.induct) (auto simp: Let_def intro!: rules create_dir)

lemma empty_children: "preserves R (remove_empty_children root limit)"
proof -
  have dirs: "preserves R (remove_dirs ps)" for ps
    by (induction ps rule: remove_dirs.induct) (auto intro!: rules remove_dir)
  have entries: "preserves R (scan_entries limit dir names visited pending found)" for dir names visited pending found
    by (induction names arbitrary: visited pending found) (auto intro!: rules)
  have "preserves R (scan_loop fuel limit pending visited found)" for fuel pending visited found
  proof (induction fuel arbitrary: pending visited found)
    case 0
    show ?case by (cases pending) (auto intro!: rules)
  next
    case (Suc fuel)
    then show ?case by (cases pending) (auto intro!: rules entries)
  qed
  then show ?thesis unfolding remove_empty_children_def by (intro rules dirs)
qed

end

text \<open>Objects are the files below the two object directories, apart from the access markers.\<close>

definition object_path :: "lpath \<Rightarrow> bool" where
  "object_path p \<longleftrightarrow> p \<noteq> [] \<and> hd p \<in> {''actions'', ''blobs''} \<and> extension (last p) \<noteq> Some ''access''"

lemma object_path_simps [simp]:
  "\<not> object_path (''locks'' # q)" "\<not> object_path (''quarantine'' # q)" "\<not> object_path (''tmp'' # q)" "\<not> object_path STATE_FILE"
  by (simp_all add: object_path_def STATE_FILE_def)

lemma extension_access: "s \<noteq> [] \<Longrightarrow> extension (s @ ''.access'') = Some ''access''"
  by (simp add: extension_def)

lemma file_stem_nonempty: "n \<noteq> [] \<Longrightarrow> file_stem n \<noteq> []"
  by (auto simp: file_stem_def split: list.splits)

lemma marker_no_object: "last p \<noteq> [] \<Longrightarrow> \<not> object_path (with_extension p ''access'')"
  using extension_access[OF file_stem_nonempty, of "last p"] by (simp add: object_path_def with_extension_def)

lemma with_extension_head: "p = a # b # q \<Longrightarrow> with_extension p e = a # butlast (b # q) @ [file_stem (last p) @ ''.'' @ e]"
  by (simp add: with_extension_def)

locale store_relation = dir_relation +
  assumes create_new: "\<not> object_path p \<Longrightarrow> preserves R (create_new p)"
    and write_all: "\<not> object_path p \<Longrightarrow> preserves R (write_all p bs)"
    and fs_write: "\<not> object_path p \<Longrightarrow> preserves R (fs_write p bs)"
    and rename: "\<not> object_path q \<Longrightarrow> preserves R (rename p q)"
    and remove_file: "preserves R (remove_file p)"
begin

lemma lock_file: "\<not> object_path p \<Longrightarrow> preserves R (open_lock_file p)"
  unfolding open_lock_file_def by (intro rules helpers create_new)

lemma lock: "\<not> object_path p \<Longrightarrow> preserves R (acquire_lock p exclusive)"
  unfolding acquire_lock_def by (intro rules dir_all lock_file)

lemma sampled: "last p \<noteq> [] \<Longrightarrow> preserves R (record_sampled_access p interval)"
  unfolding record_sampled_access_def refresh_marker_def Let_def
  by (intro rules remove_file create_new marker_no_object)

lemma ledger:
  "preserves R ledger_lock" "preserves R read_sync" "preserves R (write_sync n)" "preserves R old_state_bytes"
proof -
  show "preserves R ledger_lock" unfolding ledger_lock_def by (intro rules lock_file) simp
  show "preserves R read_sync" unfolding read_sync_def by (intro rules helpers)
  show "preserves R (write_sync n)"
    unfolding write_sync_def Let_def by (intro rules helpers create_new write_all) simp_all
  show "preserves R old_state_bytes" unfolding old_state_bytes_def by (intro rules remove_file)
qed

lemma accounts: "preserves R used" "preserves R (try_reserve n k)" "preserves R (release n)" "preserves R (reconcile n)"
  unfolding used_def try_reserve_def release_def reconcile_def by (intro rules ledger)+

lemma ledger_open: "preserves R (ledger_open limit)"
  unfolding ledger_open_def by (intro rules ledger scans)

lemma retry: "preserves R (remove_file_retry_later p)"
  unfolding remove_file_retry_later_def by (intro rules remove_file)

lemma aged: "preserves R (remove_aged time grace files n)"
  by (induction time grace files n rule: remove_aged.induct) (auto intro!: rules sizes retry)

lemma orphans: "preserves R (remove_orphans time grace files n)"
  by (induction time grace files n rule: remove_orphans.induct) (auto intro!: rules sizes retry)

lemma maintenance: "preserves R (run_maintenance env time)"
  unfolding run_maintenance_def cleanup_aged_files_def cleanup_orphan_access_markers_def Let_def
  by (intro rules scans aged empty_children orphans)

lemma invalid_action: "preserves R (gc_quarantine_action env p reason)"
proof -
  have "\<not> object_path (with_extension [''quarantine'', n] ''reason'')" for n by (simp add: with_extension_def)
  then show ?thesis
    unfolding gc_quarantine_action_def Let_def by (intro rules helpers retry rename fs_write) auto
qed

lemma loading: "preserves R (load_loop env files acc)"
proof (induction files arbitrary: acc)
  case (Cons p files)
  have "preserves R (access_time p)" unfolding access_time_def Let_def by (intro rules)
  then show ?case using Cons by (auto intro!: rules sizes invalid_action)
qed (simp add: pure)

lemma load: "preserves R (load_actions env)"
  unfolding load_actions_def by (intro rules scans loading)

lemma evicting: "preserves R (remove_planned paths removed)"
  by (induction paths removed rule: remove_planned.induct) (auto intro!: rules retry helpers)

lemma sweeping: "preserves R (sweep_blobs reachable time grace files n)"
  by (induction reachable time grace files n rule: sweep_blobs.induct) (auto intro!: rules sizes retry)

lemma evict: "preserves R (evict_and_sweep env time n)"
  unfolding evict_and_sweep_def Let_def by (intro rules load planning evicting scans sweeping empty_children)

lemma pass: "preserves R (collect_locked env force)"
proof -
  have "preserves R (collect_at env force time)" for time
    unfolding collect_at_def Let_def by (intro rules scans maintenance evict)
  then show ?thesis by (simp add: preserves_def collect_locked_def)
qed

lemma collecting: "preserves R (collect env force)"
  unfolding collect_def by (intro rules lock accounts pass) simp

lemma lock_paths [simp]: "\<not> object_path gc_lock_path" "\<not> object_path (object_lock_path env key)"
  by (simp_all add: gc_lock_path_def object_lock_path_def)

lemma quarantines:
  "preserves R (quarantine_locked env p reason)" "preserves R (quarantine env p reason)" "preserves R (quarantine_blob env b reason)"
  "preserves R (quarantine_action env p reason)"
proof -
  have "\<not> object_path (with_extension [''quarantine'', n] ''reason'')" for n by (simp add: with_extension_def)
  then show *: "preserves R (quarantine_locked env p reason)" for p reason
    unfolding quarantine_locked_def Let_def by (intro rules parent helpers rename fs_write) auto
  show **: "preserves R (quarantine env p reason)" for p reason
    unfolding quarantine_def by (intro rules lock * lock_paths)
  show "preserves R (quarantine_blob env b reason)" "preserves R (quarantine_action env p reason)"
    unfolding quarantine_blob_def quarantine_action_def by (intro rules **)+
qed

lemma conflict: "preserves R (quarantine_conflicting_action env namespace r)"
  unfolding quarantine_conflicting_action_def by (intro rules lock lock_paths parent quarantines)

lemma existing: "preserves R (existing_blob_is_valid env b)"
  unfolding existing_blob_is_valid_def verify_blob_file_def Let_def by (intro rules parent verify quarantines)

lemma reserve: "preserves R (reserve_capacity env n)"
  unfolding reserve_capacity_def Let_def by (intro rules lock lock_paths accounts collecting)

lemma finish: "preserves R (finish_reservation n r)"
  unfolding finish_reservation_def by (intro rules accounts)

lemma startup: "preserves R (store_open env)"
  unfolding store_open_def by (intro rules helpers cache_directory lock_file lock_paths ledger_open)

lemma reading:
  "preserves R (local_get_action env namespace key)" "preserves R (local_find_missing_blobs env bs)"
  "preserves R (local_read_blob env b)" "preserves R (local_recover_corrupt_blob env b)"
proof -
  have name: "last p \<noteq> []" if "action_path env namespace key = Inr p" for p
    using that by (auto simp: action_path_def action_file_name_def result_simps)
  have "preserves R (missing_loop bs absent corrupt)" for absent corrupt
    by (induction bs arbitrary: absent corrupt) (auto simp: Let_def intro!: rules parent)
  then show "preserves R (local_find_missing_blobs env bs)"
    unfolding local_find_missing_blobs_def by (intro rules lock lock_paths quarantines)
  show read: "preserves R (local_read_blob env b)" for b
    unfolding local_read_blob_def Let_def by (intro rules lock lock_paths parent quarantines)
  then show "preserves R (local_recover_corrupt_blob env b)"
    unfolding local_recover_corrupt_blob_def by (intro rules existing)
  show "preserves R (local_get_action env namespace key)"
    unfolding local_get_action_def
    by (rule bind_lift, intro rules lock lock_paths parent quarantines sampled name)
qed

end

section \<open>Interpretations\<close>

text \<open>No object file appears or changes, except for complete files at one place.\<close>

definition only_new :: "lpath \<Rightarrow> (u8 list \<Rightarrow> bool) \<Rightarrow> tree_view \<Rightarrow> tree_view \<Rightarrow> bool" where
  "only_new q0 V t t' \<longleftrightarrow>
     (\<forall>q bytes m. object_path q \<longrightarrow> t' q = Some (LFile bytes m) \<longrightarrow> t q = Some (LFile bytes m) \<or> q = q0 \<and> V bytes)"

text \<open>Every node lies in a directory.\<close>

definition tree_ok :: "tree_view \<Rightarrow> bool" where
  "tree_ok t \<longleftrightarrow> (\<forall>p c. t (p @ [c]) \<noteq> None \<longrightarrow> p = [] \<or> t p = Some LDir)"

interpretation files: store_relation "only_new q0 V" for q0 V
proof
  show "only_new q0 V t t" for t by (simp add: only_new_def)
  show "only_new q0 V t u \<Longrightarrow> only_new q0 V u v \<Longrightarrow> only_new q0 V t v" for t u v
    unfolding only_new_def by meson
  show "preserves (only_new q0 V) (create_new p)" if "\<not> object_path p" for p
    unfolding create_new_def using that by (intro preserves_call) (auto simp: only_new_def)
  show "preserves (only_new q0 V) (write_all p bs)" if "\<not> object_path p" for p bs
    unfolding write_all_def write_content_def using that
    by (intro preserves_call) (auto simp: only_new_def split: option.splits LNode.splits)
  show "preserves (only_new q0 V) (fs_write p bs)" if "\<not> object_path p" for p bs
    unfolding fs_write_def using that by (intro preserves_call) (auto simp: only_new_def)
  show "preserves (only_new q0 V) (rename p q)" if "\<not> object_path q" for p q
    unfolding rename_def using that by (intro preserves_call) (auto simp: only_new_def split: option.splits)
  show "preserves (only_new q0 V) (remove_file p)" for p
    unfolding remove_file_def by (intro preserves_call) (auto simp: only_new_def split: option.splits LNode.splits)
  show "preserves (only_new q0 V) (create_dir p)" for p
    unfolding create_dir_def by (intro preserves_call) (auto simp: only_new_def)
  show "preserves (only_new q0 V) (remove_dir p)" for p
    unfolding remove_dir_def by (intro preserves_call) (auto simp: only_new_def)
qed

lemma tree_ok_set:
  assumes "tree_ok t" "p = [] \<or> butlast p = [] \<or> t (butlast p) = Some LDir" "t p \<noteq> Some LDir"
  shows "tree_ok (t(p \<mapsto> n))"
  unfolding tree_ok_def
proof (intro allI impI)
  fix q c
  assume c: "(t(p \<mapsto> n)) (q @ [c]) \<noteq> None"
  show "q = [] \<or> (t(p \<mapsto> n)) q = Some LDir"
  proof (cases "q @ [c] = p")
    case True
    then have "q = [] \<or> t q = Some LDir" using assms(2) by auto
    moreover have "q \<noteq> p" using True by auto
    ultimately show ?thesis by auto
  next
    case False
    then have "q = [] \<or> t q = Some LDir" using c assms(1) by (auto simp: tree_ok_def)
    then show ?thesis using assms(3) by auto
  qed
qed

lemma tree_ok_unset:
  assumes "tree_ok t" "p \<noteq> [] \<Longrightarrow> (\<And>c. t (p @ [c]) = None)"
  shows "tree_ok (t(p := None))"
  using assms by (cases "p = []") (auto simp: tree_ok_def)

lemma tree_ok_leaf: "tree_ok t \<Longrightarrow> t p \<noteq> Some LDir \<Longrightarrow> p \<noteq> [] \<Longrightarrow> t (p @ [c]) = None"
  unfolding tree_ok_def by metis

lemma children_iff: "c \<in> set (children d p) \<longleftrightarrow> node d (p @ [c]) \<noteq> None"
proof
  assume "c \<in> set (children d p)"
  then obtain q n where q: "(q, n) \<in> set (tree d)" "q \<noteq> []" "butlast q = p" "last q = c" by (auto simp: children_def)
  then have "q = p @ [c]" using append_butlast_last_id[of q] by simp
  then show "node d (p @ [c]) \<noteq> None" using q(1) by (auto simp: node_def map_of_eq_None_iff intro: rev_image_eqI)
next
  assume "node d (p @ [c]) \<noteq> None"
  then have "p @ [c] \<in> set (map fst (tree d))" by (simp add: node_def map_of_eq_None_iff)
  then show "c \<in> set (children d p)" unfolding children_def by (force intro!: image_eqI[of _ last "p @ [c]"])
qed

interpretation shape: store_relation "\<lambda>t t'. tree_ok t \<longrightarrow> tree_ok t'"
proof
  let ?S = "\<lambda>t t'. tree_ok t \<longrightarrow> tree_ok t'"
  show "tree_ok t \<longrightarrow> tree_ok t" for t by simp
  show "?S t u \<Longrightarrow> ?S u v \<Longrightarrow> ?S t v" for t u v by simp
  show "preserves ?S (create_new p)" for p
    unfolding create_new_def by (intro preserves_call) (auto simp: has_dir_def intro!: tree_ok_set)
  show "preserves ?S (write_all p bs)" for p bs
  proof -
    have "tree_ok (node (write_content p x d))" if "tree_ok (node d)" for x d
    proof (cases "node d p")
      case (Some n)
      have "butlast p = [] \<or> node d (butlast p) = Some LDir" if "p \<noteq> []"
        using \<open>tree_ok (node d)\<close> that Some append_butlast_last_id[of p] unfolding tree_ok_def by (metis option.distinct(1))
      then show ?thesis using that Some tree_ok_set[of "node d" p] by (cases n) (auto simp: write_content_def)
    qed (use that in \<open>simp add: write_content_def\<close>)
    then show ?thesis unfolding write_all_def by (intro preserves_call) auto
  qed
  show "preserves ?S (fs_write p bs)" for p bs
    unfolding fs_write_def by (intro preserves_call) (auto simp: has_dir_def intro!: tree_ok_set)
  show "preserves ?S (remove_file p)" for p
    unfolding remove_file_def
    by (intro preserves_call) (auto split: option.splits LNode.splits intro!: tree_ok_unset tree_ok_leaf)
  show "preserves ?S (create_dir p)" for p
    unfolding create_dir_def by (intro preserves_call) (auto simp: has_dir_def intro!: tree_ok_set)
  show "preserves ?S (remove_dir p)" for p
  proof -
    have "node d (p @ [c]) = None" if "children d p = []" for d c using that children_iff[of c d p] by simp
    then show ?thesis unfolding remove_dir_def by (intro preserves_call) (auto intro!: tree_ok_unset)
  qed
  show "preserves ?S (rename p q)" for p q
  proof -
    have "tree_ok ((node d)(p := None, q \<mapsto> n))"
      if "tree_ok (node d)" "node d p = Some n" "n \<noteq> LDir" "has_dir d (butlast q)" "node d q \<noteq> Some LDir" for d n
    proof -
      have "tree_ok ((node d)(p := None))" using that by (intro tree_ok_unset tree_ok_leaf) auto
      then show ?thesis using that by (intro tree_ok_set) (auto simp: has_dir_def)
    qed
    then show ?thesis unfolding rename_def by (intro preserves_call) (auto split: option.splits)
  qed
qed

section \<open>Publication\<close>

text \<open>Nothing changes in the directory \<open>h\<close> of the layout.\<close>

definition same_below :: "string \<Rightarrow> tree_view \<Rightarrow> tree_view \<Rightarrow> bool" where
  "same_below h t t' \<longleftrightarrow> (\<forall>q. t' (h # q) = t (h # q))"

interpretation area: tree_relation "same_below h" for h
  by unfold_locales (auto simp: same_below_def)

text \<open>Reading changes nothing.\<close>

interpretation still: tree_relation "\<lambda>t t'. t' = t"
  by unfold_locales auto

lemma same_below_create:
  "p \<noteq> [] \<Longrightarrow> hd p \<noteq> h \<Longrightarrow> preserves (same_below h) (create_new p)"
  "p \<noteq> [] \<Longrightarrow> hd p \<noteq> h \<Longrightarrow> preserves (same_below h) (create_dir p)"
  unfolding create_new_def create_dir_def by (auto intro!: preserves_call simp: same_below_def)

lemma same_below_parent: "current @ cs \<noteq> [] \<Longrightarrow> hd (current @ cs) \<noteq> h \<Longrightarrow> preserves (same_below h) (parent_loop create current cs)"
proof (induction cs arbitrary: current)
  case (Cons c cs)
  have "hd (current @ [c]) \<noteq> h" using Cons.prems by (cases current) auto
  then show ?case using Cons.IH[of "current @ [c]"] Cons.prems
    by (auto simp: Let_def create_cache_directory_def intro!: area.rules same_below_create)
qed (auto intro: area.rules)

lemma same_below_dirs: "current @ cs \<noteq> [] \<Longrightarrow> hd (current @ cs) \<noteq> h \<Longrightarrow> preserves (same_below h) (make_dirs current cs)"
proof (induction cs arbitrary: current)
  case (Cons c cs)
  have "hd (current @ [c]) \<noteq> h" using Cons.prems by (cases current) auto
  then show ?case using Cons.IH[of "current @ [c]"] Cons.prems
    by (auto simp: Let_def intro!: area.rules same_below_create)
qed (auto intro: area.rules)

lemma same_below_lock:
  assumes "p = a # b # q" "a \<noteq> h"
  shows "preserves (same_below h) (acquire_lock p exclusive)"
proof -
  have "preserves (same_below h) (open_lock_file p)"
    unfolding open_lock_file_def is_current_file_def using assms by (intro area.rules same_below_create) auto
  then show ?thesis
    unfolding acquire_lock_def using assms by (intro area.rules same_below_dirs) auto
qed

lemma same_below_object_lock: "h \<noteq> ''locks'' \<Longrightarrow> preserves (same_below h) (acquire_lock (object_lock_path env k) exclusive)"
  unfolding object_lock_path_def by (rule same_below_lock[OF HOL.refl]) simp

lemma wp_both: "wp m Q t \<Longrightarrow> wp m Q' t \<Longrightarrow> wp m (\<lambda>t' r. Q t' r \<and> Q' t' r) t"
  by (simp add: wp_def)

lemma wp_skip:
  assumes "preserves R m" "\<And>t' e. R t t' \<Longrightarrow> Q t' (Inl e)" "\<And>t' x. R t t' \<Longrightarrow> wp (f x) Q t'"
  shows "wp (io_bind m f) Q t"
  using assms by (intro wp_bind wp_preserves[of R]) (auto split: sum.splits)

lemma wp_rename:
  assumes "\<And>n. t p = Some n \<Longrightarrow> n \<noteq> LDir \<Longrightarrow> Q (t(p := None, q \<mapsto> n)) (Inr ())" "\<And>k. Q t (Inl k)"
  shows "wp (rename p q) Q t"
  unfolding rename_def using assms by (intro wp_call) (auto split: option.splits)

lemma preserves_both: "preserves R m \<Longrightarrow> preserves R' m \<Longrightarrow> preserves (\<lambda>t t'. R t t' \<and> R' t t') m"
  by (simp add: preserves_def)

text \<open>Publishing a staged file: only the staged content can appear, and a written object has it.\<close>

lemma publish_staged:
  assumes "only_new dest V t0 t" "t temp = Some (LFile bytes m)" "V bytes"
  shows "wp (publish_rename temp dest)
      (\<lambda>t' r. only_new dest V t0 t' \<and> r \<noteq> Inr Conflict \<and>
        (r = Inr Written \<longrightarrow> t dest = None \<and> t' dest = Some (LFile bytes m))) t"
proof -
  have moved: "only_new dest V t0 (t(temp := None, dest \<mapsto> LFile bytes m))"
    using assms by (auto simp: only_new_def)
  have removed: "preserves (only_new dest V) (ignore (remove_file temp) :: (Disk, CacheError, unit) eff)"
    by (intro files.rules files.remove_file)
  show ?thesis
    unfolding publish_rename_def
  proof (intro wp_match wp_metadata, goal_cases)
    case (1 n)
    show ?case using assms(1)
      by (auto intro!: wp_give wp_fail wp_skip[OF removed] intro: files.trans)
  next
    case 2
    then show ?case using assms moved
      by (auto intro!: wp_fail wp_give wp_bind wp_io_error wp_rename wp_preserves[OF still.helpers(1)] split: sum.splits)
  next
    case (3 k)
    then show ?case using assms(1) by (auto simp: opaque_def intro!: wp_fail)
  qed
qed

lemma publish_temporary_complete:
  assumes dest: "dest = a # b # q" "a \<noteq> ''tmp''" and temp: "temp = ''tmp'' # x" "t temp = Some (LFile bytes m)" "V bytes"
    and t0: "only_new dest V t0 t"
  shows "wp (publish_temporary env temp dest)
    (\<lambda>t' r. only_new dest V t0 t' \<and> r \<noteq> Inr Conflict \<and> (r = Inr Written \<longrightarrow> t' dest = Some (LFile bytes m))) t"
proof -
  let ?R = "\<lambda>t t'. only_new dest V t t' \<and> same_below ''tmp'' t t'"
  have parent: "preserves ?R (validate_cache_parent dest True)"
    unfolding validate_cache_parent_def using dest by (intro preserves_both files.parent_loop same_below_parent) auto
  have lock: "preserves ?R (acquire_lock (object_lock_path env k) True)" for k
    by (intro preserves_both files.lock files.lock_paths same_below_lock) (auto simp: object_lock_path_def)
  show ?thesis
    unfolding publish_temporary_def
  proof (rule wp_skip[OF parent])
    fix t1 assume t1: "?R t t1"
    then have old: "only_new dest V t0 t1" using t0 files.trans by blast
    then show "only_new dest V t0 t1 \<and> Inl e \<noteq> Inr Conflict \<and> (Inl e = Inr Written \<longrightarrow> t1 dest = Some (LFile bytes m))" for e by simp
    show "wp (io_bind (acquire_lock (object_lock_path env (join ''/'' dest)) True) (\<lambda>_. publish_rename temp dest))
        (\<lambda>t' r. only_new dest V t0 t' \<and> r \<noteq> Inr Conflict \<and> (r = Inr Written \<longrightarrow> t' dest = Some (LFile bytes m))) t1"
    proof (rule wp_skip[OF lock])
      fix t2 assume t2: "?R t1 t2"
      then have old2: "only_new dest V t0 t2" using old files.trans by blast
      then show "only_new dest V t0 t2 \<and> Inl e \<noteq> Inr Conflict \<and> (Inl e = Inr Written \<longrightarrow> t2 dest = Some (LFile bytes m))" for e by simp
      have "t2 temp = Some (LFile bytes m)" using t1 t2 temp by (simp add: same_below_def)
      from publish_staged[OF old2 this temp(3)] show "wp (publish_rename temp dest)
          (\<lambda>t' r. only_new dest V t0 t' \<and> r \<noteq> Inr Conflict \<and> (r = Inr Written \<longrightarrow> t' dest = Some (LFile bytes m))) t2"
        by (rule wp_mono) simp
    qed
  qed
qed

text \<open>What holds whenever a program succeeds.\<close>

definition succeeds :: "(Disk, 'e, 'a) eff \<Rightarrow> (tree_view \<Rightarrow> 'a \<Rightarrow> bool) \<Rightarrow> tree_view \<Rightarrow> bool" where
  "succeeds m S t \<longleftrightarrow> wp m (\<lambda>t' r. \<forall>x. r = Inr x \<longrightarrow> S t' x) t"

lemma succeeds_bind:
  "succeeds m M t \<Longrightarrow> (\<And>t' x. M t' x \<Longrightarrow> succeeds (f x) S t') \<Longrightarrow> succeeds (io_bind m f) S t"
  unfolding succeeds_def by (rule wp_bind, erule wp_mono) (auto split: sum.splits)

lemma succeeds_skip: "(\<And>t' x. succeeds (f x) S t') \<Longrightarrow> succeeds (io_bind m f) S t"
  by (rule succeeds_bind[of _ "\<lambda>_ _. True"]) (auto simp: succeeds_def wp_def)

lemma succeeds_match:
  "(\<And>t' e. succeeds (h e) S t') \<Longrightarrow> (\<And>t' x. succeeds (f x) S t') \<Longrightarrow> succeeds (io_match m h f) S t"
  unfolding succeeds_def by (rule wp_match) (auto simp: wp_def split: sum.splits)

lemma succeeds_or_remove: "succeeds m S t \<Longrightarrow> succeeds (or_remove p m) S t"
  unfolding succeeds_def or_remove_def
  by (rule wp_match, erule wp_mono) (auto simp: wp_def give_def fail_def io_bind_def ignore_def split: sum.splits)

lemma succeeds_simps [simp]: "succeeds (fail e) S t" "S t x \<Longrightarrow> succeeds (give x) S t"
  by (auto simp: succeeds_def wp_def fail_def give_def)

lemma succeeds_conditional: "succeeds a S t \<Longrightarrow> succeeds b S t \<Longrightarrow> succeeds (if c then a else b) S t"
  by simp

lemma succeeds_verify:
  "succeeds (verify_encoded_blob blake3 zstd io p b n)
     (\<lambda>t' _. \<exists>bytes m. t' p = Some (LFile bytes m) \<and> verify_bytes blake3 zstd b bytes = Inr ()) t"
  unfolding verify_encoded_blob_def succeeds_def
  by (auto intro!: wp_bind wp_io_error wp_handle wp_metadata wp_choice wp_fail_on wp_match wp_read_file wp_fail wp_lift
      split: sum.splits)

lemma wp_step:
  assumes "preserves R m" "succeeds m S t" "\<And>t' e. R t t' \<Longrightarrow> Q t' (Inl e)" "\<And>t' x. R t t' \<Longrightarrow> S t' x \<Longrightarrow> wp (f x) Q t'"
  shows "wp (io_bind m f) Q t"
proof (rule wp_bind, rule wp_mono)
  show "wp m (\<lambda>t' r. R t t' \<and> (\<forall>x. r = Inr x \<longrightarrow> S t' x)) t"
    using assms(1,2) by (auto simp: wp_def succeeds_def preserves_def)
qed (use assms in \<open>auto split: sum.splits\<close>)

lemma wp_or_remove:
  assumes "wp m Q t" "preserves R (remove_file p)" "\<And>t' t'' e. Q t' (Inl e) \<Longrightarrow> R t' t'' \<Longrightarrow> Q t'' (Inl e)"
  shows "wp (or_remove p m) Q t"
  unfolding or_remove_def
proof (rule wp_match, rule wp_mono[OF assms(1)])
  fix t' r assume "Q t' r"
  then show "case r of Inl e \<Rightarrow> wp (io_bind (ignore (remove_file p)) (\<lambda>_. fail e)) Q t' | Inr x \<Rightarrow> wp (give x) Q t'"
    using assms(2,3) by (auto simp: wp_def preserves_def ignore_def io_bind_def fail_def give_def split: sum.splits)
qed

text \<open>A blob is complete when its bytes verify against the descriptor.\<close>

abbreviation complete_blob :: "('v, 'z) StoreEnv_scheme \<Rightarrow> BlobDescriptor \<Rightarrow> u8 list \<Rightarrow> bool" where
  "complete_blob env b bytes \<equiv> verify_bytes (blake3_of env) (zstd_of env) b bytes = Inr ()"

lemma stage_blob_effects:
  assumes "\<not> object_path temp"
  shows "preserves (only_new q V) (stage_blob env b body temp)"
    "succeeds (stage_blob env b body temp) (\<lambda>t' _. \<exists>bytes m. t' temp = Some (LFile bytes m) \<and> complete_blob env b bytes) t"
proof -
  have copy: "preserves (only_new q V) (copy_limited body n temp)" for n
    unfolding copy_limited_def by (intro files.rules files.write_all assms)
  show "preserves (only_new q V) (stage_blob env b body temp)"
    unfolding stage_blob_def or_remove_def verify_blob_file_def by (intro files.rules files.remove_file files.verify copy)
  show "succeeds (stage_blob env b body temp) (\<lambda>t' _. \<exists>bytes m. t' temp = Some (LFile bytes m) \<and> complete_blob env b bytes) t"
    unfolding stage_blob_def verify_blob_file_def by (intro succeeds_skip succeeds_or_remove succeeds_verify)
qed

lemma blob_path_cases:
  obtains x y where "blob_relative_path b = [''blobs'', ''blake3'', x, y]"
  by (simp add: blob_relative_path_def Let_def)

lemma same_below_remove: "p \<noteq> [] \<Longrightarrow> hd p \<noteq> h \<Longrightarrow> preserves (same_below h) (remove_file p)"
  unfolding remove_file_def by (auto intro!: preserves_call simp: same_below_def split: option.splits LNode.splits)

definition has_complete :: "('v, 'z) StoreEnv_scheme \<Rightarrow> BlobDescriptor \<Rightarrow> tree_view \<Rightarrow> bool" where
  "has_complete env b t \<longleftrightarrow> (\<exists>bytes m. t (blob_relative_path b) = Some (LFile bytes m) \<and> complete_blob env b bytes)"

lemma has_complete_same: "same_below ''blobs'' t t' \<Longrightarrow> has_complete env b t \<Longrightarrow> has_complete env b t'"
  by (rule blob_path_cases[of b]) (auto simp: has_complete_def same_below_def)

lemma write_blob_reserved_complete:
  assumes "only_new (blob_relative_path b) (complete_blob env b) t0 t"
  shows "wp (write_blob_reserved env b body)
    (\<lambda>t' r. only_new (blob_relative_path b) (complete_blob env b) t0 t' \<and> r \<noteq> Inr Conflict \<and>
      (\<forall>x. r = Inr x \<longrightarrow> has_complete env b t')) t"
    (is "wp _ ?P t")
proof -
  let ?dest = "blob_relative_path b" and ?V = "complete_blob env b"
  let ?N = "only_new ?dest ?V"
  let ?Q = "\<lambda>t' r. ?N t0 t' \<and> r \<noteq> Inr Conflict \<and> (r = Inr Written \<longrightarrow> has_complete env b t')"
  have dest: "?dest = ''blobs'' # ''blake3'' # tl (tl ?dest)" by (rule blob_path_cases[of b]) simp
  have rest: "wp (settle_blob env b temp outcome) ?P t'" if Q: "?Q t' (Inr outcome)" and temp: "temp = ''tmp'' # x" for outcome t' temp x
  proof (cases "outcome = AlreadyPresent")
    case True
    have gone: "preserves ?N (ignore (remove_file temp))" "preserves (same_below ''blobs'') (ignore (remove_file temp))"
      using temp by (auto intro!: files.rules files.remove_file area.rules same_below_remove)
    have good: "wp (io_bind (ignore (remove_file temp)) (\<lambda>_. give AlreadyPresent)) ?P t'" if "has_complete env b t'"
      using Q that has_complete_same
      by (intro wp_skip[OF preserves_both[OF gone]] wp_give) (auto intro: files.trans)
    have bad: "wp (io_bind (quarantine_blob env b c) (\<lambda>_. io_bind (ignore (remove_file temp)) (\<lambda>_. fail e))) ?P t'" for c e
      using Q by (intro wp_skip[OF files.quarantines(3)] wp_skip[OF gone(1)] wp_fail) (auto intro: files.trans)
    have "succeeds (verify_blob_file env ?dest b) (\<lambda>t' _. has_complete env b t') t'"
      using succeeds_verify unfolding verify_blob_file_def has_complete_def .
    moreover have "preserves (\<lambda>t t'. t' = t) (verify_blob_file env ?dest b)"
      unfolding verify_blob_file_def by (rule still.helpers still.verify)
    ultimately have "wp (verify_blob_file env ?dest b) (\<lambda>u r. u = t' \<and> (\<forall>y. r = Inr y \<longrightarrow> has_complete env b t')) t'"
      by (auto simp: wp_def succeeds_def preserves_def)
    then show ?thesis using True good bad by (auto simp: settle_blob_def intro!: wp_match elim!: wp_mono split: sum.splits)
  next
    case False
    then show ?thesis using Q by (cases outcome) (auto simp: settle_blob_def intro!: wp_give)
  qed
  have main: "wp (io_bind (io_error c temp (create_new temp)) (\<lambda>_. io_bind (stage_blob env b body temp) (\<lambda>_.
      io_bind (or_remove temp (publish_temporary env temp ?dest)) f))) ?P t"
    if temp: "temp = ''tmp'' # x" and f: "\<And>outcome t'. ?Q t' (Inr outcome) \<Longrightarrow> wp (f outcome) ?P t'" for temp x c f
  proof (rule wp_skip[of ?N])
    show "preserves ?N (io_error c temp (create_new temp))" using temp by (intro files.rules files.create_new) simp
    fix t1 assume "?N t t1"
    then have t1: "?N t0 t1" using assms files.trans by blast
    then show "?P t1 (Inl e)" for e by simp
    have no_object: "\<not> object_path temp" using temp by simp
    show "wp (io_bind (stage_blob env b body temp) (\<lambda>_. io_bind (or_remove temp (publish_temporary env temp ?dest)) f)) ?P t1"
    proof (rule wp_step[OF stage_blob_effects[OF no_object]])
      fix t2 assume "?N t1 t2"
      then have t2: "?N t0 t2" using t1 files.trans by blast
      then show "?P t2 (Inl e)" for e by simp
      assume "\<exists>bytes m. t2 temp = Some (LFile bytes m) \<and> ?V bytes"
      then obtain bytes m where staged: "t2 temp = Some (LFile bytes m)" "?V bytes" by blast
      have "wp (publish_temporary env temp ?dest) ?Q t2"
        by (rule wp_mono[OF publish_temporary_complete[OF dest _ temp staged t2]]) (use staged in \<open>auto simp: has_complete_def\<close>)
      then have "wp (or_remove temp (publish_temporary env temp ?dest)) ?Q t2"
        by (rule wp_or_remove[OF _ files.remove_file]) (auto intro: files.trans)
      then show "wp (io_bind (or_remove temp (publish_temporary env temp ?dest)) f) ?P t2"
        by (intro wp_bind) (rule wp_mono, assumption, use f in \<open>auto split: sum.splits\<close>)
    qed
  qed
  show ?thesis
    unfolding write_blob_reserved_def temporary_path_def
    by (rule wp_bind, rule wp_bind, rule wp_new_v4, simp only: sum.case, rule wp_give, simp only: sum.case, rule main[OF _ rest]) auto
qed

lemma same_below_release:
  assumes "h \<noteq> ''locks''" "h \<noteq> ''capacity-v1''"
  shows "preserves (same_below h) (release n)"
proof -
  have state: "STATE_FILE \<noteq> []" "hd STATE_FILE \<noteq> h" using assms by (auto simp: STATE_FILE_def)
  have "preserves (same_below h) (write_all STATE_FILE bs)" for bs
    unfolding write_all_def write_content_def using assms
    by (auto intro!: preserves_call simp: same_below_def STATE_FILE_def split: option.splits LNode.splits)
  then have "preserves (same_below h) (write_sync k)" for k
    unfolding write_sync_def is_current_file_def Let_def using state by (intro area.rules same_below_create) auto
  moreover have "preserves (same_below h) read_sync"
    unfolding read_sync_def is_current_file_def by (intro area.rules)
  moreover have "preserves (same_below h) ledger_lock"
    unfolding ledger_lock_def open_lock_file_def is_current_file_def using assms by (intro area.rules same_below_create) auto
  ultimately show ?thesis unfolding release_def by (intro area.rules)
qed

lemma existing_blob_complete: "succeeds (existing_blob_is_valid env b) (\<lambda>t' valid. valid \<longrightarrow> has_complete env b t') t"
proof -
  let ?p = "blob_relative_path b" and ?c = "''existing blob failed validation before publication''"
  have reject: "succeeds (io_bind (quarantine_blob env b ?c) (\<lambda>_. give False)) (\<lambda>t' valid. valid \<longrightarrow> has_complete env b t') t" for t
    by (intro succeeds_skip) simp
  have "wp (verify_blob_file env ?p b) (\<lambda>t' r. \<forall>y. r = Inr y \<longrightarrow> has_complete env b t') t" for t
    using succeeds_verify unfolding verify_blob_file_def has_complete_def succeeds_def .
  then have verified: "succeeds (io_match (verify_blob_file env ?p b)
      (\<lambda>_. io_bind (quarantine_blob env b ?c) (\<lambda>_. give False)) (\<lambda>_. give True)) (\<lambda>t' valid. valid \<longrightarrow> has_complete env b t') t" for t
    unfolding succeeds_def
    by (rule wp_match_of) (use reject in \<open>auto simp: succeeds_def intro!: wp_give\<close>)
  have cond: "succeeds (\<lambda>d. if q d then m1 d else m2 d) S t" if "succeeds m1 S t" "succeeds m2 S t"
    for q m1 m2 t and S :: "tree_view \<Rightarrow> bool \<Rightarrow> bool"
    using that by (auto simp: succeeds_def wp_def)
  show ?thesis
    unfolding existing_blob_is_valid_def Let_def
    by (rule succeeds_skip, rule succeeds_conditional, simp, rule succeeds_match, simp, rule cond[OF verified reject])
qed

lemma finish_complete:
  assumes "\<forall>x. r = Inr x \<longrightarrow> has_complete env b t"
  shows "succeeds (finish_reservation n r) (\<lambda>t' x. r = Inr x \<and> has_complete env b t') t"
proof -
  have "preserves (same_below ''blobs'') (release n)" by (rule same_below_release) auto
  then have "wp (release n) (\<lambda>t' x. \<forall>y. r = Inr y \<longrightarrow> has_complete env b t') t"
    using assms has_complete_same by (intro wp_preserves[of "same_below ''blobs''"]) auto
  then show ?thesis
    unfolding finish_reservation_def succeeds_def using assms
    by (cases r) (auto intro!: wp_match wp_fail wp_lift elim!: wp_mono split: sum.splits)
qed

lemma local_write_blob_complete:
  "wp (local_write_blob env b body)
    (\<lambda>t' r. only_new (blob_relative_path b) (complete_blob env b) t t' \<and> r \<noteq> Inr Conflict \<and>
      (\<forall>x. r = Inr x \<longrightarrow> has_complete env b t')) t"
    (is "wp _ ?P t")
proof -
  let ?N = "only_new (blob_relative_path b) (complete_blob env b)"
  let ?publish = "io_match (write_blob_reserved env b body)
       (\<lambda>e. finish_reservation (encoded_size_bytes b) (Err e))
       (\<lambda>outcome. finish_reservation (encoded_size_bytes b) (Ok outcome))"
  have finish: "wp (finish_reservation n r) ?P t'" if "?N t t'" "r \<noteq> Inr Conflict" "\<forall>x. r = Inr x \<longrightarrow> has_complete env b t'" for n r t'
    using files.finish[of _ _ n r] finish_complete[OF that(3), of n] that(1,2) files.trans
    unfolding wp_def preserves_def succeeds_def by (metis (no_types, lifting))
  have writing: "wp ?publish ?P t'" if "?N t t'" for t'
    by (rule wp_match_of[OF write_blob_reserved_complete[OF that]]) (rule finish; simp)+
  show ?thesis
    unfolding local_write_blob_def
  proof (intro wp_bind wp_lift, goal_cases)
    case 1
    have start: "?N t t" by (rule files.refl)
    have "wp (io_bind (existing_blob_is_valid env b) (\<lambda>valid. if valid then give AlreadyPresent
        else io_bind (reserve_capacity env (encoded_size_bytes b)) (\<lambda>_. ?publish))) ?P t"
    proof (rule wp_step[OF files.existing existing_blob_complete])
      fix t1 valid assume t1: "?N t t1" "valid \<longrightarrow> has_complete env b t1"
      show "wp (if valid then give AlreadyPresent else io_bind (reserve_capacity env (encoded_size_bytes b)) (\<lambda>_. ?publish)) ?P t1"
      proof (cases valid)
        case False
        then show ?thesis using t1(1) writing by (auto intro!: wp_skip[OF files.reserve] intro: files.trans)
      qed (use t1 in \<open>auto intro!: wp_give\<close>)
    qed auto
    then show ?case using start by (auto intro!: wp_bind wp_lift split: sum.splits)
  qed
qed

text \<open>
  C4. Publishing a blob is atomic and its outcome is true, whatever system calls fail and wherever the process dies:
  the only object file that can appear or change is the one at the path of the descriptor, and its bytes verify
  against the descriptor (encoded size, expanded size and digest); and whenever the operation reports success,
  such a file is in place.
\<close>

theorem blob_publication_atomic:
  assumes "local_write_blob env b body d = (d', r)"
  shows "(\<forall>q bytes m. object_path q \<and> node d' q = Some (LFile bytes m) \<longrightarrow>
      node d q = Some (LFile bytes m) \<or>
      q = blob_relative_path b \<and> verify_bytes (blake3_of env) (zstd_of env) b bytes = Ok ()) \<and>
    (r \<noteq> Ok Conflict) \<and>
    (\<forall>outcome. r = Ok outcome \<longrightarrow>
      (\<exists>bytes m. node d' (blob_relative_path b) = Some (LFile bytes m) \<and>
        verify_bytes (blake3_of env) (zstd_of env) b bytes = Ok ()))"
  using wpD[OF local_write_blob_complete assms] by (auto simp: only_new_def has_complete_def)

text \<open>A store with one action record and its bundle, and a host that works on it.\<close>

definition sample_bundle :: BlobDescriptor where
  "sample_bundle = \<lparr>digest = \<lparr>algorithm = Blake3, hash = replicate 32 0, size_bytes = 4\<rparr>, encoding = Identity,
     encoded_size_bytes = 4, expanded_size_bytes = 4, entry_count = 1\<rparr>"

definition bundle_result :: "bool ActionResultV1" where
  "bundle_result = sample_result\<lparr>output_bundle := Some sample_bundle\<rparr>"

definition sample_env :: "bool StoreEnv" where
  "sample_env =
     \<lparr>store_config = \<lparr>cfg_root_absolute = True, cfg_max_bytes = 1000, cfg_max_expanded_blob_bytes = 1000,
        cfg_max_blob_compression_ratio = 1000, cfg_max_entries = 20, cfg_high_watermark_bytes = 500,
        cfg_low_watermark_bytes = 1, cfg_temporary_grace = 5, cfg_access_update_interval = 5\<rparr>,
      blake3_of = (\<lambda>bytes. replicate 32 (word_of_nat (length bytes mod 4))), zstd_of = (\<lambda>bytes. NoDecoder ''unknown frame''),
      result_json = sample_json, parse_result = (\<lambda>bytes. if bytes = [123, 125] then Ok bundle_result else Err ''syntax''),
      uuid_text = (\<lambda>n. ''uuid'' @ decimal n), hash_order = id, io_text = (\<lambda>_. ''input/output error'')\<rparr>"

definition record_name :: string where
  "record_name = action_file_name (zero_digest Blake3)"

definition stored_tree :: "(lpath \<times> LNode) list" where
  "stored_tree = [([''actions''], LDir), ([''actions'', ''ns''], LDir), ([''actions'', ''ns'', record_name], LFile [123, 125] 1),
      ([''blobs''], LDir), ([''blobs'', ''blake3''], LDir), ([''blobs'', ''blake3'', ''00''], LDir),
      (blob_relative_path sample_bundle, LFile [1, 2, 3, 4] 1), ([''locks''], LDir), ([''tmp''], LDir), ([''quarantine''], LDir),
     (STATE_FILE, LFile (u64_be 14) 1)]"

definition store_disk :: "fault option list \<Rightarrow> (lpath \<times> LNode) list \<Rightarrow> Disk" where
  "store_disk fs t = \<lparr>tree = t, now = 100, faults = fs, lifetime = None, torn_bytes = 0,
     next_uuid = 0, odd_len = (\<lambda>_. 0), odd_time = (\<lambda>_. 0)\<rparr>"

theorem blob_publication_atomic_witness:
  "let d = store_disk [] (filter (\<lambda>(p, n). n = LDir \<or> p = STATE_FILE) stored_tree);
       (d', r) = local_write_blob sample_env sample_bundle ([1, 2, 3, 4], None) d
   in r = Ok Written \<and>
     (\<exists>bytes m. node d' (blob_relative_path sample_bundle) = Some (LFile bytes m) \<and>
       verify_bytes (blake3_of sample_env) (zstd_of sample_env) sample_bundle bytes = Ok ())"
proof -
  let ?run = "local_write_blob sample_env sample_bundle ([1, 2, 3, 4], None)
    (store_disk [] (filter (\<lambda>(p, n). n = LDir \<or> p = STATE_FILE) stored_tree))"
  have "snd ?run = Ok Written" by code_simp
  then show ?thesis using blob_publication_atomic[OF prod.collapse[symmetric, of ?run]] by (simp add: Let_def split_beta)
qed

section \<open>Action records\<close>

lemma same_below_rename:
  "p \<noteq> [] \<Longrightarrow> hd p \<noteq> h \<Longrightarrow> q \<noteq> [] \<Longrightarrow> hd q \<noteq> h \<Longrightarrow> preserves (same_below h) (rename p q)"
  unfolding rename_def by (auto intro!: preserves_call simp: same_below_def split: option.splits)

lemma same_below_write: "p \<noteq> [] \<Longrightarrow> hd p \<noteq> h \<Longrightarrow> preserves (same_below h) (write_all p bs)"
  unfolding write_all_def write_content_def
  by (cases p) (auto intro!: preserves_call simp: same_below_def split: option.splits LNode.splits)

lemma same_below_publish:
  assumes "dest = a # b # q" "a \<noteq> h" "h \<noteq> ''locks''" "h \<noteq> ''tmp''"
  shows "preserves (same_below h) (publish_bytes env dest bytes)"
proof -
  have temp: "preserves (same_below h) (publish_rename (''tmp'' # x) dest)" for x
    unfolding publish_rename_def sync_directory_def using assms
    by (intro area.rules same_below_rename same_below_remove) auto
  have "preserves (same_below h) (publish_temporary env (''tmp'' # x) dest)" for x
    unfolding publish_temporary_def validate_cache_parent_def using assms
    by (intro area.rules temp same_below_parent same_below_object_lock) auto
  then have "preserves (same_below h) (io_bind (io_error c temp (create_new temp)) (\<lambda>_.
     io_bind (or_remove temp (io_error c' temp (io_bind (write_all temp bytes) (\<lambda>_. touch_handle temp)))) (\<lambda>_.
     io_bind (or_remove temp (publish_temporary env temp dest)) (\<lambda>outcome.
       if outcome = AlreadyPresent
       then io_bind (ignore (remove_file temp)) (\<lambda>_. give outcome) else give outcome))))" if "temp = ''tmp'' # x" for temp c c' x
    using that assms unfolding or_remove_def
    by (intro area.rules same_below_create same_below_write same_below_remove) auto
  then show ?thesis
    unfolding publish_bytes_def by (intro area.bind_temporary) simp
qed

lemma staged_bytes:
  assumes "t temp = Some (LFile x m0)"
  shows "succeeds (or_remove temp (io_error c temp (io_bind (write_all temp bytes) (\<lambda>_. touch_handle temp))))
    (\<lambda>t' _. \<exists>m. t' temp = Some (LFile bytes m)) t"
proof (rule succeeds_or_remove)
  have "wp (write_all temp bytes) (\<lambda>t' r. \<forall>u. r = Inr u \<longrightarrow> (\<exists>m. t' temp = Some (LFile bytes m))) t"
    unfolding write_all_def using assms by (intro wp_call) (auto simp: write_content_def)
  then show "succeeds (io_error c temp (io_bind (write_all temp bytes) (\<lambda>_. touch_handle temp))) (\<lambda>t' _. \<exists>m. t' temp = Some (LFile bytes m)) t"
    unfolding succeeds_def
    by (intro wp_io_error) (rule wp_bind_of, assumption, auto intro!: wp_preserves[OF still.queries(2)])
qed

lemma created_file: "succeeds (io_error c p (create_new p)) (\<lambda>t' _. \<exists>m. t' p = Some (LFile [] m)) t"
  unfolding succeeds_def create_new_def by (intro wp_io_error wp_call) auto

lemma publish_bytes_complete:
  assumes dest: "dest = a # b # q" "a \<noteq> ''tmp''" and t0: "only_new dest ((=) bytes) t0 t"
  shows "wp (publish_bytes env dest bytes)
    (\<lambda>t' r. only_new dest ((=) bytes) t0 t' \<and> r \<noteq> Inr Conflict \<and> (r = Inr Written \<longrightarrow> (\<exists>m. t' dest = Some (LFile bytes m)))) t"
    (is "wp _ ?Q t")
proof -
  let ?N = "only_new dest ((=) bytes)"
  have main: "wp (io_bind (io_error c temp (create_new temp)) (\<lambda>_.
     io_bind (or_remove temp (io_error c' temp (io_bind (write_all temp bytes) (\<lambda>_. touch_handle temp)))) (\<lambda>_.
     io_bind (or_remove temp (publish_temporary env temp dest)) (\<lambda>outcome.
       if outcome = AlreadyPresent
       then io_bind (ignore (remove_file temp)) (\<lambda>_. give outcome) else give outcome)))) ?Q t"
    if temp: "temp = ''tmp'' # x" for temp x c c'
  proof (rule wp_step[of ?N, OF _ created_file])
    have no_object: "\<not> object_path temp" using temp by simp
    then show "preserves ?N (io_error c temp (create_new temp))" by (intro files.rules files.create_new)
    fix t1 assume "?N t t1"
    then have t1: "?N t0 t1" using t0 files.trans by blast
    then show "?Q t1 (Inl e)" for e by simp
    assume "\<exists>m. t1 temp = Some (LFile [] m)"
    then obtain m1 where m1: "t1 temp = Some (LFile [] m1)" by blast
    show "wp (io_bind (or_remove temp (io_error c' temp (io_bind (write_all temp bytes) (\<lambda>_. touch_handle temp)))) (\<lambda>_.
     io_bind (or_remove temp (publish_temporary env temp dest)) (\<lambda>outcome.
       if outcome = AlreadyPresent
       then io_bind (ignore (remove_file temp)) (\<lambda>_. give outcome) else give outcome))) ?Q t1"
    proof (rule wp_step[of ?N, OF _ staged_bytes[of t1 temp "[]" m1, OF m1]])
      show "preserves ?N (or_remove temp (io_error c' temp (io_bind (write_all temp bytes) (\<lambda>_. touch_handle temp))))"
        unfolding or_remove_def using no_object by (intro files.rules files.write_all files.remove_file)
      fix t2 assume "?N t1 t2"
      then have t2: "?N t0 t2" using t1 files.trans by blast
      then show "?Q t2 (Inl e)" for e by simp
      assume "\<exists>m. t2 temp = Some (LFile bytes m)"
      then obtain m where m: "t2 temp = Some (LFile bytes m)" by blast
      have "wp (publish_temporary env temp dest) ?Q t2"
        by (rule wp_mono[OF publish_temporary_complete[OF dest temp m _ t2]]) auto
      then have "wp (or_remove temp (publish_temporary env temp dest)) ?Q t2"
        by (rule wp_or_remove[OF _ files.remove_file]) (auto intro: files.trans)
      then show "wp (io_bind (or_remove temp (publish_temporary env temp dest)) (\<lambda>outcome.
         if outcome = AlreadyPresent
         then io_bind (ignore (remove_file temp)) (\<lambda>_. give outcome) else give outcome)) ?Q t2"
      proof (rule wp_bind_of)
        fix t3 outcome assume t3: "?Q t3 (Inr outcome)"
        have "preserves ?N (ignore (remove_file temp) :: (Disk, CacheError, unit) eff)" by (intro files.rules files.remove_file)
        then show "wp (if outcome = AlreadyPresent then io_bind (ignore (remove_file temp)) (\<lambda>_. give outcome) else give outcome) ?Q t3"
          using t3 by (auto intro!: wp_give wp_skip[of ?N] intro: files.trans)
      qed simp
    qed
  qed
  show ?thesis
    unfolding publish_bytes_def temporary_path_def
    by (rule wp_bind, rule wp_bind, rule wp_new_v4, simp only: sum.case, rule wp_give, simp only: sum.case, rule main) simp
qed

definition blob_present :: "BlobDescriptor \<Rightarrow> tree_view \<Rightarrow> bool" where
  "blob_present b t \<longleftrightarrow>
     (\<exists>bytes m. t (blob_relative_path b) = Some (LFile bytes m) \<and> word_of_nat (length bytes) = encoded_size_bytes b)"

lemma blob_present_same: "same_below ''blobs'' t t' \<Longrightarrow> blob_present b t \<Longrightarrow> blob_present b t'"
  by (rule blob_path_cases[of b]) (auto simp: blob_present_def same_below_def)

lemma require_blob_effects:
  "preserves (\<lambda>t t'. t' = t) (require_blob b)" "succeeds (require_blob b) (\<lambda>t' _. blob_present b t') t"
proof -
  let ?p = "blob_relative_path b"
  have parent: "preserves (\<lambda>t t'. t' = t) (parent_loop False current cs)" for current cs
    by (induction cs arbitrary: current) (auto simp: Let_def intro!: still.rules)
  then show "preserves (\<lambda>t t'. t' = t) (require_blob b)"
    unfolding require_blob_def validate_cache_parent_def Let_def by (intro still.rules)
  have "wp (io_match (node_metadata ?p) h (\<lambda>n d.
      if \<not> is_regular n \<or> word_of_nat (node_len d ?p n) \<noteq> encoded_size_bytes b then fail e d else give () d))
      (\<lambda>t' r. \<forall>x. r = Inr x \<longrightarrow> blob_present b t') t"
    if "\<And>k. \<exists>e. h k = fail e" for h e t
  proof (intro wp_match wp_metadata, goal_cases)
    case (1 n)
    then show ?case
      by (cases n) (auto simp: wp_def fail_def give_def is_regular_def node_len_def blob_present_def)
  qed (use that in \<open>auto simp: wp_def fail_def dest!: spec\<close>, (metis fail_def snd_conv sum.distinct(1))+)
  note inner = this
  show "succeeds (require_blob b) (\<lambda>t' _. blob_present b t') t"
    unfolding require_blob_def Let_def
    by (rule succeeds_skip, rule succeeds_conditional, simp, unfold succeeds_def, rule inner) auto
qed

text \<open>The state after a write that reports the given outcome.\<close>

definition action_written :: "lpath \<Rightarrow> u8 list \<Rightarrow> BlobDescriptor option \<Rightarrow> tree_view \<Rightarrow> WriteOutcome \<Rightarrow> bool" where
  "action_written dest bytes bundle t outcome \<longleftrightarrow>
     (\<exists>stored m. t dest = Some (LFile stored m) \<and> (stored = bytes \<longleftrightarrow> outcome \<noteq> Conflict)) \<and>
     (\<forall>b. bundle = Some b \<longrightarrow> blob_present b t)"

lemma action_written_same:
  "same_below ''blobs'' t t' \<Longrightarrow> same_below ''actions'' t t' \<Longrightarrow> action_written (''actions'' # q) bytes bundle t x \<Longrightarrow>
     action_written (''actions'' # q) bytes bundle t' x"
  using blob_present_same[of t t'] unfolding action_written_def same_below_def by metis

lemma write_action_reserved_complete:
  assumes dest: "dest = ''actions'' # a # q" and t0: "only_new dest ((=) bytes) t0 t"
  shows "wp (write_action_reserved env dest r bytes)
    (\<lambda>t' x. only_new dest ((=) bytes) t0 t' \<and> (\<forall>outcome. x = Inr outcome \<longrightarrow> action_written dest bytes (output_bundle r) t' outcome)) t"
    (is "wp _ ?P t")
proof -
  let ?N = "only_new dest ((=) bytes)" and ?B = "\<lambda>t. \<forall>b. output_bundle r = Some b \<longrightarrow> blob_present b t"
  let ?need = "case output_bundle r of None \<Rightarrow> give () | Some b \<Rightarrow> require_blob b"
  have need: "preserves (\<lambda>t t'. t' = t) ?need" "succeeds ?need (\<lambda>t' _. ?B t') t"
    using require_blob_effects by (auto intro!: still.rules split: option.splits)
  have rest: "wp (compare_published dest bytes outcome) ?P t'"
    if "?N t0 t'" "outcome \<noteq> Conflict" "outcome = Written \<longrightarrow> (\<exists>m. t' dest = Some (LFile bytes m))" "?B t'" for outcome t'
  proof (cases "outcome = AlreadyPresent")
    case True
    have "wp (io_bind (io_error c dest (read_file dest)) (\<lambda>existing. give (if existing = bytes then AlreadyPresent else Conflict))) ?P t'" for c
      using that by (auto intro!: wp_bind wp_io_error wp_read_file wp_give simp: action_written_def)
    then have "wp (\<lambda>d. if q d then fail e d else
        io_bind (io_error c dest (read_file dest)) (\<lambda>existing. give (if existing = bytes then AlreadyPresent else Conflict)) d) ?P t'" for q c e
      using that(1) by (auto simp: wp_def fail_def)
    then show ?thesis using True that(1) by (auto simp: compare_published_def intro!: wp_bind wp_io_error wp_metadata)
  qed (use that in \<open>cases outcome; auto simp: compare_published_def action_written_def intro!: wp_give\<close>)
  show ?thesis
    unfolding write_action_reserved_def
  proof (rule wp_step[OF need])
    fix t1 assume t1: "t1 = t" "?B t1"
    have pub: "wp (publish_bytes env dest bytes) (\<lambda>t' x. (?N t0 t' \<and> x \<noteq> Inr Conflict \<and>
        (x = Inr Written \<longrightarrow> (\<exists>m. t' dest = Some (LFile bytes m)))) \<and> same_below ''blobs'' t t') t"
      using dest t0 by (intro wp_both publish_bytes_complete wp_preserves[OF same_below_publish]) auto
    show "wp (io_bind (publish_bytes env dest bytes) (\<lambda>outcome. compare_published dest bytes outcome)) ?P t1"
      unfolding t1(1)
    proof (rule wp_bind_of[OF pub])
      fix t' outcome
      assume "(?N t0 t' \<and> Inr outcome \<noteq> Inr Conflict \<and> (Inr outcome = Inr Written \<longrightarrow> (\<exists>m. t' dest = Some (LFile bytes m)))) \<and>
        same_below ''blobs'' t t'"
      then show "wp (compare_published dest bytes outcome) ?P t'"
        using t1 blob_present_same by (intro rest) auto
    qed simp
  qed (use t0 in auto)
qed

lemma finish_action:
  assumes "\<forall>outcome. x = Inr outcome \<longrightarrow> action_written (''actions'' # q) bytes bundle t outcome"
  shows "succeeds (finish_reservation n x) (\<lambda>t' outcome. action_written (''actions'' # q) bytes bundle t' outcome) t"
proof -
  have "wp (release n) (\<lambda>t' r. same_below ''blobs'' t t' \<and> same_below ''actions'' t t') t"
    by (intro wp_both wp_preserves[OF same_below_release]) auto
  then show ?thesis
    unfolding finish_reservation_def succeeds_def using assms action_written_same
    by (cases x) (auto intro!: wp_lift wp_fail elim!: wp_match_of)
qed

lemma action_path_Ok: "action_path env namespace key = Inr p \<Longrightarrow> \<exists>ns. p = [''actions'', ns, take 2 (hex key), action_file_name key]"
  by (auto simp: action_path_def result_simps)

lemma local_write_action_complete:
  assumes "action_path env namespace (action r) = Inr dest"
  shows "wp (local_write_action env namespace r)
    (\<lambda>t' x. only_new dest ((=) (result_bytes env r)) t t' \<and>
      (\<forall>outcome. x = Inr outcome \<longrightarrow> action_written dest (result_bytes env r) (output_bundle r) t' outcome)) t"
    (is "wp _ ?P t")
proof -
  let ?bytes = "result_bytes env r"
  let ?N = "only_new dest ((=) ?bytes)" and ?n = "word_of_nat (length ?bytes)"
  obtain ns where dest: "dest = ''actions'' # ns # [take 2 (hex (action r)), action_file_name (action r)]"
    using action_path_Ok[OF assms] by auto
  have finish: "wp (finish_reservation ?n x) ?P t'"
    if "?N t t'" "\<forall>outcome. x = Inr outcome \<longrightarrow> action_written dest ?bytes (output_bundle r) t' outcome" for x t'
  proof -
    have "wp (finish_reservation ?n x) (\<lambda>u y. ?N t u) t'"
      using that(1) by (intro wp_preserves[OF files.finish]) (rule files.trans)
    moreover have "succeeds (finish_reservation ?n x) (\<lambda>t'. action_written dest ?bytes (output_bundle r) t') t'"
      using finish_action that(2) unfolding dest by blast
    ultimately show ?thesis unfolding succeeds_def by (rule wp_both)
  qed
  have writing: "wp (io_match (write_action_reserved env dest r ?bytes) (\<lambda>e. finish_reservation ?n (Err e))
      (\<lambda>outcome. finish_reservation ?n (Ok outcome))) ?P t'" if "?N t t'" for t'
    by (rule wp_match_of[OF write_action_reserved_complete[OF dest that]]) (rule finish; simp)+
  show ?thesis
    unfolding local_write_action_def Let_def
    using writing files.refl
    by (auto simp: assms intro!: wp_bind[of "lift_result r" for r] wp_lift wp_skip[OF files.reserve] intro: files.trans split: sum.splits)
qed

text \<open>
  C8. Publishing an action record is atomic and its outcome is true, whatever system calls fail and wherever the
  process dies: the only object file that can appear is the record at the path of its action, with exactly the
  serialised result; a reported write or presence means that the record holds this result, a reported conflict that
  it holds another one; and in each of these cases the blob the result refers to is in place with its declared size.
\<close>

theorem action_publication_atomic:
  assumes "local_write_action env namespace r d = (d', x)" "action_path env namespace (action r) = Ok dest"
  shows "(\<forall>q bytes m. object_path q \<and> node d' q = Some (LFile bytes m) \<longrightarrow>
      node d q = Some (LFile bytes m) \<or> q = dest \<and> bytes = result_bytes env r) \<and>
    (\<forall>outcome. x = Ok outcome \<longrightarrow>
      (\<exists>stored m. node d' dest = Some (LFile stored m) \<and> (stored = result_bytes env r \<longleftrightarrow> outcome \<noteq> Conflict)) \<and>
      (\<forall>b. output_bundle r = Some b \<longrightarrow>
        (\<exists>bytes m. node d' (blob_relative_path b) = Some (LFile bytes m) \<and> word_of_nat (length bytes) = encoded_size_bytes b)))"
  using wpD[OF local_write_action_complete[OF assms(2)] assms(1)]
  by (auto simp: only_new_def action_written_def blob_present_def)

theorem action_publication_atomic_witness:
  "let (d', x) = local_write_action sample_env ''ns'' bundle_result (store_disk [] stored_tree) in
   x = Ok Written \<and>
   (\<exists>m. node d' [''actions'', concat (replicate 32 ''02''), ''00'', record_name] = Some (LFile [123, 125] m)) \<and>
   (\<exists>bytes m. node d' (blob_relative_path sample_bundle) = Some (LFile bytes m) \<and> word_of_nat (length bytes) = (4 :: u64))"
proof -
  let ?run = "local_write_action sample_env ''ns'' bundle_result (store_disk [] stored_tree)"
  have run: "snd ?run = Ok Written" by code_simp
  have dest: "action_path sample_env ''ns'' (action bundle_result) = Ok [''actions'', concat (replicate 32 ''02''), ''00'', record_name]"
    by code_simp
  have bytes: "result_bytes sample_env bundle_result = [123, 125]" by code_simp
  have "output_bundle bundle_result = Some sample_bundle" "encoded_size_bytes sample_bundle = 4"
    by (simp_all add: bundle_result_def sample_bundle_def)
  then show ?thesis
    using action_publication_atomic[OF prod.collapse[symmetric, of ?run] dest] run bytes by (simp add: Let_def split_beta)
qed

end
