(* ===== verification/Local_Collect.thy ===== *)
theory Local_Collect
  imports Local_Safety
begin

text \<open>
  Collection never takes the blob of a surviving action: the traversal finds every record, an evicted record is gone
  before any blob is removed, and the sweep spares what the surviving records refer to.  This holds for every pattern
  of failing calls and at every point where the process may die.
\<close>

section \<open>Traversal\<close>

lemma tree_ok_above:
  assumes "tree_ok t" "t (dir @ c # rest) \<noteq> None"
  shows "dir = [] \<or> t dir = Some LDir" "rest \<noteq> [] \<Longrightarrow> t (dir @ [c]) = Some LDir"
proof -
  have "dir' = [] \<or> t dir' = Some LDir" if "t (dir' @ x # xs) \<noteq> None" for dir' x xs
    using that
  proof (induction xs arbitrary: x rule: rev_induct)
    case Nil
    then show ?case using assms(1) by (auto simp: tree_ok_def)
  next
    case (snoc y ys)
    then have "t ((dir' @ x # ys) @ [y]) \<noteq> None" by simp
    then have "t (dir' @ x # ys) \<noteq> None" using assms(1) unfolding tree_ok_def by (metis append_is_Nil_conv list.distinct(1) option.distinct(1))
    then show ?case by (rule snoc.IH)
  qed
  note above = this
  show "dir = [] \<or> t dir = Some LDir" using above assms(2) .
  show "t (dir @ [c]) = Some LDir" if "rest \<noteq> []"
    using above[of "dir @ [c]" "hd rest" "tl rest"] assms(2) that by simp
qed

definition is_file :: "tree_view \<Rightarrow> lpath \<Rightarrow> bool" where
  "is_file t p \<longleftrightarrow> (\<exists>bytes m. t p = Some (LFile bytes m))"

lemma visit_entries_finds:
  "wp (visit_entries limit (\<lambda>p acc. give (acc @ [p])) dir names visited pending acc)
    (\<lambda>t' r. t' = t \<and> (\<forall>v pending' acc'. r = Inr (v, pending', acc') \<longrightarrow>
      set pending \<subseteq> set pending' \<and> set acc \<subseteq> set acc' \<and> (\<forall>q \<in> set acc'. q \<in> set acc \<or> (\<exists>c. q = dir @ [c])) \<and>
      (\<forall>q \<in> set pending'. q \<in> set pending \<or> (\<exists>c. q = dir @ [c])) \<and>
      (\<forall>c \<in> set names. (t (dir @ [c]) = Some LDir \<longrightarrow> dir @ [c] \<in> set pending') \<and> (is_file t (dir @ [c]) \<longrightarrow> dir @ [c] \<in> set acc')))) t"
proof (induction names arbitrary: visited pending acc)
  case (Cons c names)
  let ?visit = "\<lambda>p acc. give (acc @ [p])"
  let ?Q = "\<lambda>pending acc names t' r. t' = t \<and> (\<forall>v pending' acc'. r = Inr (v, pending', acc') \<longrightarrow>
      set pending \<subseteq> set pending' \<and> set acc \<subseteq> set acc' \<and> (\<forall>q \<in> set acc'. q \<in> set acc \<or> (\<exists>c. q = dir @ [c])) \<and>
      (\<forall>q \<in> set pending'. q \<in> set pending \<or> (\<exists>c. q = dir @ [c])) \<and>
      (\<forall>c \<in> set names. (t (dir @ [c]) = Some LDir \<longrightarrow> dir @ [c] \<in> set pending') \<and> (is_file t (dir @ [c]) \<longrightarrow> dir @ [c] \<in> set acc')))"
  have step: "wp (case n of
        LDir \<Rightarrow> visit_entries limit ?visit dir names (Suc visited) ((dir @ [c]) # pending) acc
      | LFile _ _ \<Rightarrow> io_bind (?visit (dir @ [c]) acc) (\<lambda>acc'. visit_entries limit ?visit dir names (Suc visited) pending acc')
      | LOther \<Rightarrow> visit_entries limit ?visit dir names (Suc visited) pending acc) (?Q pending acc (c # names)) t"
    if n: "t (dir @ [c]) = Some n" for n
  proof (cases n)
    case (LFile b m)
    have "wp (visit_entries limit ?visit dir names (Suc visited) pending (acc @ [dir @ [c]])) (?Q pending acc (c # names)) t"
      by (rule wp_mono[OF Cons.IH]) (use n LFile in \<open>auto, blast\<close>)
    then show ?thesis using LFile by (auto intro!: wp_bind wp_give)
  next
    case LDir
    have "wp (visit_entries limit ?visit dir names (Suc visited) ((dir @ [c]) # pending) acc) (?Q pending acc (c # names)) t"
      by (rule wp_mono[OF Cons.IH]) (use n LDir in \<open>auto simp: is_file_def, blast\<close>)
    then show ?thesis using LDir by simp
  next
    case LOther
    have "wp (visit_entries limit ?visit dir names (Suc visited) pending acc) (?Q pending acc (c # names)) t"
      by (rule wp_mono[OF Cons.IH]) (use n LOther in \<open>auto simp: is_file_def\<close>)
    then show ?thesis using LOther by simp
  qed
  have entry: "wp (call id (give ())) (\<lambda>t' r. t' = t) t"
    by (rule wp_preserves[OF still.queries(5)])
  show ?case
    using step by (auto intro!: wp_fail wp_bind wp_io_error wp_mono[OF entry] wp_metadata split: sum.splits)
qed (auto intro!: wp_give)


lemma visit_dirs_finds:
  "wp (visit_dirs fuel limit (\<lambda>p acc. give (acc @ [p])) pending visited acc)
    (\<lambda>t' r. t' = t \<and> (\<forall>acc'. r = Inr acc' \<longrightarrow> set acc \<subseteq> set acc' \<and>
      (\<forall>q \<in> set acc'. q \<in> set acc \<or> (\<exists>dir \<in> set pending. strict_prefix dir q)) \<and>
      (tree_ok t \<longrightarrow> (\<forall>q. is_file t q \<longrightarrow> (\<exists>dir \<in> set pending. strict_prefix dir q) \<longrightarrow> q \<in> set acc')))) t"
    (is "wp _ (?Q pending acc) t")
proof (induction fuel arbitrary: pending visited acc)
  case 0
  show ?case by (cases pending) (auto intro!: wp_give wp_fail)
next
  case (Suc fuel)
  let ?visit = "\<lambda>p acc. give (acc @ [p])"
  show ?case
  proof (cases pending)
    case (Cons dir rest)
    have skip: "wp (visit_dirs fuel limit ?visit rest visited acc) (?Q pending acc) t"
      if "dir \<noteq> [] \<and> t dir = None"
    proof (rule wp_mono[OF Suc.IH], intro conjI allI impI)
      have "\<not> strict_prefix dir q" if "tree_ok t" "is_file t q" for q
      proof
        assume "strict_prefix dir q"
        then obtain c r where "q = dir @ c # r" using strict_prefixE' by metis
        then show False using tree_ok_above(1)[OF that(1), of dir c r] that(2) \<open>dir \<noteq> [] \<and> t dir = None\<close> by (auto simp: is_file_def)
      qed
      then show "q \<in> set acc'" if "?Q rest acc t' r" "r = Inr acc'" "tree_ok t" "is_file t q" "\<exists>dir \<in> set pending. strict_prefix dir q" for t' r acc' q
        using that Cons by auto
    qed (use Cons in auto)
    have found: "wp (io_bind (visit_entries limit ?visit dir names visited rest acc) (\<lambda>(visited', pending', acc').
        visit_dirs fuel limit ?visit pending' visited' acc')) (?Q pending acc) t"
      if names: "\<And>c. c \<in> set names \<longleftrightarrow> t (dir @ [c]) \<noteq> None" for names
    proof (rule wp_bind_of[OF visit_entries_finds])
      fix t' x
      let ?E = "\<lambda>(v::nat) pending' acc'. set rest \<subseteq> set pending' \<and> set acc \<subseteq> set acc' \<and> (\<forall>q \<in> set acc'. q \<in> set acc \<or> (\<exists>c. q = dir @ [c])) \<and>
        (\<forall>q \<in> set pending'. q \<in> set rest \<or> (\<exists>c. q = dir @ [c])) \<and>
        (\<forall>c \<in> set names. (t (dir @ [c]) = Some LDir \<longrightarrow> dir @ [c] \<in> set pending') \<and> (is_file t (dir @ [c]) \<longrightarrow> dir @ [c] \<in> set acc'))"
      assume "t' = t \<and> (\<forall>v pending' acc'. Inr x = Inr (v, pending', acc') \<longrightarrow> ?E v pending' acc')"
      then obtain v pending' acc' where x: "t' = t" "x = (v, pending', acc')" and E: "?E v pending' acc'" by (cases x) auto
      have below: "q \<in> set acc' \<or> (\<exists>d \<in> set pending'. strict_prefix d q)"
        if ok: "tree_ok t" and q: "is_file t q" "\<exists>d \<in> set pending. strict_prefix d q" for q
      proof (cases "strict_prefix dir q")
        case True
        then obtain c r where q': "q = dir @ c # r" using strict_prefixE' by metis
        show ?thesis
        proof (cases "r = []")
          case True
          then show ?thesis using E q q' names[of c] by (auto simp: is_file_def)
        next
          case False
          then have "t (dir @ [c]) = Some LDir" using tree_ok_above(2)[OF ok, of dir c r] q q' by (auto simp: is_file_def)
          then have "dir @ [c] \<in> set pending'" using E names[of c] by auto
          moreover have "strict_prefix (dir @ [c]) q" using False q' by (simp add: strict_prefix_def)
          ultimately show ?thesis by blast
        qed
      qed (use q Cons E in auto)
      have within: "\<exists>d \<in> set pending. strict_prefix d q" if "q \<in> set acc'" "q \<notin> set acc" for q
        using E that Cons by (auto simp: strict_prefix_def)
      have deeper: "\<exists>d \<in> set pending. strict_prefix d q" if "d' \<in> set pending'" "strict_prefix d' q" for q d'
      proof -
        have "d' \<in> set rest \<or> (\<exists>c. d' = dir @ [c])" using E that by auto
        then show ?thesis using that(2) Cons by (auto simp: strict_prefix_def prefix_def)
      qed
      have "wp (visit_dirs fuel limit ?visit pending' v acc') (?Q pending acc) t"
      proof (rule wp_mono[OF Suc.IH])
        fix t'' r assume S: "?Q pending' acc' t'' r"
        have "set acc \<subseteq> set a" "\<forall>q \<in> set a. q \<in> set acc \<or> (\<exists>dir \<in> set pending. strict_prefix dir q)"
          "tree_ok t \<longrightarrow> (\<forall>q. is_file t q \<longrightarrow> (\<exists>dir \<in> set pending. strict_prefix dir q) \<longrightarrow> q \<in> set a)" if "r = Inr a" for a
        proof -
          have a: "set acc' \<subseteq> set a" "\<forall>q \<in> set a. q \<in> set acc' \<or> (\<exists>dir \<in> set pending'. strict_prefix dir q)"
            "tree_ok t \<longrightarrow> (\<forall>q. is_file t q \<longrightarrow> (\<exists>dir \<in> set pending'. strict_prefix dir q) \<longrightarrow> q \<in> set a)" using S that by blast+
          show "set acc \<subseteq> set a" using a(1) E by blast
          show "\<forall>q \<in> set a. q \<in> set acc \<or> (\<exists>dir \<in> set pending. strict_prefix dir q)" using a(2) within deeper by blast
          show "tree_ok t \<longrightarrow> (\<forall>q. is_file t q \<longrightarrow> (\<exists>dir \<in> set pending. strict_prefix dir q) \<longrightarrow> q \<in> set a)" using a(1,3) below by blast
        qed
        note found = this
        show "?Q pending acc t'' r" by (rule conjI[OF conjunct1[OF S]]) (use found in simp)
      qed
      then show "wp (case x of (visited', pending', acc') \<Rightarrow> visit_dirs fuel limit ?visit pending' visited' acc') (?Q pending acc) t'"
        using x by simp
    qed auto
    have "wp (read_dir dir) (\<lambda>t' r. t' = t \<and> (r = Inl NotFound \<longrightarrow> dir \<noteq> [] \<and> t dir = None) \<and>
        (\<forall>names. r = Inr names \<longrightarrow> (\<forall>c. c \<in> set names \<longleftrightarrow> t (dir @ [c]) \<noteq> None))) t"
      unfolding read_dir_def by (rule wp_call) (auto simp: has_dir_def children_iff opaque_def)
    note listing = this
    show ?thesis
      unfolding Cons visit_dirs.simps
      by (rule wp_match_of[OF listing]) (use skip found Cons in \<open>auto intro!: wp_fail\<close>)
  qed (auto intro!: wp_give)
qed

lemma regular_files_finds:
  "wp (regular_files root limit) (\<lambda>t' r. t' = t \<and> (\<forall>files. r = Inr files \<longrightarrow>
    (\<forall>q \<in> set files. strict_prefix root q) \<and> (tree_ok t \<longrightarrow> (\<forall>q. is_file t q \<longrightarrow> strict_prefix root q \<longrightarrow> q \<in> set files)))) t"
  unfolding regular_files_def visit_regular_files_def by (rule wp_mono[OF visit_dirs_finds]) auto

lemma preserves_wp: "preserves R m \<longleftrightarrow> (\<forall>t. wp m (\<lambda>t' _. R t t') t)"
  by (auto simp: preserves_def wp_def)

context tree_relation
begin

lemma listed:
  assumes "\<And>files. (\<And>q. q \<in> set files \<Longrightarrow> strict_prefix root q) \<Longrightarrow> preserves R (f files)"
  shows "preserves R (io_bind (regular_files root limit) f)"
  unfolding preserves_wp
  by (intro allI, rule wp_bind_of[OF regular_files_finds]) (use assms refl in \<open>auto simp: preserves_wp\<close>)

end

section \<open>What collection keeps\<close>

text \<open>The files of a set of places stay.\<close>

definition kept :: "lpath set \<Rightarrow> tree_view \<Rightarrow> tree_view \<Rightarrow> bool" where
  "kept S t t' \<longleftrightarrow> (\<forall>p \<in> S. is_file t p \<longrightarrow> t' p = t p)"

abbreviation blob_area :: "lpath set" where
  "blob_area \<equiv> {p. \<exists>q. p = ''blobs'' # q}"

interpretation keep: dir_relation "kept S" for S
proof
  show "kept S t t" for t by (simp add: kept_def)
  show "kept S t u \<Longrightarrow> kept S u v \<Longrightarrow> kept S t v" for t u v by (auto simp: kept_def is_file_def)
  show "preserves (kept S) (create_dir p)" "preserves (kept S) (remove_dir p)" for p
    unfolding create_dir_def remove_dir_def by (intro preserves_call; auto simp: kept_def is_file_def)+
qed

lemma keeps:
  "preserves (kept S) (create_new p)"
  "p \<notin> S \<Longrightarrow> preserves (kept S) (remove_file p)" "p \<notin> S \<Longrightarrow> preserves (kept S) (write_all p bs)"
  "p \<notin> S \<Longrightarrow> preserves (kept S) (fs_write p bs)"
  "p \<notin> S \<Longrightarrow> q \<notin> S \<Longrightarrow> preserves (kept S) (rename p q)"
  unfolding create_new_def remove_file_def write_all_def write_content_def fs_write_def rename_def
  by (intro preserves_call; auto simp: kept_def is_file_def split: option.splits LNode.splits)+

lemma keep_retry: "p \<notin> S \<Longrightarrow> preserves (kept S) (remove_file_retry_later p)"
  unfolding remove_file_retry_later_def by (intro keep.rules keeps)

lemma keep_lock: "preserves (kept S) (open_lock_file p)" "preserves (kept S) (acquire_lock p exclusive)"
proof -
  show *: "preserves (kept S) (open_lock_file p)" for p unfolding open_lock_file_def by (intro keep.rules keeps keep.helpers)
  show "preserves (kept S) (acquire_lock p exclusive)" unfolding acquire_lock_def by (intro keep.rules keep.dir_all *)
qed

lemma keep_maintenance: "preserves (kept blob_area) (run_maintenance env time)"
proof -
  have aged: "preserves (kept blob_area) (remove_aged time grace files n)"
    if "\<And>q. q \<in> set files \<Longrightarrow> strict_prefix [r] q" "r \<noteq> ''blobs''" for files n r grace
    using that(1)
  proof (induction files arbitrary: n)
    case (Cons p files)
    have "p \<notin> blob_area" using Cons.prems[of p] that(2) by (auto simp: strict_prefix_def prefix_def)
    then show ?case using Cons by (auto intro!: keep.rules keep.sizes keep_retry)
  qed (simp add: keep.pure)
  have orphans: "preserves (kept blob_area) (remove_orphans time grace files n)"
    if "\<And>q. q \<in> set files \<Longrightarrow> strict_prefix [''actions''] q" for files n grace
    using that
  proof (induction files arbitrary: n)
    case (Cons p files)
    have "p \<notin> blob_area" using Cons.prems[of p] by (auto simp: strict_prefix_def prefix_def)
    then show ?case using Cons by (auto intro!: keep.rules keep.sizes keep_retry)
  qed (simp add: keep.pure)
  have cleanup: "preserves (kept blob_area) (cleanup_aged_files [r] time grace limit n)" if "r \<noteq> ''blobs''" for r grace limit n
    unfolding cleanup_aged_files_def using that by (intro keep.listed keep.bind aged[of _ r] keep.empty_children keep.pure) auto
  show ?thesis
    unfolding run_maintenance_def Let_def cleanup_orphan_access_markers_def
    by (intro keep.bind keep.listed cleanup orphans) auto
qed

section \<open>The marking phase\<close>

text \<open>No object file appears or changes.\<close>

abbreviation shrinks :: "tree_view \<Rightarrow> tree_view \<Rightarrow> bool" where
  "shrinks \<equiv> only_new [] (\<lambda>_. False)"

lemma shrinks_file: "shrinks t t' \<Longrightarrow> object_path p \<Longrightarrow> t' p = Some (LFile bytes m) \<Longrightarrow> t p = Some (LFile bytes m)"
  by (auto simp: only_new_def)

lemma shrinks_gone: "shrinks t t' \<Longrightarrow> object_path p \<Longrightarrow> \<not> is_file t p \<Longrightarrow> \<not> is_file t' p"
  by (auto simp: only_new_def is_file_def)

text \<open>A complete action record that lies where its digest says.\<close>

definition live_record :: "('v, 'z) StoreEnv_scheme \<Rightarrow> tree_view \<Rightarrow> lpath \<Rightarrow> 'v ActionResultV1 \<Rightarrow> bool" where
  "live_record env t p r \<longleftrightarrow> strict_prefix [''actions''] p \<and> extension (last p) = Some ''json'' \<and>
     (\<exists>bytes m. t p = Some (LFile bytes m) \<and> check_action env (last p) bytes = Ok r)"

lemma live_record_file: "live_record env t p r \<Longrightarrow> is_file t p"
  by (auto simp: live_record_def is_file_def)

lemma record_object: "strict_prefix [''actions''] p \<Longrightarrow> extension (last p) = Some ''json'' \<Longrightarrow> object_path p"
  by (auto simp: object_path_def strict_prefix_def prefix_def)

lemma live_record_shrinks: "shrinks t t' \<Longrightarrow> live_record env t' p r \<Longrightarrow> live_record env t p r"
  unfolding live_record_def using shrinks_file[OF _ record_object] by blast

lemma wp_then:
  assumes "wp m M t" "\<And>x. preserves R (f x)" "\<And>t' e. M t' (Inl e) \<Longrightarrow> Q t' (Inl e)"
    "\<And>t' t'' x r. M t' (Inr x) \<Longrightarrow> R t' t'' \<Longrightarrow> Q t'' r"
  shows "wp (io_bind m f) Q t"
proof (rule wp_bind_of[OF assms(1)])
  show "wp (f x) Q t'" if "M t' (Inr x)" for t' x using assms(4)[OF that] by (rule wp_preserves[OF assms(2)])
qed (rule assms(3))

lemma quarantined_gone:
  assumes "strict_prefix [''actions''] p" "object_path p"
  shows "wp (gc_quarantine_action env p reason) (\<lambda>t' r. r = Inr () \<longrightarrow> \<not> is_file t' p) t"
proof -
  have moved: "wp (io_error c p (rename p [''quarantine'', n])) (\<lambda>t' r. r = Inr () \<longrightarrow> \<not> is_file t' p) t" for n c
    using assms(1) by (intro wp_io_error wp_rename) (auto simp: is_file_def strict_prefix_def prefix_def)
  have reason: "\<not> object_path (with_extension [''quarantine'', n] ''reason'')" for n by (simp add: with_extension_def)
  show ?thesis
    unfolding gc_quarantine_action_def Let_def
    by (rule wp_bind, rule wp_new_v4, simp only: sum.case, rule wp_then[OF moved, of shrinks])
      (intro files.rules files.fs_write files.helpers files.retry reason, use shrinks_gone[OF _ assms(2)] in auto)
qed

text \<open>Every record that lies in the tree after loading is loaded with its content.\<close>

definition loads :: "('v, 'z) StoreEnv_scheme \<Rightarrow> lpath list \<Rightarrow> 'v ActionEntry list \<Rightarrow> tree_view \<Rightarrow> (CacheError, 'v ActionEntry list) result \<Rightarrow> bool" where
  "loads env paths acc t x \<longleftrightarrow> (\<forall>loaded. x = Ok loaded \<longrightarrow> set acc \<subseteq> set loaded \<and>
     (\<forall>a \<in> set loaded. a \<in> set acc \<or> ae_path a \<in> set paths \<and> extension (last (ae_path a)) = Some ''json'') \<and>
     (\<forall>p r. p \<in> set paths \<longrightarrow> live_record env t p r \<longrightarrow> (\<exists>a \<in> set loaded. ae_path a = p \<and> ae_result a = r)))"

lemma loads_error: "loads env paths acc t (Inl e)"
  and loads_none: "loads env [] acc t (Inr acc)"
  by (auto simp: loads_def)

lemma loads_skip: "loads env paths acc t x \<Longrightarrow> (\<And>r. \<not> live_record env t p r) \<Longrightarrow> loads env (p # paths) acc t x"
  by (auto simp: loads_def)

lemma loads_take:
  assumes "loads env paths (acc @ [a]) t x" "extension (last (ae_path a)) = Some ''json''"
    "\<And>r. live_record env t (ae_path a) r \<Longrightarrow> r = ae_result a"
  shows "loads env (ae_path a # paths) acc t x"
  unfolding loads_def
proof (intro allI impI conjI ballI)
  fix loaded assume "x = Ok loaded"
  then have l: "set (acc @ [a]) \<subseteq> set loaded"
    "\<forall>b \<in> set loaded. b \<in> set (acc @ [a]) \<or> ae_path b \<in> set paths \<and> extension (last (ae_path b)) = Some ''json''"
    "\<forall>p r. p \<in> set paths \<longrightarrow> live_record env t p r \<longrightarrow> (\<exists>b \<in> set loaded. ae_path b = p \<and> ae_result b = r)"
    using assms(1) by (auto simp: loads_def)
  show "set acc \<subseteq> set loaded" using l(1) by simp
  show "b \<in> set acc \<or> ae_path b \<in> set (ae_path a # paths) \<and> extension (last (ae_path b)) = Some ''json''" if "b \<in> set loaded" for b
    using that l(2) assms(2) by auto
  show "\<exists>b \<in> set loaded. ae_path b = p \<and> ae_result b = r" if "p \<in> set (ae_path a # paths)" "live_record env t p r" for p r
    using that l(1,3) assms(3) by auto
qed

lemma still_access: "preserves (\<lambda>t t'. t' = t) (access_time p)"
  unfolding access_time_def Let_def by (intro still.rules)

lemma load_loop_complete:
  assumes "\<And>q. q \<in> set paths \<Longrightarrow> strict_prefix [''actions''] q"
  shows "wp (load_loop env paths acc) (loads env paths acc) t"
  using assms
proof (induction paths arbitrary: acc t)
  case (Cons p paths)
  have path: "strict_prefix [''actions''] p" using Cons.prems by simp
  have later: "wp (load_loop env paths acc') (\<lambda>t' x. loads env paths acc' t' x \<and> shrinks u t') u" for acc' u
    using Cons by (intro wp_both) (auto intro!: Cons.IH wp_preserves[OF files.loading])
  have other: "wp (load_loop env paths acc) (loads env (p # paths) acc) u"
    if "\<And>u' r. shrinks u u' \<Longrightarrow> \<not> live_record env u' p r" for u
    by (rule wp_mono[OF later]) (use that in \<open>auto intro!: loads_skip\<close>)
  show ?case
  proof (cases "extension (last p) = Some ''json''")
    case True
    note object = record_object[OF path True]
    have moved: "wp (io_bind (gc_quarantine_action env p reason) (\<lambda>_. load_loop env paths acc)) (loads env (p # paths) acc) u" for reason u
    proof (rule wp_bind_of[OF quarantined_gone[OF path object]])
      show "wp (load_loop env paths acc) (loads env (p # paths) acc) t'" if "Ok x = Ok () \<longrightarrow> \<not> is_file t' p" for t' x
        by (rule other) (metis that shrinks_gone[OF _ object] live_record_file old.unit.exhaust)
    qed (rule loads_error)
    have taken: "wp (load_loop env paths (acc @ [\<lparr>ae_path = p, ae_access = k, ae_result = r\<rparr>])) (loads env (p # paths) acc) u"
      if "u p = Some (LFile bytes m)" "check_action env (last p) bytes = Ok r" for u bytes m r k
    proof (rule wp_mono[OF later])
      fix t' x
      assume q: "loads env paths (acc @ [\<lparr>ae_path = p, ae_access = k, ae_result = r\<rparr>]) t' x \<and> shrinks u t'"
      have "r' = r" if "live_record env t' p r'" for r'
        using live_record_shrinks[OF conjunct2[OF q] that] \<open>u p = _\<close> \<open>check_action _ _ _ = _\<close> by (auto simp: live_record_def)
      then show "loads env (p # paths) acc t' x" using loads_take[OF conjunct1[OF q]] True by simp
    qed
    have read: "wp (io_bind (io_error c p (read_file p)) (\<lambda>bytes. case check_action env (last p) bytes of
          Inl reason \<Rightarrow> io_bind (gc_quarantine_action env p reason) (\<lambda>_. load_loop env paths acc)
        | Inr r \<Rightarrow> io_bind (access_time p) (\<lambda>k. load_loop env paths (acc @ [\<lparr>ae_path = p, ae_access = k, ae_result = r\<rparr>]))))
        (loads env (p # paths) acc) u" for c u
      by (auto intro!: wp_bind wp_io_error wp_read_file loads_error moved wp_preserves[OF still_access] taken split: sum.splits)
    show ?thesis
      using True by (auto intro!: wp_skip[OF still.sizes(1)] moved read loads_error)
  next
    case False
    then show ?thesis using other by (auto simp: live_record_def)
  qed
qed (auto intro!: wp_give loads_none)

lemma load_actions_complete:
  assumes "tree_ok t"
  shows "wp (load_actions env) (\<lambda>t' x. \<forall>loaded. x = Ok loaded \<longrightarrow>
    (\<forall>a \<in> set loaded. strict_prefix [''actions''] (ae_path a) \<and> extension (last (ae_path a)) = Some ''json'') \<and>
    (\<forall>p r. live_record env t' p r \<longrightarrow> (\<exists>a \<in> set loaded. ae_path a = p \<and> ae_result a = r))) t"
  unfolding load_actions_def
proof (rule wp_bind_of[OF regular_files_finds])
  fix t' paths
  assume "t' = t \<and> (\<forall>files. Inr paths = Inr files \<longrightarrow> (\<forall>q \<in> set files. strict_prefix [''actions''] q) \<and>
    (tree_ok t \<longrightarrow> (\<forall>q. is_file t q \<longrightarrow> strict_prefix [''actions''] q \<longrightarrow> q \<in> set files)))"
  then have t': "t' = t" and paths: "\<And>q. q \<in> set paths \<Longrightarrow> strict_prefix [''actions''] q"
    "\<And>q. is_file t q \<Longrightarrow> strict_prefix [''actions''] q \<Longrightarrow> q \<in> set paths" using assms by auto
  have "wp (load_loop env paths []) (\<lambda>t'' x. loads env paths [] t'' x \<and> shrinks t t'') t"
    by (intro wp_both load_loop_complete paths(1) wp_preserves[OF files.loading])
  then show "wp (load_loop env paths []) (\<lambda>t' x. \<forall>loaded. x = Ok loaded \<longrightarrow>
      (\<forall>a \<in> set loaded. strict_prefix [''actions''] (ae_path a) \<and> extension (last (ae_path a)) = Some ''json'') \<and>
      (\<forall>p r. live_record env t' p r \<longrightarrow> (\<exists>a \<in> set loaded. ae_path a = p \<and> ae_result a = r))) t'"
    unfolding t'
  proof (rule wp_mono, intro allI impI conjI ballI)
    fix t'' x loaded
    assume q: "loads env paths [] t'' x \<and> shrinks t t''" "x = Ok loaded"
    show "strict_prefix [''actions''] (ae_path a)" "extension (last (ae_path a)) = Some ''json''" if "a \<in> set loaded" for a
      using q that paths(1) by (auto simp: loads_def)
    show "\<exists>a \<in> set loaded. ae_path a = p \<and> ae_result a = r" if "live_record env t'' p r" for p r
    proof -
      have "live_record env t p r" using q(1) that by (auto intro: live_record_shrinks)
      then have "p \<in> set paths" using paths(2)[of p] by (auto simp: live_record_def is_file_def)
      then show ?thesis using q that by (auto simp: loads_def)
    qed
  qed
qed auto

section \<open>Eviction and sweep\<close>

lemma wp_any: "(\<And>t' e. Q t' (Inl e)) \<Longrightarrow> (\<And>t' x. wp (f x) Q t') \<Longrightarrow> wp (io_bind m f) Q t"
  by (rule wp_skip[where R = "\<lambda>_ _. True"]) (simp_all add: preserves_def)

lemma plan_loop_planned:
  "wp (plan_loop c time projected references planned actions)
    (\<lambda>t' x. \<forall>planned'. x = Ok planned' \<longrightarrow> set planned' \<subseteq> set planned \<union> ae_path ` set actions) t"
proof (induction actions arbitrary: projected references planned t)
  case (Cons a actions)
  have IH: "wp (plan_loop c time projected references (planned @ [ae_path a]) actions)
    (\<lambda>t' x. \<forall>planned'. x = Ok planned' \<longrightarrow> set planned' \<subseteq> set planned \<union> ae_path ` set (a # actions)) t" for projected references t
    by (rule wp_mono[OF Cons.IH]) auto
  show ?case
    using IH by (auto simp: Let_def split: option.splits intro!: wp_give wp_fail wp_any)
qed (auto intro!: wp_give)

lemma retry_gone: "wp (remove_file_retry_later p) (\<lambda>t' x. x = Ok True \<longrightarrow> \<not> is_file t' p) t"
  unfolding remove_file_retry_later_def remove_file_def
  by (intro wp_match wp_call) (auto simp: is_file_def intro!: wp_give wp_fail split: option.splits LNode.splits)

lemma remove_planned_gone:
  assumes "\<And>p. p \<in> set paths \<Longrightarrow> object_path p" "\<And>p. p \<in> set removed \<Longrightarrow> object_path p \<and> \<not> is_file t p"
  shows "wp (remove_planned paths removed) (\<lambda>t' x. \<forall>removed'. x = Ok removed' \<longrightarrow> (\<forall>p \<in> set removed'. \<not> is_file t' p)) t"
  using assms
proof (induction paths arbitrary: removed t)
  case (Cons p paths)
  let ?Q = "\<lambda>t' x. \<forall>removed'. x = Ok removed' \<longrightarrow> (\<forall>p \<in> set removed'. \<not> is_file t' p)"
  have object: "object_path p" using Cons.prems(1) by simp
  have retried: "wp (remove_file_retry_later p) (\<lambda>t' x. (x = Ok True \<longrightarrow> \<not> is_file t' p) \<and> shrinks t t') t"
    by (intro wp_both retry_gone wp_preserves[OF files.retry])
  have next_one: "wp (remove_planned paths removed') ?Q u" if "shrinks t u" "\<And>q. q \<in> set removed' \<Longrightarrow> q \<in> set removed \<or> q = p \<and> \<not> is_file u p" for u removed'
  proof (rule Cons.IH)
    show "object_path q \<and> \<not> is_file u q" if "q \<in> set removed'" for q
      using \<open>\<And>q. q \<in> set removed' \<Longrightarrow> _\<close>[OF that] Cons.prems(2) shrinks_gone[OF \<open>shrinks t u\<close>] object by blast
  qed (use Cons.prems in simp)
  show ?case
    unfolding remove_planned.simps
  proof (rule wp_bind_of[OF retried])
    fix u gone
    assume u: "(Ok gone = Ok True \<longrightarrow> \<not> is_file u p) \<and> shrinks t u"
    have rest: "wp (io_bind (ignore (remove_file_retry_later (with_extension p ''access''))) (\<lambda>_. remove_planned paths (removed @ [p]))) ?Q u" if gone
    proof (rule wp_skip[where R = shrinks, OF files.wrapped(2)[OF files.retry]])
      show "wp (remove_planned paths (removed @ [p])) ?Q v" if "shrinks u v" for v
      proof (rule next_one)
        show "shrinks t v" using u that by (auto intro: files.trans)
        show "q \<in> set removed \<or> q = p \<and> \<not> is_file v p" if "q \<in> set (removed @ [p])" for q
          using that u \<open>gone\<close> shrinks_gone[OF \<open>shrinks u v\<close> object] by auto
      qed
    qed simp
    show "wp (if gone then io_bind (sync_directory (butlast p)) (\<lambda>_. io_bind (ignore (remove_file_retry_later (with_extension p ''access'')))
        (\<lambda>_. remove_planned paths (removed @ [p]))) else remove_planned paths removed) ?Q u"
      using rest next_one[of u removed] u by (auto intro!: wp_skip[OF still.helpers(1)])
  qed auto
qed (auto intro!: wp_give)

lemma keep_loading:
  assumes "\<And>q. q \<in> set paths \<Longrightarrow> strict_prefix [''actions''] q"
  shows "preserves (kept blob_area) (load_loop env paths acc)"
  using assms
proof (induction paths arbitrary: acc)
  case (Cons p paths)
  have p: "p \<notin> blob_area" "butlast p \<noteq> [] \<Longrightarrow> hd p = ''actions''" "with_extension p e \<notin> blob_area" for e
    using Cons.prems[of p] by (auto simp: strict_prefix_def prefix_def with_extension_def neq_Nil_conv split: if_splits)
  have "preserves (kept blob_area) (gc_quarantine_action env p reason)" for reason
    unfolding gc_quarantine_action_def Let_def
    by (intro keep.rules keeps keep.helpers keep_retry p) (auto simp: with_extension_def)
  moreover have "preserves (kept blob_area) (access_time p)" unfolding access_time_def Let_def by (intro keep.rules)
  ultimately show ?case using Cons by (auto intro!: keep.rules keep.sizes)
qed (simp add: keep.pure)

lemma keep_planned:
  assumes "\<And>q. q \<in> set paths \<Longrightarrow> strict_prefix [''actions''] q"
  shows "preserves (kept blob_area) (remove_planned paths removed)"
  using assms
proof (induction paths arbitrary: removed)
  case (Cons p paths)
  have p: "p \<notin> blob_area" "with_extension p e \<notin> blob_area" for e
    using Cons.prems[of p] by (auto simp: strict_prefix_def prefix_def with_extension_def neq_Nil_conv split: if_splits)
  then show ?case using Cons by (auto intro!: keep.rules keep.helpers keep_retry)
qed (simp add: keep.pure)

lemma keep_swept: "preserves (kept (set reachable)) (sweep_blobs reachable time grace paths n)"
proof (induction paths arbitrary: n)
  case (Cons p paths)
  have "preserves (kept (set reachable)) (io_bind (if p \<in> set reachable then give False else older_than p time grace) (\<lambda>old.
      io_bind (if old then remove_file_retry_later p else give False) (\<lambda>gone.
       sweep_blobs reachable time grace paths (if gone then Suc n else n))))"
  proof (cases "p \<in> set reachable")
    case True
    have "io_bind (give x) f = f x" for x and f :: "bool \<Rightarrow> nat cache_io" by (rule ext) (simp add: io_bind_def give_def)
    then show ?thesis using Cons True by simp
  next
    case False
    then show ?thesis using Cons by (auto intro!: keep.rules keep.sizes keep_retry)
  qed
  then show ?case by simp
qed (simp add: keep.pure)

lemma reachable_live:
  assumes "\<And>p r. live_record env t p r \<Longrightarrow> \<exists>a \<in> set actions. ae_path a = p \<and> ae_result a = r"
    "\<And>p. p \<in> set removed \<Longrightarrow> \<not> is_file t p" "live_record env t p r" "output_bundle r = Some b"
  shows "blob_relative_path b \<in> set (reachable_blobs actions removed)"
proof -
  obtain a where "a \<in> set actions" "ae_path a = p" "ae_result a = r" using assms(1,3) by blast
  then show ?thesis
    using assms(2-4) live_record_file[OF assms(3)]
    by (auto simp: reachable_blobs_def map_filter_def intro!: image_eqI[of _ _ b] image_eqI[of _ _ a])
qed

text \<open>
  The promise of a collection: a blob that a record of the final tree names is as it was, whether the collection
  ended, failed or was cut short.
\<close>

definition live_kept :: "('v, 'z) StoreEnv_scheme \<Rightarrow> tree_view \<Rightarrow> tree_view \<Rightarrow> bool" where
  "live_kept env t t' \<longleftrightarrow> (tree_ok t \<longrightarrow> tree_ok t' \<and> shrinks t t' \<and>
     (\<forall>p r b. live_record env t' p r \<longrightarrow> output_bundle r = Some b \<longrightarrow> is_file t (blob_relative_path b) \<longrightarrow>
        t' (blob_relative_path b) = t (blob_relative_path b)))"

interpretation live: tree_relation "live_kept env" for env :: "('v, 'z) StoreEnv_scheme"
proof
  show "live_kept env t t" for t by (simp add: live_kept_def only_new_def)
  show "live_kept env t v" if "live_kept env t u" "live_kept env u v" for t u v
    unfolding live_kept_def
  proof (intro impI conjI allI)
    assume "tree_ok t"
    then have tu: "tree_ok u" "shrinks t u" and uv: "tree_ok v" "shrinks u v" using that by (auto simp: live_kept_def)
    show "tree_ok v" "shrinks t v" using tu uv files.trans by auto
    fix p r b
    assume l: "live_record env v p r" "output_bundle r = Some b" "is_file t (blob_relative_path b)"
    have "u (blob_relative_path b) = t (blob_relative_path b)"
      using that(1) \<open>tree_ok t\<close> live_record_shrinks[OF uv(2) l(1)] l(2,3) by (auto simp: live_kept_def)
    then show "v (blob_relative_path b) = t (blob_relative_path b)"
      using that(2) tu(1) l by (auto simp: live_kept_def is_file_def)
  qed
qed

lemma blob_path_area: "blob_relative_path b \<in> blob_area"
  by (simp add: blob_relative_path_def Let_def)

lemma live_kept_area:
  assumes "preserves (kept blob_area) m" "preserves (\<lambda>t t'. tree_ok t \<longrightarrow> tree_ok t') m" "preserves shrinks m"
  shows "preserves (live_kept env) m"
  using assms blob_path_area unfolding preserves_def live_kept_def kept_def by blast

lemma sweep_live:
  assumes "\<And>p r b. live_record env t p r \<Longrightarrow> output_bundle r = Some b \<Longrightarrow> blob_relative_path b \<in> set reachable"
    "preserves (kept (set reachable)) m" "preserves (\<lambda>t t'. tree_ok t \<longrightarrow> tree_ok t') m" "preserves shrinks m"
  shows "wp m (\<lambda>t' _. live_kept env t t') t"
proof (rule wpI)
  fix d assume "node d = t"
  then have m: "kept (set reachable) t (node (fst (m d)))" "tree_ok t \<longrightarrow> tree_ok (node (fst (m d)))" "shrinks t (node (fst (m d)))"
    using assms(2-4) by (auto simp: preserves_def)
  then show "live_kept env t (node (fst (m d)))"
    using live_record_shrinks[OF m(3)] assms(1) by (fastforce simp: live_kept_def kept_def)
qed

lemma wp_live_trans:
  assumes "live_kept env t u" "wp m (\<lambda>t' _. live_kept env u t') u"
  shows "wp m (\<lambda>t' _. live_kept env t t') u"
  by (rule wp_mono[OF assms(2)]) (rule live.trans[OF assms(1)])

lemma load_actions_live: "preserves (live_kept env) (load_actions env')"
proof (rule live_kept_area)
  show "preserves (kept blob_area) (load_actions env')"
    unfolding load_actions_def by (intro keep.listed keep_loading) simp
qed (rule files.load shape.load)+

lemma evict_planned_live:
  assumes loaded: "\<And>a. a \<in> set actions \<Longrightarrow> strict_prefix [''actions''] (ae_path a) \<and> extension (last (ae_path a)) = Some ''json''"
    "\<And>p r. live_record env u p r \<Longrightarrow> \<exists>a \<in> set actions. ae_path a = p \<and> ae_result a = r"
    and planned: "set planned \<subseteq> ae_path ` set actions"
  shows "wp (io_bind (remove_planned planned []) (\<lambda>removed.
      io_bind (regular_files [''blobs''] k) (\<lambda>blobs.
      io_bind (sweep_blobs (reachable_blobs actions removed) time grace blobs 0) (\<lambda>swept.
      io_bind (remove_empty_children [''blobs''] k) (\<lambda>_.
      io_bind (remove_empty_children [''actions''] k) (\<lambda>_. give (length removed, swept))))))) (\<lambda>t' _. live_kept env u t') u"
proof -
  have paths: "strict_prefix [''actions''] p" "object_path p" if "p \<in> set planned" for p
    using that planned loaded(1) record_object by auto
  have "preserves (live_kept env) (remove_planned planned [])"
    by (intro live_kept_area keep_planned paths shape.evicting files.evicting)
  then have "wp (remove_planned planned []) (\<lambda>v x. (live_kept env u v \<and> shrinks u v) \<and>
      (\<forall>removed. x = Ok removed \<longrightarrow> (\<forall>p \<in> set removed. \<not> is_file v p))) u"
    by (intro wp_both remove_planned_gone) (auto intro: paths wp_preserves wp_preserves[OF files.evicting])
  then show ?thesis
  proof (rule wp_bind_of)
    fix v removed
    assume "(live_kept env u v \<and> shrinks u v) \<and> (\<forall>r. Ok removed = Ok r \<longrightarrow> (\<forall>p \<in> set r. \<not> is_file v p))"
    then have v: "live_kept env u v" "shrinks u v" "\<And>p. p \<in> set removed \<Longrightarrow> \<not> is_file v p" by auto
    have reach: "blob_relative_path b \<in> set (reachable_blobs actions removed)" if "live_record env v p r" "output_bundle r = Some b" for p r b
      by (rule reachable_live[OF loaded(2)[OF live_record_shrinks[OF v(2)]] v(3) that])
    show "wp (io_bind (regular_files [''blobs''] k) (\<lambda>blobs.
        io_bind (sweep_blobs (reachable_blobs actions removed) time grace blobs 0) (\<lambda>swept.
        io_bind (remove_empty_children [''blobs''] k) (\<lambda>_.
        io_bind (remove_empty_children [''actions''] k) (\<lambda>_. give (length removed, swept)))))) (\<lambda>t' _. live_kept env u t') v"
      by (rule wp_live_trans[OF v(1)], rule sweep_live[OF reach])
        (intro keep.bind keep.scans keep_swept keep.empty_children keep.pure
           shape.bind shape.scans shape.sweeping shape.empty_children shape.pure
           files.bind files.scans files.sweeping files.empty_children files.pure | assumption)+
  qed auto
qed

text \<open>The iteration order of a hash set yields elements of the set.\<close>

lemma evict_live:
  fixes env :: "('v, 'z) StoreEnv_scheme"
  assumes order: "\<And>paths. set (hash_order env paths) \<subseteq> set paths"
  shows "preserves (live_kept env) (evict_and_sweep env time n)"
  unfolding preserves_wp
proof
  fix t
  show "wp (evict_and_sweep env time n) (\<lambda>t' _. live_kept env t t') t"
  proof (cases "tree_ok t")
    case True
    let ?L = "\<lambda>u (loaded :: 'v ActionEntry list). (\<forall>a \<in> set loaded. strict_prefix [''actions''] (ae_path a) \<and> extension (last (ae_path a)) = Some ''json'') \<and>
      (\<forall>p r. live_record env u p r \<longrightarrow> (\<exists>a \<in> set loaded. ae_path a = p \<and> ae_result a = r))"
    have load: "wp (load_actions env) (\<lambda>u x. live_kept env t u \<and> (\<forall>loaded. x = Ok loaded \<longrightarrow> ?L u loaded)) t"
      by (intro wp_both load_actions_complete[OF True] wp_preserves[OF load_actions_live])
    show ?thesis
      unfolding evict_and_sweep_def Let_def
    proof (rule wp_bind_of[OF load])
      fix u loaded
      assume "live_kept env t u \<and> (\<forall>l. Ok loaded = Ok l \<longrightarrow> ?L u l)"
      then have u: "live_kept env t u" "?L u loaded" by auto
      let ?actions = "sort_key ae_access loaded"
      have plan: "wp (plan_loop c time k references [] ?actions) (\<lambda>v x. v = u \<and>
          (\<forall>planned. x = Ok planned \<longrightarrow> set planned \<subseteq> ae_path ` set loaded)) u" for c k references
        using plan_loop_planned[of c time k references "[]" ?actions u]
        by (intro wp_both) (simp_all add: wp_preserves[OF still.planning])
      show "wp (io_bind (plan_loop (store_config env) time n (count_references ?actions) [] ?actions) (\<lambda>planned.
          io_bind (remove_planned (hash_order env planned) []) (\<lambda>removed.
          io_bind (regular_files [''blobs''] (cfg_max_entries (store_config env))) (\<lambda>blobs.
          io_bind (sweep_blobs (reachable_blobs ?actions removed) time (cfg_temporary_grace (store_config env)) blobs 0) (\<lambda>swept.
          io_bind (remove_empty_children [''blobs''] (cfg_max_entries (store_config env))) (\<lambda>_.
          io_bind (remove_empty_children [''actions''] (cfg_max_entries (store_config env))) (\<lambda>_.
            give (length removed, swept)))))))) (\<lambda>t' _. live_kept env t t') u"
        by (rule wp_bind_of[OF plan])
          (use u order in \<open>auto intro!: wp_live_trans[OF u(1)] evict_planned_live dest!: subsetD[OF order]\<close>)
    qed auto
  qed (simp add: wp_def live_kept_def)
qed

section \<open>Safety of collection\<close>

lemma collect_live:
  assumes "\<And>paths. set (hash_order env paths) \<subseteq> set paths"
  shows "preserves (live_kept env) (collect env force)"
proof -
  have bytes: "preserves (live_kept env) (directory_bytes root k)" for root k by (rule live.scans)
  have maintenance: "preserves (live_kept env) (run_maintenance env time)" for time
    by (intro live_kept_area keep_maintenance shape.maintenance files.maintenance)
  have "preserves (live_kept env) (collect_at env force time)" for time
    unfolding collect_at_def Let_def by (intro live.rules bytes maintenance evict_live assms)
  then have pass: "preserves (live_kept env) (collect_locked env force)" by (simp add: preserves_def collect_locked_def)
  have lock: "preserves (live_kept env) (acquire_lock [''locks'', ''gc.lock''] True)"
    by (intro live_kept_area keep_lock shape.lock files.lock) simp_all
  have state: "STATE_FILE \<notin> blob_area" by (simp add: STATE_FILE_def)
  have "preserves (kept blob_area) (reconcile n)" for n
    unfolding reconcile_def ledger_lock_def write_sync_def Let_def by (intro keep.rules keep_lock keeps keep.helpers state)
  then have "preserves (live_kept env) (reconcile n)" for n by (intro live_kept_area shape.accounts files.accounts)
  then show ?thesis unfolding collect_def by (intro live.rules lock pass)
qed

text \<open>
  C3. Collection never takes a blob that is still needed.  Whether a collection (forced or not) completes, fails
  part-way or is cut short at any system call, every action record that is left in the store and that a lookup would
  accept still has its output bundle: when that blob was a file before the collection, it is the same file
  afterwards.  The store starts as a tree in which every node lies in a directory, and the iteration order of the
  planned set yields nothing that was not planned.
\<close>
theorem collect_keeps_live_blobs:
  assumes "collect env force d = (d', outcome)" "tree_ok (node d)" "\<And>paths. set (hash_order env paths) \<subseteq> set paths"
    and "node d' (''actions'' # shard # path) = Some (LFile record_bytes stamp)" "extension (last (shard # path)) = Some ''json''"
    and "check_action env (last (shard # path)) record_bytes = Ok r" "output_bundle r = Some b"
    and "node d (blob_relative_path b) = Some (LFile blob_bytes stamp')"
  shows "node d' (blob_relative_path b) = Some (LFile blob_bytes stamp')"
proof -
  have "live_kept env (node d) (node d')" using collect_live[OF assms(3), where force = force] assms(1) by (auto simp: preserves_def) (metis fst_conv)
  moreover have "live_record env (node d') (''actions'' # shard # path) r"
    using assms(4-6) by (auto simp: live_record_def strict_prefix_def)
  ultimately show ?thesis using assms(2,7,8) by (auto simp: live_kept_def is_file_def)
qed

lemma tree_ok_listed:
  assumes "\<forall>(p, n) \<in> set xs. butlast p = [] \<or> map_of xs (butlast p) = Some LDir"
  shows "tree_ok (map_of xs)"
  unfolding tree_ok_def
proof (intro allI impI)
  fix p c assume "map_of xs (p @ [c]) \<noteq> None"
  then obtain n where "(p @ [c], n) \<in> set xs" by (auto dest: map_of_SomeD)
  then show "p = [] \<or> map_of xs p = Some LDir" using assms by fastforce
qed

text \<open>The host refuses to delete the evicted record: its bundle stays with it.\<close>

theorem collect_keeps_live_blobs_witness:
  "let (d', r) = collect sample_env True (store_disk (replicate 103 None @ [Some Denied]) stored_tree) in
   node d' [''actions'', ''ns'', record_name] = Some (LFile [123, 125] 1) \<and>
   node d' (blob_relative_path sample_bundle) = Some (LFile [1, 2, 3, 4] 1)"
proof -
  let ?d = "store_disk (replicate 103 None @ [Some Denied]) stored_tree"
  let ?run = "collect sample_env True ?d"
  have "\<forall>(p, n) \<in> set stored_tree. butlast p = [] \<or> map_of stored_tree (butlast p) = Some LDir" by code_simp
  then have ok: "tree_ok (node ?d)" by (simp add: tree_ok_listed node_def store_disk_def)
  have order: "set (hash_order sample_env paths) \<subseteq> set paths" for paths by (simp add: sample_env_def)
  have survives: "node (fst ?run) [''actions'', ''ns'', record_name] = Some (LFile [123, 125] 1)" by code_simp
  have valid: "extension (last [''ns'', record_name]) = Some ''json''" "check_action sample_env (last [''ns'', record_name]) [123, 125] = Ok bundle_result"
    by code_simp+
  have refers: "output_bundle bundle_result = Some sample_bundle" by (simp add: bundle_result_def)
  have blob: "node ?d (blob_relative_path sample_bundle) = Some (LFile [1, 2, 3, 4] 1)" by code_simp
  show ?thesis
    using survives collect_keeps_live_blobs[OF prod.collapse[symmetric, of ?run] ok order survives valid refers blob]
    by (simp add: Let_def split_beta)
qed

end
