(* ===== verification/Cache_Ledger.thy ===== *)
theory Cache_Ledger
  imports Local_Collect
begin

text \<open>
  The capacity ledger under two processes.  A writer holds the shared collection lock from its reservation until
  \<^verbatim>\<open>write_blob_reserved\<close> returns (\<^verbatim>\<open>octa-cache/src/local/mod.rs\<close>); \<^verbatim>\<open>finish_reservation\<close> runs after the lock is dropped
  and takes the ledger lock only.  A collection of another process can therefore fall between the two.
\<close>

text \<open>Publication with the operation of another process in the gap before the reservation is finished.\<close>

definition interrupted_write ::
    "('v, 'z) StoreEnv_scheme \<Rightarrow> BlobDescriptor \<Rightarrow> BlobReader \<Rightarrow> 'a cache_io \<Rightarrow> WriteOutcome cache_io" where
  "interrupted_write env b body other =
     io_bind (reserve_capacity env (encoded_size_bytes b)) (\<lambda>_.
     io_match (write_blob_reserved env b body)
       (\<lambda>e. io_bind (ignore other) (\<lambda>_. finish_reservation (encoded_size_bytes b) (Err e)))
       (\<lambda>outcome. io_bind (ignore other) (\<lambda>_. finish_reservation (encoded_size_bytes b) (Ok outcome))))"

lemma ignored_give: "io_bind (ignore (give x)) f = f ()"
  by (rule ext) (simp add: io_bind_def ignore_def give_def)

lemma local_write_blob_gap:
  "local_write_blob env b body =
     io_bind (lift_result (lift_protocol (blob_validate b))) (\<lambda>_.
     io_bind (lift_result (validate_blob_resources env b)) (\<lambda>_.
     io_bind (existing_blob_is_valid env b) (\<lambda>valid.
       if valid then give AlreadyPresent else interrupted_write env b body (give ()))))"
  unfolding local_write_blob_def interrupted_write_def ignored_give ..

text \<open>What the ledger says and what the files of the layout take up.\<close>

definition ledger_and_files :: "Disk \<Rightarrow> u64 \<times> u64" where
  "ledger_and_files d =
     (case (snd (used d), snd (directory_bytes [] 100 d)) of (Inr n, Inr m) \<Rightarrow> (n, m) | _ \<Rightarrow> (0, 0))"

definition outcome_and_ledger :: "Disk \<times> 'a \<Rightarrow> 'a \<times> u64 \<times> u64" where
  "outcome_and_ledger dr = (snd dr, ledger_and_files (fst dr))"

definition other_bundle :: BlobDescriptor where
  "other_bundle = sample_bundle\<lparr>digest := \<lparr>algorithm = Blake3, hash = replicate 32 1, size_bytes = 5\<rparr>,
     encoded_size_bytes := 5, expanded_size_bytes := 5\<rparr>"


end
