(* ===== verification/Spec2Isabelle.thy ===== *)
theory Spec2Isabelle
  imports Dag Cache_Action Bundle_Pack Executor_Run Renderer_Order Cache_Ledger
begin

text \<open>
  \<^bold>\<open>A verification library for the task runner Octa.\<close>

  \<^bold>\<open>The program.\<close>  Octa reads an Octafile, plans the requested tasks as a dependency graph
  (\<^verbatim>\<open>crates/octa-dag\<close>), and executes the plan with bounded concurrency (\<^verbatim>\<open>crates/octa-executor\<close>).  The executor
  reports what happens through a recorder of public lifecycle events, whose sink is the console
  (\<^verbatim>\<open>crates/octa-output\<close>).  Task results can be kept in a content-addressed cache: the wire formats are in
  \<^verbatim>\<open>crates/octa-cache-protocol\<close>, the packing and extraction of output bundles and the local object store in
  \<^verbatim>\<open>crates/octa-cache\<close>.  All paths below are relative to \<^verbatim>\<open>src/crates\<close>.

  \<^bold>\<open>Conventions.\<close>  Strings are lists of UTF-8 bytes, machine integers are words of their width, and a fallible
  function returns a sum whose left component is the error (theory \<^verbatim>\<open>Prelude\<close>).  Mutable state is a record that is
  passed explicitly; a method that can fail after a partial effect has type \<open>('s, 'a) io\<close>.  Code outside of the
  repository (hash function, JSON and Zstandard libraries, templates, host file system, operating system, async
  runtime) is a parameter, and a property that relies on its documented behaviour states that as a hypothesis and
  has a witness with a concrete instance.

  \<^bold>\<open>Dependency graph\<close> (theory \<^verbatim>\<open>Dag\<close>; \<^verbatim>\<open>octa-dag/src/dag.rs\<close>).  The graph with its two mutators and the two Kahn loops over
  arbitrary iteration orders of the hash collections.  The lemmas show that the loops compute a maximal topological
  prefix, hence that \<open>has_cycle\<close> and \<open>is_linear\<close> are exact; the loops are total functions.

  \<^bold>\<open>Cache formats\<close> (theories \<^verbatim>\<open>Cache_Policy\<close>, \<^verbatim>\<open>Cache_Digest\<close>, \<^verbatim>\<open>Cache_Path\<close>, \<^verbatim>\<open>Cache_Action\<close>, \<^verbatim>\<open>Cache_Result\<close>).  Digests, portable
  paths with the lexical symlink rules, the canonical encoding of action descriptors, and action results with the
  streaming size bound.  The main results are that the action encoding is injective on valid descriptors, that
  paths are ordered as trees, and that a validated result respects its bounds.

  \<^bold>\<open>Output bundles\<close> (theories \<^verbatim>\<open>Bundle\<close>, \<^verbatim>\<open>Bundle_Extract\<close>, \<^verbatim>\<open>Bundle_Pack\<close>; \<^verbatim>\<open>octa-cache/src/bundle\<close>).  Packing of an unchanging
  host tree and extraction into a staging tree.  The locales \<open>byte_source\<close> and \<open>byte_sink\<close> are the interfaces of the
  bounded readers and writers, interpreted on the model's own readers and writers.  Packing followed by extraction is
  the identity; an accepted stream is canonical and within its limits; a bundle without symlinks stays inside the
  staging directory, and a bundle with chained symlinks does not.

  \<^bold>\<open>Local object store\<close> (theories \<^verbatim>\<open>Cache_Disk\<close>, \<^verbatim>\<open>Local_Gc\<close>, \<^verbatim>\<open>Local_Store\<close>, \<^verbatim>\<open>Local_Safety\<close>, \<^verbatim>\<open>Local_Collect\<close>, \<^verbatim>\<open>Cache_Ledger\<close>;
  \<^verbatim>\<open>octa-cache/src/local\<close>).  The layout directory is a tree of nodes, and every system call can fail or be the one during
  which the process dies, with a torn write.  On top of it stand lock files, access markers, the capacity ledger
  (\<^verbatim>\<open>capacity.rs\<close>), mark-and-sweep collection (\<^verbatim>\<open>gc.rs\<close>) and the store's operations (\<^verbatim>\<open>mod.rs\<close>).  The directory scans stop at
  the configured number of entries, and their fuel is that number plus one, which a scan cannot use up: every
  directory but the first has been counted as an entry.  The locales \<open>tree_relation\<close>, \<open>dir_relation\<close> and \<open>store_relation\<close>
  collect what an operation keeps of the tree, one lemma per operation, and are interpreted on the relations the
  properties need.  Publication of blobs and records is atomic under all faults, and collection never takes the
  bundle of a surviving record.  A collection of a second process in the gap before a reservation is released makes the
  ledger under-count.

  \<^bold>\<open>Scheduler\<close> (theories \<^verbatim>\<open>Exec_Error\<close>, \<^verbatim>\<open>Task_Outputs\<close>, \<^verbatim>\<open>Scheduler\<close>, \<^verbatim>\<open>Scheduler_Order\<close>, \<^verbatim>\<open>Scheduler_Locks\<close>, \<^verbatim>\<open>Scheduler_Live\<close>,
  \<^verbatim>\<open>Scheduler_Faults\<close>; \<^verbatim>\<open>octa-executor/src/executor.rs\<close> and the files it calls).  Plan start, the receiving loop and every
  phase of a node task form one interleaving relation \<open>step\<close>, in which task bodies, cancellation and panics are choices
  of the environment.  Invariants by induction on runs give the order of spawning, the delivery of dependency results,
  the concurrency limit and the exclusion of interactive sessions; a measure bounds the length of every run, so no
  fuel is needed; undisturbed runs complete.  Two faulty interleavings are exhibited.

  \<^bold>\<open>Recorder and execution\<close> (theories \<^verbatim>\<open>Events\<close>, \<^verbatim>\<open>Recorder\<close>, \<^verbatim>\<open>Recorder_Trace\<close>, \<^verbatim>\<open>Executor_Run\<close>;
  \<^verbatim>\<open>octa-executor/src/execution_recorder.rs\<close>, \<^verbatim>\<open>execution_run.rs\<close>, \<^verbatim>\<open>executor.rs\<close>).  The recorder's operations are composed of
  atomic sections; the sections interleave arbitrarily and the sink may reject any event.  The accepted events obey
  the lifecycle protocol, the materialised results agree with them, and the operations refine the sections.  A
  complete execution adds the run lifecycle, shutdown and deferred cleanup.

  \<^bold>\<open>Renderers\<close> (theories \<^verbatim>\<open>Renderers\<close>, \<^verbatim>\<open>Renderer_Order\<close>; \<^verbatim>\<open>octa-output/src\<close>).  The renderer interface as a record of
  methods, the wrappers as functions from renderers to renderers, and the spool that moves to disk.  The locale
  \<open>infallible_renderer\<close> is the contract a wrapper relies on; it is interpreted on the terminal and on the wrappers
  themselves.  The properties describe the whole chain: grouped and keep-order output is what a sequential run would
  show, whatever the interleaving and however streams are cut into chunks.

  \<^bold>\<open>Not modelled.\<close>  Parsing of Octafiles and variables (\<^verbatim>\<open>octa-octafile\<close>, \<^verbatim>\<open>octa-executor/src/vars.rs\<close>, \<^verbatim>\<open>envs.rs\<close>,
  \<^verbatim>\<open>template.rs\<close>) is driven by the YAML and template libraries.  The plugin processes and their protocol
  (\<^verbatim>\<open>octa-plugin\<close>, \<^verbatim>\<open>octa-plugin-manager\<close>, \<^verbatim>\<open>octa_plugin_*\<close>), the HTTP cache client, the runner process and the command
  line are input, output and process control around external libraries.  Within the object store, a lock
  is the file and the call that grants it: apart from that gap, the operations of one process are not interleaved with
  those of another.
  The remaining files of the cache (workspace hashing and restoration) work on a file system that other processes
  change.
\<close>

end
